(* ===== verification/Neo_Prelude.thy ===== *)
theory Neo_Prelude
  imports Main "HOL-Library.Word"
begin

text \<open>
  Shared ground of the development: the C integer types at their width, the collections of
  simplification rules the component theories extend, reachability and invariants of step
  relations, the fixed slot tables that the library uses instead of an allocator, and generic
  lemmas on lists and words.

  \<^item> C's integer types are words: \<open>int\<close> is \<open>i32\<close>, \<open>long\<close> and \<open>int64_t\<close> are \<open>i64\<close>, a pointer
    or \<open>unsigned long\<close> is \<open>u64\<close>. Signedness is in the operations (\<open>sint\<close>, \<open><s\<close>), not in the type.
  \<^item> \<open>cast_int\<close> is the C cast \<open>(int)\<close> of a 64-bit value (truncation); \<open>sext\<close> is the implicit
    conversion of an \<open>int\<close> argument to a 64-bit register (sign extension).
\<close>

unbundle bit_operations_syntax

type_synonym u8 = "8 word"
type_synonym u16 = "16 word"
type_synonym u32 = "32 word"
type_synonym u64 = "64 word"
type_synonym i32 = "32 word"
type_synonym i64 = "64 word"
type_synonym addr = "64 word"
type_synonym mem = "64 word \<Rightarrow> 8 word"

named_theorems wrapper_defs \<open>definitions of the system call wrappers and their helpers\<close>
named_theorems frame_simps \<open>what a system call puts into which register\<close>
named_theorems loop_simps \<open>loops of the source as folds or closed forms\<close>
named_theorems mpi_simps \<open>field-wise behaviour of the message queue operations\<close>

abbreviation cast_int :: "i64 \<Rightarrow> i32" where
  "cast_int \<equiv> ucast"

abbreviation sext :: "i32 \<Rightarrow> i64" where
  "sext \<equiv> scast"

section \<open>Step relations, reachable states, invariants\<close>

inductive reachable :: "('s \<Rightarrow> bool) \<Rightarrow> ('s \<Rightarrow> 's \<Rightarrow> bool) \<Rightarrow> 's \<Rightarrow> bool"
  for init :: "'s \<Rightarrow> bool" and step :: "'s \<Rightarrow> 's \<Rightarrow> bool" where
  reach_init: "init s \<Longrightarrow> reachable init step s"
| reach_step: "reachable init step s \<Longrightarrow> step s t \<Longrightarrow> reachable init step t"

lemma reachable_mono:
  "reachable init step s \<Longrightarrow> (\<And>s t. step s t \<Longrightarrow> step' s t) \<Longrightarrow> reachable init step' s"
  by (induction rule: reachable.induct) (auto intro: reachable.intros)

lemma reachable_steps: "reachable init step s \<Longrightarrow> step\<^sup>*\<^sup>* s t \<Longrightarrow> reachable init step t"
  by (rotate_tac, induction rule: rtranclp_induct) (auto intro: reachable.intros)

text \<open>
  The contract of a component that is a step relation: what holds at the start and what every
  step keeps. The only consequence a client needs is that it holds in every reachable state.
\<close>

locale invariant_system =
  fixes init :: "'s \<Rightarrow> bool"
    and step :: "'s \<Rightarrow> 's \<Rightarrow> bool"
    and inv :: "'s \<Rightarrow> bool"
  assumes inv_init: "init s \<Longrightarrow> inv s"
    and inv_step: "inv s \<Longrightarrow> step s t \<Longrightarrow> inv t"
begin

lemma reachable_inv: "reachable init step s \<Longrightarrow> inv s"
  by (induction rule: reachable.induct) (auto intro: inv_init inv_step)

lemma steps_inv: "step\<^sup>*\<^sup>* s t \<Longrightarrow> inv s \<Longrightarrow> inv t"
  by (induction rule: rtranclp_induct) (auto intro: inv_step)

end

section \<open>First fit in a fixed table\<close>

text \<open>
  The library has no allocator: directory streams, thread start records, pthread records and
  unexpected messages all live in static tables searched from index 0. \<open>first_fit P xs\<close> is that
  search loop, \<open>for (i = 0; i < N; i++) if (P(xs[i])) return i;\<close>.
\<close>

fun first_fit :: "('a \<Rightarrow> bool) \<Rightarrow> 'a list \<Rightarrow> nat option" where
  "first_fit P [] = None"
| "first_fit P (x # xs) = (if P x then Some 0 else map_option Suc (first_fit P xs))"

lemma first_fit_SomeD:
  "first_fit P xs = Some i \<Longrightarrow> i < length xs \<and> P (xs ! i) \<and> (\<forall>j<i. \<not> P (xs ! j))"
proof (induction xs arbitrary: i)
  case Nil
  then show ?case by simp
next
  case (Cons x xs)
  show ?case
  proof (cases "P x")
    case True
    with Cons.prems show ?thesis by simp
  next
    case False
    with Cons.prems obtain k where k: "first_fit P xs = Some k" "i = Suc k" by auto
    from Cons.IH [OF k(1)] False k(2) show ?thesis
      by (auto simp: less_Suc_eq_0_disj)
  qed
qed

lemma first_fit_None_iff: "first_fit P xs = None \<longleftrightarrow> (\<forall>x\<in>set xs. \<not> P x)"
  by (induction xs) auto

lemma first_fit_Some_iff:
  "first_fit P xs = Some i \<longleftrightarrow> i < length xs \<and> P (xs ! i) \<and> (\<forall>j<i. \<not> P (xs ! j))"
proof
  assume "i < length xs \<and> P (xs ! i) \<and> (\<forall>j<i. \<not> P (xs ! j))"
  then have i: "i < length xs" "P (xs ! i)" "\<forall>j<i. \<not> P (xs ! j)" by auto
  then have "first_fit P xs \<noteq> None" by (auto simp: first_fit_None_iff)
  then obtain k where k: "first_fit P xs = Some k" by blast
  from first_fit_SomeD [OF k] i have "k = i" by (metis linorder_neqE_nat)
  with k show "first_fit P xs = Some i" by simp
qed (rule first_fit_SomeD)

text \<open>
  What the clients of such a table rely on. \<open>used\<close> is the set of occupied slots, \<open>alloc\<close> hands
  out a slot or fails, \<open>release\<close> gives one back. The tables of the library interpret this
  locale; the facts below are proved once.
\<close>

locale slot_table =
  fixes used :: "'t \<Rightarrow> nat set"
    and alloc :: "'t \<Rightarrow> (nat \<times> 't) option"
    and release :: "nat \<Rightarrow> 't \<Rightarrow> 't"
    and capacity :: nat
    and invar :: "'t \<Rightarrow> bool"
  assumes used_bound: "invar t \<Longrightarrow> used t \<subseteq> {..<capacity}"
    and alloc_Some: "invar t \<Longrightarrow> alloc t = Some (i, t') \<Longrightarrow>
          invar t' \<and> i < capacity \<and> i \<notin> used t \<and> used t' = insert i (used t)"
    and alloc_None: "invar t \<Longrightarrow> alloc t = None \<Longrightarrow> used t = {..<capacity}"
    and release_used: "invar t \<Longrightarrow> i < capacity \<Longrightarrow>
          invar (release i t) \<and> used (release i t) = used t - {i}"
begin

lemma used_finite: "invar t \<Longrightarrow> finite (used t)"
  using used_bound finite_subset by blast

lemma alloc_succeeds_iff: "invar t \<Longrightarrow> alloc t \<noteq> None \<longleftrightarrow> card (used t) < capacity"
proof
  assume inv: "invar t" and "alloc t \<noteq> None"
  then obtain i t' where "alloc t = Some (i, t')" by auto
  with inv have "i < capacity" "i \<notin> used t" using alloc_Some by blast+
  with used_bound [OF inv] have "used t \<subset> {..<capacity}" by blast
  then show "card (used t) < capacity"
    using psubset_card_mono [of "{..<capacity}" "used t"] by simp
next
  assume inv: "invar t" and less: "card (used t) < capacity"
  show "alloc t \<noteq> None"
  proof
    assume "alloc t = None"
    with inv have "used t = {..<capacity}" by (rule alloc_None)
    with less show False by simp
  qed
qed

lemma alloc_card: "invar t \<Longrightarrow> alloc t = Some (i, t') \<Longrightarrow> card (used t') = Suc (card (used t))"
  using alloc_Some used_finite by simp

lemma alloc_release: "invar t \<Longrightarrow> alloc t = Some (i, t') \<Longrightarrow> used (release i t') = used t"
  using alloc_Some [of t i t'] release_used [of t' i] by auto

lemma alloc_fresh:
  assumes "invar t" "alloc t = Some (i, t')" "alloc t' = Some (j, t'')"
  shows "i \<noteq> j"
  using alloc_Some [OF assms(1,2)] alloc_Some [of t' j t''] assms(3) by auto

end

section \<open>Slots shared between threads\<close>

text \<open>
  \<open>exclusively_owned U h\<close>: the slots in \<open>U\<close> are exactly those some thread holds, and no slot has two
  holders; \<open>h t\<close> is the slot thread \<open>t\<close> holds.
\<close>

definition exclusively_owned :: "'i set \<Rightarrow> ('t \<Rightarrow> 'i option) \<Rightarrow> bool" where
  "exclusively_owned U h \<longleftrightarrow>
     (\<forall>i. i \<in> U \<longleftrightarrow> (\<exists>t. h t = Some i)) \<and> (\<forall>t u i. h t = Some i \<and> h u = Some i \<longrightarrow> t = u)"

lemma owned_in: "exclusively_owned U h \<Longrightarrow> h t = Some i \<Longrightarrow> i \<in> U"
  by (auto simp: exclusively_owned_def)

lemma owned_unique: "exclusively_owned U h \<Longrightarrow> h t = Some i \<Longrightarrow> h u = Some i \<Longrightarrow> t = u"
  by (auto simp: exclusively_owned_def)

lemma owned_ex1: "exclusively_owned U h \<Longrightarrow> i \<in> U \<longleftrightarrow> (\<exists>!t. h t = Some i)"
  unfolding exclusively_owned_def by metis

lemma owned_empty: "exclusively_owned {} (\<lambda>_. None)"
  by (simp add: exclusively_owned_def)

lemma owned_claim:
  "exclusively_owned U h \<Longrightarrow> h t = None \<Longrightarrow> i \<notin> U \<Longrightarrow> exclusively_owned (insert i U) (h(t := Some i))"
  unfolding exclusively_owned_def by (auto split: if_splits) (metis option.distinct(1))+

lemma owned_release:
  "exclusively_owned U h \<Longrightarrow> h t = Some i \<Longrightarrow> exclusively_owned (U - {i}) (h(t := None))"
  unfolding exclusively_owned_def by (auto split: if_splits) (metis option.inject)+

lemma owned_transfer:
  "exclusively_owned U h \<Longrightarrow> h t = Some i \<Longrightarrow> h u = None \<Longrightarrow>
     exclusively_owned U (h(t := None, u := Some i))"
  using owned_claim [OF owned_release [of U h t i], of u i] owned_in [of U h t i]
  by (auto simp: insert_absorb)

section \<open>Lists\<close>

lemma nth_list_update_if: "i < length xs \<Longrightarrow> (xs[i := x]) ! j = (if i = j then x else xs ! j)"
  by (simp add: nth_list_update)

section \<open>Counting threads by program counter\<close>

lemma card_pc_update:
  fixes f :: "'t::finite \<Rightarrow> 'pc"
  shows "card {u. P ((f(t := x)) u)} + of_bool (P (f t)) = card {u. P (f u)} + of_bool (P x)"
proof -
  have "{u. P ((f(t := x)) u)} = (if P x then insert t ({u. P (f u)} - {t}) else {u. P (f u)} - {t})"
    by auto
  moreover have "card ({u. P (f u)} - {t}) = card {u. P (f u)} - of_bool (P (f t))"
    by (cases "P (f t)") auto
  moreover have "0 < card {u. P (f u)}" if "P (f t)" using that by (auto simp: card_gt_0_iff)
  ultimately show ?thesis by (auto simp: card.insert_remove)
qed

lemma if_swap_bool: "(\<lambda>u. if \<not> u then a else if u then b else c) = (\<lambda>u. if u then b else a)"
  by auto

lemma bool_fun_upd:
  "(\<lambda>t. if t then a else b)(True := c) = (\<lambda>t. if t then c else b)"
  "(\<lambda>t. if t then a else b)(False := c) = (\<lambda>t. if t then a else c)"
  "(\<lambda>t. a)(True := c) = (\<lambda>t. if t then c else a)"
  "(\<lambda>t. a)(False := c) = (\<lambda>t. if t then a else c)"
  by (auto simp: fun_eq_iff)

section \<open>Words\<close>

lemma unat_plus_no_wrap:
  fixes a b :: u64
  assumes "unat a + unat b < 2 ^ 64"
  shows "unat (a + b) = unat a + unat b"
  using assms by (simp add: unat_word_ariths)

lemma unat_of_nat_u64 [simp]: "n < 2 ^ 64 \<Longrightarrow> unat (of_nat n :: u64) = n"
  by (simp add: unat_of_nat take_bit_eq_mod)

lemma of_nat_u64_inject:
  "i < 2 ^ 64 \<Longrightarrow> j < 2 ^ 64 \<Longrightarrow> (of_nat i :: u64) = of_nat j \<longleftrightarrow> i = j"
  by (metis unat_of_nat_u64)

lemma unat_suc_less:
  fixes i n :: "'a::len word"
  assumes "i < n"
  shows "unat (i + 1) = Suc (unat i)"
  using assms
  by (metis (no_types, lifting) Suc_eq_plus1 add.commute add_0 inc_i inc_le
      unat_plus_simple unsigned_0 unsigned_1 word_gt_0)

lemma unat_pred:
  fixes i :: "'a::len word"
  assumes "i \<noteq> 0"
  shows "unat (i - 1) = unat i - 1"
  using assms unat_minus_one by blast

lemma unat_pred_less: "0 < unat (i :: u64) \<Longrightarrow> unat (i - 1) < unat i"
  using unat_minus_one [where 'a = 64] by (metis One_nat_def diff_less less_one unsigned_0 less_irrefl)

lemma sint_word_of_int_i32:
  "- 2147483648 \<le> k \<Longrightarrow> k < 2147483648 \<Longrightarrow> sint (word_of_int k :: i32) = k"
  by (simp add: sint_sbintrunc' signed_take_bit_int_eq_self)

lemma uint_u8_less: "uint (x :: u8) < 256"
  using uint_bounded [of x] by simp

lemma All_less_Suc2': "(\<forall>i<Suc n. P i) \<longleftrightarrow> P 0 \<and> (\<forall>i<n. P (Suc i))"
  by (metis less_Suc_eq_0_disj)

lemma unat_u64_less: "unat (n :: u64) < 18446744073709551616"
proof -
  have "unat n < 2 ^ LENGTH(64)" by (rule unsigned_less)
  then show ?thesis by simp
qed

lemma of_nat_less_u64: "k < unat n \<Longrightarrow> of_nat k < (n :: u64)"
  using unat_u64_less [of n] by (simp add: word_less_nat_alt)

lemma less_of_nat_u64: "k < of_nat l \<Longrightarrow> unat (k :: u64) < l"
  using take_bit_nat_less_eq_self [of 64 l] by (simp add: word_less_nat_alt unat_of_nat)

lemma cast_int_word_of_int: "cast_int r = word_of_int (sint r)"
proof -
  have "cast_int r = scast r" by (simp add: down_cast_same [symmetric] is_down)
  also have "\<dots> = word_of_int (sint r)" by (rule scast_eq)
  finally show ?thesis .
qed

lemma sint_cast_int:
  "- 2147483648 \<le> sint r \<Longrightarrow> sint r < 2147483648 \<Longrightarrow> sint (cast_int r) = sint r"
  unfolding cast_int_word_of_int by (rule sint_word_of_int_i32)

lemma sint_i32_bounds: "- 2147483648 \<le> sint (v :: i32)" "sint (v :: i32) < 2147483648"
  using sint_ge [of v] sint_lt [of v] by simp_all

lemma sint_i32_dec:
  assumes "0 < sint (v :: i32)"
  shows "sint (v - 1) = sint v - 1"
  using assms sint_word_of_int_i32 [of "sint v - 1"] sint_i32_bounds [of v] by simp

lemma sint_i32_inc_le: "sint (v + 1 :: i32) \<le> sint v + 1"
proof (cases "sint v = 2147483647")
  case True
  then show ?thesis using sint_i32_bounds(2) [of "v + 1"] by simp
next
  case False
  then show ?thesis
    using sint_word_of_int_i32 [of "sint v + 1"] sint_i32_bounds [of v] by simp
qed

lemma take_bit_small: "uint x < 2 ^ k \<Longrightarrow> take_bit k x = x"
  by (intro word_uint_eqI) (simp add: unsigned_take_bit_eq take_bit_int_eq_self)

lemma sint_of_nat_small: "n < 2147483648 \<Longrightarrow> sint (of_nat n :: i32) = int n"
  using sint_word_of_int_i32 [of "int n"] by simp

lemma uint_sint_nonneg: "0 \<le> sint (v :: i32) \<Longrightarrow> uint v = sint v"
proof -
  assume "0 \<le> sint v"
  moreover have "uint v = sint v mod 4294967296"
    using uint_word_of_int [of "sint v", where 'a = 32] by simp
  ultimately show ?thesis using sint_i32_bounds(2) [of v] by simp
qed

lemma bit_top_of_range:
  fixes v :: i32
  assumes "1073741824 \<le> sint v"
  shows "bit v 30"
proof -
  have "uint v div 1073741824 = 1"
    using assms sint_i32_bounds(2) [of v] by (simp add: uint_sint_nonneg)
  then have "bit (uint v) 30" by (simp add: bit_iff_odd)
  then show ?thesis by (simp add: bit_simps)
qed

lemma unat_sext_nonneg: "0 \<le> sint (v :: i32) \<Longrightarrow> unat (sext v) = nat (sint v)"
proof -
  assume "0 \<le> sint v"
  moreover have "sext v = of_nat (nat (sint v))"
    unfolding scast_eq using calculation by (simp only: of_nat_nat)
  moreover have "nat (sint v) < 2 ^ 64" using sint_i32_bounds(2) [of v] by simp
  ultimately show ?thesis by (simp only: unat_of_nat_u64)
qed

lemma sint_mult_i32:
  "0 \<le> sint (a :: i32) * sint b \<Longrightarrow> sint a * sint b < 2147483648 \<Longrightarrow> sint (a * b) = sint a * sint b"
  using sint_word_of_int_i32 [of "sint a * sint b"] by simp

lemma of_nat_nat_sint: "0 \<le> sint (v :: i32) \<Longrightarrow> of_nat (nat (sint v)) = v"
  using sint_of_nat_small [of "nat (sint v)"] sint_i32_bounds(2) [of v]
  by (metis int_nat_eq nat_less_iff signed_word_eqI of_nat_numeral)

end
