(* ===== verification/Neo_String.thy ===== *)
theory Neo_String
  imports Neo_Prelude "HOL-Library.List_Lexorder"
begin

text \<open>
  \<open>src/src/string.c\<close> over a byte memory \<open>mem = u64 \<Rightarrow> u8\<close>. Every loop of the source is a loop
  here, with its 64-bit counter. The copying loops end because their counter is bounded;
  \<open>strlen\<close> and \<open>strcmp\<close> scan for a NUL byte that may be missing, so they are partial:
  \<open>None\<close> means the scan never ends.
\<close>

section \<open>The functions of string.c\<close>

partial_function (option) strlen_loop :: "mem \<Rightarrow> addr \<Rightarrow> u64 \<Rightarrow> u64 option" where
  "strlen_loop m s n = (if m (s + n) \<noteq> 0 then strlen_loop m s (n + 1) else Some n)"

definition strlen :: "mem \<Rightarrow> addr \<Rightarrow> u64 option" where
  "strlen m s = strlen_loop m s 0"

function copy_up :: "addr \<Rightarrow> addr \<Rightarrow> u64 \<Rightarrow> u64 \<Rightarrow> mem \<Rightarrow> mem" where
  "copy_up d s i n m = (if i < n then copy_up d s (i + 1) n (m(d + i := m (s + i))) else m)"
  by pat_completeness auto
termination
  by (relation "measure (\<lambda>(d, s, i, n, m). unat n - unat i)")
    (auto simp: unat_suc_less word_less_nat_alt)

function copy_down :: "addr \<Rightarrow> addr \<Rightarrow> u64 \<Rightarrow> mem \<Rightarrow> mem" where
  "copy_down d s i m =
     (if 0 < i then copy_down d s (i - 1) (m(d + (i - 1) := m (s + (i - 1)))) else m)"
  by pat_completeness auto
termination
  by (relation "measure (\<lambda>(d, s, i, m). unat i)")
    (auto simp: unat_pred_less word_less_nat_alt)

definition memcpy :: "addr \<Rightarrow> addr \<Rightarrow> u64 \<Rightarrow> mem \<Rightarrow> addr \<times> mem" where
  "memcpy dst src n m = (dst, copy_up dst src 0 n m)"

function fill_up :: "addr \<Rightarrow> u8 \<Rightarrow> u64 \<Rightarrow> u64 \<Rightarrow> mem \<Rightarrow> mem" where
  "fill_up p c i n m = (if i < n then fill_up p c (i + 1) n (m(p + i := c)) else m)"
  by pat_completeness auto
termination
  by (relation "measure (\<lambda>(p, c, i, n, m). unat n - unat i)")
    (auto simp: unat_suc_less word_less_nat_alt)

definition memset :: "addr \<Rightarrow> i32 \<Rightarrow> u64 \<Rightarrow> mem \<Rightarrow> addr \<times> mem" where
  "memset s c n m = (s, fill_up s (ucast c) 0 n m)"

definition memmove :: "addr \<Rightarrow> addr \<Rightarrow> u64 \<Rightarrow> mem \<Rightarrow> addr \<times> mem" where
  "memmove dst src n m =
     (if dst < src then (dst, copy_up dst src 0 n m) else (dst, copy_down dst src n m))"

text \<open>\<open>(int)x - (int)y\<close> of two \<open>unsigned char\<close>s.\<close>

definition byte_diff :: "u8 \<Rightarrow> u8 \<Rightarrow> i32" where
  "byte_diff x y = ucast x - ucast y"

partial_function (option) strcmp :: "mem \<Rightarrow> addr \<Rightarrow> addr \<Rightarrow> i32 option" where
  "strcmp m x y =
     (if m x \<noteq> 0 \<and> m x = m y then strcmp m (x + 1) (y + 1) else Some (byte_diff (m x) (m y)))"

function strncmp_loop :: "mem \<Rightarrow> addr \<Rightarrow> addr \<Rightarrow> u64 \<Rightarrow> u64 \<Rightarrow> i32" where
  "strncmp_loop m x y i n =
     (if i < n then
        if m (x + i) \<noteq> m (y + i) then byte_diff (m (x + i)) (m (y + i))
        else if m (x + i) = 0 then 0
        else strncmp_loop m x y (i + 1) n
      else 0)"
  by pat_completeness auto
termination
  by (relation "measure (\<lambda>(m, x, y, i, n). unat n - unat i)")
    (auto simp: unat_suc_less word_less_nat_alt)

definition strncmp :: "mem \<Rightarrow> addr \<Rightarrow> addr \<Rightarrow> u64 \<Rightarrow> i32" where
  "strncmp m a b n = strncmp_loop m a b 0 n"

function memcmp_loop :: "mem \<Rightarrow> addr \<Rightarrow> addr \<Rightarrow> u64 \<Rightarrow> u64 \<Rightarrow> i32" where
  "memcmp_loop m x y i n =
     (if i < n then
        if m (x + i) \<noteq> m (y + i) then byte_diff (m (x + i)) (m (y + i))
        else memcmp_loop m x y (i + 1) n
      else 0)"
  by pat_completeness auto
termination
  by (relation "measure (\<lambda>(m, x, y, i, n). unat n - unat i)")
    (auto simp: unat_suc_less word_less_nat_alt)

definition memcmp :: "mem \<Rightarrow> addr \<Rightarrow> addr \<Rightarrow> u64 \<Rightarrow> i32" where
  "memcmp m a b n = memcmp_loop m a b 0 n"

declare copy_up.simps [simp del] copy_down.simps [simp del] fill_up.simps [simp del]
  strncmp_loop.simps [simp del] memcmp_loop.simps [simp del]

section \<open>Strings and byte ranges in memory\<close>

fun load_bytes :: "mem \<Rightarrow> addr \<Rightarrow> nat \<Rightarrow> u8 list" where
  "load_bytes m a 0 = []"
| "load_bytes m a (Suc n) = m a # load_bytes m (a + 1) n"

text \<open>\<open>cstring m a cs\<close>: the NUL-terminated string at \<open>a\<close> has the characters \<open>cs\<close>.\<close>

fun cstring :: "mem \<Rightarrow> addr \<Rightarrow> u8 list \<Rightarrow> bool" where
  "cstring m a [] \<longleftrightarrow> m a = 0"
| "cstring m a (c # cs) \<longleftrightarrow> c \<noteq> 0 \<and> m a = c \<and> cstring m (a + 1) cs"

lemma load_bytes_numeral [simp]:
  "load_bytes m a (numeral k) = m a # load_bytes m (a + 1) (pred_numeral k)"
  by (simp add: numeral_eq_Suc)

lemma load_bytes_nth: "i < n \<Longrightarrow> load_bytes m a n ! i = m (a + of_nat i)"
  by (induction n arbitrary: a i) (auto simp: nth_Cons algebra_simps split: nat.splits)

lemma length_load_bytes [simp]: "length (load_bytes m a n) = n"
  by (induction n arbitrary: a) auto

lemma cstring_nth:
  "cstring m a cs \<longleftrightarrow>
     (\<forall>i<length cs. cs ! i \<noteq> 0 \<and> m (a + of_nat i) = cs ! i) \<and> m (a + of_nat (length cs)) = 0"
proof (induction cs arbitrary: a)
  case Nil
  then show ?case by simp
next
  case (Cons c cs)
  show ?case
    by (auto simp: Cons.IH All_less_Suc2' algebra_simps)
qed

text \<open>Raw bytes at an address, and writing a run of bytes.\<close>

fun bytes_at :: "mem \<Rightarrow> addr \<Rightarrow> u8 list \<Rightarrow> bool" where
  "bytes_at m a [] \<longleftrightarrow> True"
| "bytes_at m a (c # cs) \<longleftrightarrow> m a = c \<and> bytes_at m (a + 1) cs"

fun store_bytes :: "mem \<Rightarrow> addr \<Rightarrow> u8 list \<Rightarrow> mem" where
  "store_bytes m a [] = m"
| "store_bytes m a (c # cs) = store_bytes (m(a := c)) (a + 1) cs"

lemma bytes_at_append [simp]:
  "bytes_at m a (xs @ ys) \<longleftrightarrow> bytes_at m a xs \<and> bytes_at m (a + of_nat (length xs)) ys"
  by (induction xs arbitrary: a) (auto simp: algebra_simps)

lemma bytes_at_nth: "bytes_at m a cs \<longleftrightarrow> (\<forall>i<length cs. m (a + of_nat i) = cs ! i)"
  by (induction cs arbitrary: a) (auto simp: All_less_Suc2' algebra_simps)

lemma store_bytes_append:
  "store_bytes m a (xs @ ys) = store_bytes (store_bytes m a xs) (a + of_nat (length xs)) ys"
  by (induction xs arbitrary: m a) (auto simp: algebra_simps)

lemma store_bytes_other:
  "(\<And>i. i < length cs \<Longrightarrow> x \<noteq> a + of_nat i) \<Longrightarrow> store_bytes m a cs x = m x"
proof (induction cs arbitrary: m a)
  case (Cons c cs)
  have "x \<noteq> a" using Cons.prems [of 0] by simp
  moreover have "store_bytes (m(a := c)) (a + 1) cs x = (m(a := c)) x"
    using Cons.prems [of "Suc _"] by (intro Cons.IH) (auto simp: algebra_simps)
  ultimately show ?case by simp
qed simp

lemma store_bytes_nth:
  "length cs \<le> 18446744073709551616 \<Longrightarrow> i < length cs \<Longrightarrow>
     store_bytes m a cs (a + of_nat i) = cs ! i"
proof (induction cs arbitrary: m a i)
  case (Cons c cs)
  show ?case
  proof (cases i)
    case 0
    have "store_bytes (m(a := c)) (a + 1) cs a = (m(a := c)) a"
    proof (rule store_bytes_other)
      fix j assume "j < length cs"
      with Cons.prems(1) have "(of_nat (Suc j) :: u64) \<noteq> of_nat 0"
        by (subst of_nat_u64_inject) auto
      then show "a \<noteq> a + 1 + of_nat j" by (auto simp: algebra_simps)
    qed
    with 0 show ?thesis by simp
  next
    case (Suc j)
    have "store_bytes (m(a := c)) (a + 1) cs (a + 1 + of_nat j) = cs ! j"
      using Cons.prems Suc by (intro Cons.IH) auto
    with Suc show ?thesis by (simp add: algebra_simps)
  qed
qed simp

lemma bytes_at_store:
  "length cs \<le> 18446744073709551616 \<Longrightarrow> bytes_at (store_bytes m a cs) a cs"
  by (simp add: bytes_at_nth store_bytes_nth)

lemma cstring_bytes_at: "cstring m a cs \<longleftrightarrow> 0 \<notin> set cs \<and> bytes_at m a (cs @ [0])"
  by (induction cs arbitrary: a) auto

section \<open>Copying\<close>

lemma suc_le_imp_less: "i < n \<Longrightarrow> i + 1 \<le> k \<Longrightarrow> i < (k :: u64)"
  by (metis interval_class.inc_less_eq_imp_less)

lemma copy_up_other:
  "(\<And>k. i \<le> k \<Longrightarrow> k < n \<Longrightarrow> a \<noteq> d + k) \<Longrightarrow> copy_up d s i n m a = m a"
proof (induction d s i n m rule: copy_up.induct)
  case (1 d s i n m)
  show ?case
  proof (cases "i < n")
    case True
    with 1 show ?thesis
      by (auto simp: copy_up.simps [of d s i n m] fun_upd_def less_imp_le suc_le_imp_less)
  qed (simp add: copy_up.simps [of d s i n m])
qed

text \<open>
  A forward copy is right when no read comes after a write to the same address, that is, when
  no byte is read that an earlier round of the loop has overwritten.
\<close>

lemma copy_up_copies:
  assumes "\<And>j k. i \<le> j \<Longrightarrow> j < k \<Longrightarrow> k < n \<Longrightarrow> s + k \<noteq> d + j" and "i \<le> k" and "k < n"
  shows "copy_up d s i n m (d + k) = m (s + k)"
  using assms
proof (induction d s i n m rule: copy_up.induct)
  case (1 d s i n m)
  let ?m = "m(d + i := m (s + i))"
  have less: "i < n" using "1.prems" by auto
  have unfold: "copy_up d s i n m = copy_up d s (i + 1) n ?m"
    using less by (simp add: copy_up.simps [of d s i n m])
  show ?case
  proof (cases "k = i")
    case True
    have "copy_up d s (i + 1) n ?m (d + i) = ?m (d + i)"
      by (rule copy_up_other) (use less suc_le_imp_less in auto)
    with True unfold show ?thesis by simp
  next
    case False
    with "1.prems" have ik: "i < k" by simp
    have "copy_up d s (i + 1) n ?m (d + k) = ?m (s + k)"
    proof (rule "1.IH" [OF less])
      show "\<And>j k. i + 1 \<le> j \<Longrightarrow> j < k \<Longrightarrow> k < n \<Longrightarrow> s + k \<noteq> d + j"
        using "1.prems"(1) less suc_le_imp_less less_imp_le by blast
    qed (use ik "1.prems" inc_le in auto)
    also have "\<dots> = m (s + k)" using "1.prems"(1) [of i k] ik "1.prems"(3) by auto
    finally show ?thesis using unfold by simp
  qed
qed

lemma copy_down_other: "(\<And>k. k < i \<Longrightarrow> a \<noteq> d + k) \<Longrightarrow> copy_down d s i m a = m a"
proof (induction d s i m rule: copy_down.induct)
  case (1 d s i m)
  show ?case
  proof (cases "0 < i")
    case True
    then have "i - 1 < i" by (simp add: unat_pred_less word_less_nat_alt)
    with True 1 show ?thesis
      by (auto simp: copy_down.simps [of d s i m] fun_upd_def dest: less_trans)
  qed (simp add: copy_down.simps [of d s i m])
qed

lemma copy_down_copies:
  assumes "\<And>j k. k < j \<Longrightarrow> j < i \<Longrightarrow> s + k \<noteq> d + j" and "k < i"
  shows "copy_down d s i m (d + k) = m (s + k)"
  using assms
proof (induction d s i m rule: copy_down.induct)
  case (1 d s i m)
  let ?m = "m(d + (i - 1) := m (s + (i - 1)))"
  have pos: "0 < i" using "1.prems" by (auto simp: word_gt_0)
  have less: "i - 1 < i" using pos by (simp add: unat_pred_less word_less_nat_alt)
  have unfold: "copy_down d s i m = copy_down d s (i - 1) ?m"
    using pos by (simp add: copy_down.simps [of d s i m])
  show ?case
  proof (cases "k = i - 1")
    case True
    have "copy_down d s (i - 1) ?m (d + k) = ?m (d + k)"
      by (rule copy_down_other) (use True in auto)
    with True unfold show ?thesis by simp
  next
    case False
    with "1.prems"(2) have ki: "k < i - 1"
      using less_imp_less_eq_dec by fastforce
    have "copy_down d s (i - 1) ?m (d + k) = ?m (s + k)"
      by (rule "1.IH" [OF pos]) (use less "1.prems" ki in \<open>auto dest: less_trans\<close>)
    also have "\<dots> = m (s + k)" using "1.prems"(1) [OF ki less] by auto
    finally show ?thesis using unfold by simp
  qed
qed

lemma fill_up_spec:
  "fill_up p c i n m a = (if \<exists>k. i \<le> k \<and> k < n \<and> a = p + k then c else m a)"
proof (induction p c i n m rule: fill_up.induct)
  case (1 p c i n m)
  show ?case
  proof (cases "i < n")
    case True
    then have "(\<exists>k. i \<le> k \<and> k < n \<and> a = p + k) \<longleftrightarrow>
        a = p + i \<or> (\<exists>k. i + 1 \<le> k \<and> k < n \<and> a = p + k)"
      by (metis inc_le le_less suc_le_imp_less)
    with True 1 show ?thesis by (auto simp: fill_up.simps [of p c i n m] fun_upd_def)
  qed (auto simp: fill_up.simps [of p c i n m])
qed

text \<open>
  Address ranges of the C abstract machine do not wrap around the address space: an object of
  \<open>n\<close> bytes at \<open>a\<close> ends at or below \<open>2 ^ 64\<close>.
\<close>

definition object_at :: "addr \<Rightarrow> u64 \<Rightarrow> bool" where
  "object_at a n \<longleftrightarrow> unat a + unat n \<le> 2 ^ 64"

lemma object_at_offset:
  "object_at a n \<Longrightarrow> k < n \<Longrightarrow> unat (a + k) = unat a + unat k"
  by (simp add: object_at_def unat_plus_no_wrap word_less_nat_alt)

lemma load_bytes_eqI:
  "(\<And>k. k < n \<Longrightarrow> m (a + k) = m' (b + k)) \<Longrightarrow> load_bytes m a (unat n) = load_bytes m' b (unat n)"
  by (rule nth_equalityI) (auto simp: load_bytes_nth of_nat_less_u64)

lemma memmove_bytes:
  assumes "object_at dst n" and "object_at src n" and "k < n"
  shows "snd (memmove dst src n m) (dst + k) = m (src + k)"
proof (cases "dst < src")
  case True
  have "src + q \<noteq> dst + j" if "j < q" "q < n" for j q
  proof -
    have "unat (dst + j) < unat (src + q)"
      using object_at_offset [OF assms(1), of j] object_at_offset [OF assms(2), of q] that True
      by (simp add: word_less_nat_alt)
    then show ?thesis by auto
  qed
  then show ?thesis using True assms(3)
    by (auto simp: memmove_def intro!: copy_up_copies)
next
  case False
  have "src + q \<noteq> dst + j" if "q < j" "j < n" for j q
  proof -
    have "unat (src + q) < unat (dst + j)"
      using object_at_offset [OF assms(1), of j] object_at_offset [OF assms(2), of q] that False
      by (simp add: word_less_nat_alt)
    then show ?thesis by auto
  qed
  then show ?thesis using False assms(3)
    by (auto simp: memmove_def intro!: copy_down_copies)
qed

lemma memmove_frame: "(\<And>k. k < n \<Longrightarrow> a \<noteq> dst + k) \<Longrightarrow> snd (memmove dst src n m) a = m a"
  by (auto simp: memmove_def copy_up_other copy_down_other)

lemma memcpy_bytes:
  assumes "object_at dst n" and "object_at src n"
    and "dst < src \<or> unat src + unat n \<le> unat dst" and "k < n"
  shows "snd (memcpy dst src n m) (dst + k) = m (src + k)"
proof -
  have "src + q \<noteq> dst + j" if "j < q" "q < n" for j q
  proof -
    have "unat (dst + j) \<noteq> unat (src + q)"
      using object_at_offset [OF assms(1), of j] object_at_offset [OF assms(2), of q] that assms(3)
      by (auto simp: word_less_nat_alt)
    then show ?thesis by auto
  qed
  then show ?thesis using assms(4)
    by (auto simp: memcpy_def intro!: copy_up_copies)
qed

lemma memcpy_frame: "(\<And>k. k < n \<Longrightarrow> a \<noteq> dst + k) \<Longrightarrow> snd (memcpy dst src n m) a = m a"
  by (auto simp: memcpy_def copy_up_other)

text \<open>
  C3. \<open>memmove\<close> moves its source bytes intact however the two ranges overlap, and writes nothing
  outside the destination range: choosing the direction by comparing the two addresses is right.
\<close>

theorem memmove_correct:
  assumes "object_at dst n" and "object_at src n"
  shows "load_bytes (snd (memmove dst src n m)) dst (unat n) = load_bytes m src (unat n) \<and>
         (\<forall>a. (\<forall>k<n. a \<noteq> dst + k) \<longrightarrow> snd (memmove dst src n m) a = m a)"
  using memmove_bytes [OF assms] by (auto intro: load_bytes_eqI memmove_frame)

theorem memmove_correct_witness:
  "load_bytes (snd (memmove 11 10 3 (\<lambda>a. ucast a))) 11 3 = [10, 11, 12]"
  using memmove_correct [of 11 3 10 "\<lambda>a. ucast a"]
  by (simp add: object_at_def)

text \<open>
  C33. \<open>memcpy\<close> copies exactly its source bytes into the destination range and writes nothing
  else, for ranges that do not overlap and for a destination below its source; \<open>memset\<close> fills
  exactly its range with the low byte of its argument. Both return the destination.
\<close>

theorem memcpy_memset_correct:
  assumes "object_at dst n" and "object_at src n"
    and "dst < src \<or> unat src + unat n \<le> unat dst"
  shows "fst (memcpy dst src n m) = dst \<and> fst (memset dst c n m) = dst \<and>
         load_bytes (snd (memcpy dst src n m)) dst (unat n) = load_bytes m src (unat n) \<and>
         (\<forall>a. (\<forall>k<n. a \<noteq> dst + k) \<longrightarrow> snd (memcpy dst src n m) a = m a) \<and>
         (\<forall>a. snd (memset dst c n m) a = (if \<exists>k<n. a = dst + k then ucast c else m a))"
proof (intro conjI)
  show "load_bytes (snd (memcpy dst src n m)) dst (unat n) = load_bytes m src (unat n)"
    by (rule load_bytes_eqI) (rule memcpy_bytes [OF assms])
qed (auto simp: memset_def fill_up_spec memcpy_def intro!: memcpy_frame [unfolded memcpy_def snd_conv])

theorem memcpy_memset_correct_witness:
  "load_bytes (snd (memcpy 20 10 3 (\<lambda>a. ucast a))) 20 3 = [10, 11, 12]"
  using memcpy_memset_correct [of 20 3 10 "\<lambda>a. ucast a"]
  by (simp add: object_at_def)

section \<open>Scanning and comparing strings\<close>

lemma strlen_loop_ends:
  assumes "strlen_loop m s i = Some r"
  shows "m (s + r) = 0"
  by (rule strlen_loop.raw_induct [where P = "\<lambda>m s i r. m (s + r) = 0", OF _ assms])
    (auto split: if_splits)

lemma strlen_loop_step: "m (s + n) \<noteq> 0 \<Longrightarrow> strlen_loop m s n = strlen_loop m s (n + 1)"
  by (subst strlen_loop.simps) simp

lemma strlen_loop_stop: "m (s + n) = 0 \<Longrightarrow> strlen_loop m s n = Some n"
  by (subst strlen_loop.simps) simp

lemma strlen_loop_scan:
  "(\<forall>j<k. m (s + (n + of_nat j)) \<noteq> 0) \<Longrightarrow> m (s + (n + of_nat k)) = 0 \<Longrightarrow>
     strlen_loop m s n = Some (n + of_nat k)"
proof (induction k arbitrary: n)
  case 0
  then show ?case by (simp add: strlen_loop_stop)
next
  case (Suc k)
  then have "m (s + n) \<noteq> 0" using Suc.prems(1) [rule_format, of 0] by simp
  then have "strlen_loop m s n = strlen_loop m s (n + 1)" by (rule strlen_loop_step)
  also have "\<dots> = Some (n + 1 + of_nat k)"
    using Suc.prems by (intro Suc.IH) (auto simp: All_less_Suc2' algebra_simps)
  finally show ?case by (simp add: algebra_simps)
qed

fun str_diff :: "u8 list \<Rightarrow> u8 list \<Rightarrow> i32" where
  "str_diff [] [] = 0"
| "str_diff [] (d # ds) = byte_diff 0 d"
| "str_diff (c # cs) [] = byte_diff c 0"
| "str_diff (c # cs) (d # ds) = (if c = d then str_diff cs ds else byte_diff c d)"

lemma sint_byte_diff: "sint (byte_diff x y) = uint x - uint y"
proof -
  have eq: "byte_diff x y = word_of_int (uint x - uint y)"
    by (simp only: byte_diff_def ucast_eq wi_hom_sub)
  have lo: "- 2147483648 \<le> uint x - uint y" and hi: "uint x - uint y < 2147483648"
    using uint_u8_less [of x] uint_u8_less [of y] uint_ge_0 [of x] uint_ge_0 [of y] by linarith+
  from sint_word_of_int_i32 [OF lo hi] show ?thesis unfolding eq .
qed

lemma byte_diff_sign:
  "(sint (byte_diff x y) < 0 \<longleftrightarrow> x < y) \<and> (byte_diff x y = 0 \<longleftrightarrow> x = y)"
proof
  show "sint (byte_diff x y) < 0 \<longleftrightarrow> x < y"
    by (simp add: sint_byte_diff word_less_alt)
  have "byte_diff x y = 0 \<longleftrightarrow> sint (byte_diff x y) = 0" by (simp add: signed_eq_0_iff)
  then show "byte_diff x y = 0 \<longleftrightarrow> x = y" by (simp add: sint_byte_diff word_uint_eq_iff)
qed

lemma str_diff_sign:
  "0 \<notin> set cs \<Longrightarrow> 0 \<notin> set ds \<Longrightarrow>
     (sint (str_diff cs ds) < 0 \<longleftrightarrow> cs < ds) \<and> (str_diff cs ds = 0 \<longleftrightarrow> cs = ds)"
proof (induction cs ds rule: str_diff.induct)
  case (4 c cs d ds)
  then show ?case using byte_diff_sign [of c d] by auto
qed (use byte_diff_sign in \<open>auto simp: word_gt_0\<close>)

lemma str_diff_sign_same_length:
  "length cs = length ds \<Longrightarrow>
     (sint (str_diff cs ds) < 0 \<longleftrightarrow> cs < ds) \<and> (str_diff cs ds = 0 \<longleftrightarrow> cs = ds)"
proof (induction cs ds rule: str_diff.induct)
  case (4 c cs d ds)
  then show ?case using byte_diff_sign [of c d] by auto
qed auto

lemma cstring_no_nul: "cstring m a cs \<Longrightarrow> 0 \<notin> set cs"
  by (induction cs arbitrary: a) auto

lemma strcmp_str_diff:
  "cstring m a cs \<Longrightarrow> cstring m b ds \<Longrightarrow> strcmp m a b = Some (str_diff cs ds)"
proof (induction cs ds arbitrary: a b rule: str_diff.induct)
  case (4 c cs d ds)
  then show ?case by (subst strcmp.simps) auto
qed (subst strcmp.simps, auto simp: byte_diff_def)+

lemma unat_diff_Suc:
  "i < n \<Longrightarrow> unat n - unat i = Suc (unat n - unat (i + 1))" for i n :: u64
  using unat_suc_less [of i n] by (simp add: word_less_nat_alt)

lemma strncmp_loop_str_diff:
  "cstring m (a + i) cs \<Longrightarrow> cstring m (b + i) ds \<Longrightarrow>
     strncmp_loop m a b i n = str_diff (take (unat n - unat i) cs) (take (unat n - unat i) ds)"
proof (induction m a b i n arbitrary: cs ds rule: strncmp_loop.induct)
  case (1 m a b i n)
  show ?case
  proof (cases "i < n")
    case True
    with 1 show ?thesis
      by (cases cs; cases ds)
        (auto simp: strncmp_loop.simps [of m a b i n] unat_diff_Suc byte_diff_def algebra_simps)
  next
    case False
    then show ?thesis by (simp add: strncmp_loop.simps [of m a b i n] word_less_nat_alt)
  qed
qed

lemma memcmp_loop_str_diff:
  "memcmp_loop m a b i n =
     str_diff (load_bytes m (a + i) (unat n - unat i)) (load_bytes m (b + i) (unat n - unat i))"
proof (induction m a b i n rule: memcmp_loop.induct)
  case (1 m a b i n)
  show ?case
  proof (cases "i < n")
    case True
    with 1 show ?thesis
      by (auto simp: memcmp_loop.simps [of m a b i n] unat_diff_Suc algebra_simps)
  next
    case False
    then show ?thesis by (simp add: memcmp_loop.simps [of m a b i n] word_less_nat_alt)
  qed
qed

lemma strlen_first_nul:
  "m (s + n) = 0 \<Longrightarrow> (\<forall>k<n. m (s + k) \<noteq> 0) \<Longrightarrow> strlen m s = Some n"
  using strlen_loop_scan [of "unat n" m s 0] by (auto simp: strlen_def of_nat_less_u64)

lemma nul_has_first:
  fixes m :: mem
  assumes "m a = 0"
  obtains n where "m (s + n) = 0" and "\<forall>k<n. m (s + k) \<noteq> 0"
proof -
  have "\<exists>n. m (s + of_nat n) = 0"
    using assms by (metis add_diff_cancel_left' add_diff_eq word_nat_cases)
  then have least: "m (s + of_nat (LEAST n. m (s + of_nat n) = 0)) = 0" (is "m (s + of_nat ?l) = 0")
    by (rule LeastI_ex)
  have "m (s + k) \<noteq> 0" if "k < of_nat ?l" for k
  proof -
    have "unat k < ?l"
      using that by (rule less_of_nat_u64)
    then show ?thesis using not_less_Least by fastforce
  qed
  with least that show thesis by blast
qed

lemma strlen_cstring: "cstring m s cs \<Longrightarrow> strlen m s = Some (of_nat (length cs))"
  using strlen_loop_scan [of "length cs" m s 0] by (auto simp: strlen_def cstring_nth)

text \<open>
  C34. \<open>strlen\<close> returns exactly the offset of the first NUL byte, and it returns if and only if
  memory holds a NUL byte at all.
\<close>

theorem strlen_correct:
  "(strlen m s = Some n \<longleftrightarrow> m (s + n) = 0 \<and> (\<forall>k. k < n \<longrightarrow> m (s + k) \<noteq> 0)) \<and>
   ((\<exists>n. strlen m s = Some n) \<longleftrightarrow> (\<exists>a. m a = 0))"
proof (cases "\<exists>a. m a = 0")
  case True
  then obtain f where f: "m (s + f) = 0" "\<forall>k<f. m (s + k) \<noteq> 0" by (metis nul_has_first)
  then have "strlen m s = Some f" by (rule strlen_first_nul)
  with f True show ?thesis by (metis linorder_neqE option.inject)
next
  case False
  have "\<nexists>n. strlen m s = Some n"
  proof
    assume "\<exists>n. strlen m s = Some n"
    then obtain n where "strlen_loop m s 0 = Some n" by (auto simp: strlen_def)
    then have "m (s + n) = 0"
      by (rule strlen_loop_ends)
    with False show False by blast
  qed
  with False show ?thesis by auto
qed

theorem strlen_correct_witness:
  "strlen (\<lambda>a. if a = 2 then 0 else 65) 0 = Some 2"
proof -
  have "k = 0 \<or> k = 1" if "k < 2" for k :: u64 using that by unat_arith
  then have "(\<forall>k. k < (2 :: u64) \<longrightarrow> (if 0 + k = 2 then 0 else 65 :: u8) \<noteq> 0)" by auto
  then show ?thesis using strlen_correct [of "\<lambda>a. if a = 2 then 0 else 65" 0 2] by simp
qed

lemma strcmp_lexicographic:
  assumes "cstring m a cs" and "cstring m b ds"
  shows "\<exists>r. strcmp m a b = Some r \<and> (r <s 0 \<longleftrightarrow> cs < ds) \<and> (r = 0 \<longleftrightarrow> cs = ds)"
  using str_diff_sign [OF cstring_no_nul [OF assms(1)] cstring_no_nul [OF assms(2)]]
  by (simp add: strcmp_str_diff [OF assms] word_sless_alt)

text \<open>
  C35. The comparisons are lexicographic by unsigned byte. \<open>strcmp\<close> returns, and its result is negative exactly when the
  first string is smaller and zero exactly when they are equal; \<open>strncmp\<close> so compares the first \<open>n\<close>
  characters of two strings, and \<open>memcmp\<close> two ranges of \<open>n\<close> bytes.
\<close>

theorem comparisons_lexicographic:
  assumes "cstring m a cs" and "cstring m b ds"
  shows "(\<exists>r. strcmp m a b = Some r \<and> (r <s 0 \<longleftrightarrow> cs < ds) \<and> (r = 0 \<longleftrightarrow> cs = ds)) \<and>
         (strncmp m a b n <s 0 \<longleftrightarrow> take (unat n) cs < take (unat n) ds) \<and>
         (strncmp m a b n = 0 \<longleftrightarrow> take (unat n) cs = take (unat n) ds) \<and>
         (memcmp m a b n <s 0 \<longleftrightarrow> load_bytes m a (unat n) < load_bytes m b (unat n)) \<and>
         (memcmp m a b n = 0 \<longleftrightarrow> load_bytes m a (unat n) = load_bytes m b (unat n))"
proof -
  have "strncmp m a b n = str_diff (take (unat n) cs) (take (unat n) ds)"
    using strncmp_loop_str_diff [of m a 0 cs b ds n] assms by (simp add: strncmp_def)
  moreover have "memcmp m a b n = str_diff (load_bytes m a (unat n)) (load_bytes m b (unat n))"
    using memcmp_loop_str_diff [of m a b 0 n] by (simp add: memcmp_def)
  moreover have "0 \<notin> set (take (unat n) cs)" "0 \<notin> set (take (unat n) ds)"
    using assms cstring_no_nul by (auto dest: in_set_takeD)
  ultimately show ?thesis
    using strcmp_lexicographic [OF assms] str_diff_sign [of "take (unat n) cs" "take (unat n) ds"]
      str_diff_sign_same_length [of "load_bytes m a (unat n)" "load_bytes m b (unat n)"]
    by (simp add: word_sless_alt)
qed

theorem comparisons_lexicographic_witness:
  "strncmp (\<lambda>a. if a = 0 then 7 else if a = 8 then 200 else 0) 0 8 4 <s 0 \<and>
   (\<exists>r. strcmp (\<lambda>a. if a = 0 then 7 else if a = 8 then 200 else 0) 0 8 = Some r \<and> r <s 0)"
  using comparisons_lexicographic [of "\<lambda>a. if a = 0 then 7 else if a = 8 then 200 else 0" 0 "[7]" 8 "[200]" 4]
  by auto

end
