(* ===== verification/Neo_Kernel.thy ===== *)
theory Neo_Kernel
  imports Neo_String
begin

text \<open>
  The boundary to the kernel: \<open>include/errno.h\<close> and the \<open>syscall0\<close> .. \<open>__neoos_syscall6\<close>
  helpers of \<open>src/syscall.c\<close>. The kernel is not part of the library; it is a parameter
  \<open>K\<close> of every definition that enters it: a function from the registers at the \<open>syscall\<close>
  instruction and the machine (user memory and a kernel state of any type) to the value left in
  \<open>rax\<close> and the new machine.

  A helper that takes three arguments sets three registers. The others keep what they held
  before, which the C source does not determine: such a register is \<open>None\<close> in the frame.
\<close>

section \<open>Error numbers (include/errno.h)\<close>

abbreviation (input) EPERM :: i32 where "EPERM \<equiv> 1"
abbreviation (input) ENOENT :: i32 where "ENOENT \<equiv> 2"
abbreviation (input) ESRCH :: i32 where "ESRCH \<equiv> 3"
abbreviation (input) EINTR :: i32 where "EINTR \<equiv> 4"
abbreviation (input) EBADF :: i32 where "EBADF \<equiv> 9"
abbreviation (input) EAGAIN :: i32 where "EAGAIN \<equiv> 11"
abbreviation (input) EBUSY :: i32 where "EBUSY \<equiv> 16"
abbreviation (input) EINVAL :: i32 where "EINVAL \<equiv> 22"
abbreviation (input) ETIMEDOUT :: i32 where "ETIMEDOUT \<equiv> 110"

section \<open>Registers at the syscall instruction\<close>

record sysframe =
  rax :: u64
  rdi :: "u64 option"
  rsi :: "u64 option"
  rdx :: "u64 option"
  r10 :: "u64 option"
  r8 :: "u64 option"
  r9 :: "u64 option"

record 'k machine =
  memory :: mem
  kstate :: 'k

type_synonym 'k kernel = "sysframe \<Rightarrow> 'k machine \<Rightarrow> u64 \<times> 'k machine"

definition frame0 :: "i64 \<Rightarrow> sysframe" where
  "frame0 num = \<lparr>rax = num, rdi = None, rsi = None, rdx = None, r10 = None, r8 = None, r9 = None\<rparr>"

section \<open>The entry helpers of syscall.c\<close>

definition syscall0 :: "'k kernel \<Rightarrow> i64 \<Rightarrow> 'k machine \<Rightarrow> i64 \<times> 'k machine" where
  "syscall0 K num = K (frame0 num)"

definition syscall1 :: "'k kernel \<Rightarrow> i64 \<Rightarrow> i64 \<Rightarrow> 'k machine \<Rightarrow> i64 \<times> 'k machine" where
  "syscall1 K num a1 = K ((frame0 num)\<lparr>rdi := Some a1\<rparr>)"

definition syscall2 :: "'k kernel \<Rightarrow> i64 \<Rightarrow> i64 \<Rightarrow> i64 \<Rightarrow> 'k machine \<Rightarrow> i64 \<times> 'k machine" where
  "syscall2 K num a1 a2 = K ((frame0 num)\<lparr>rdi := Some a1, rsi := Some a2\<rparr>)"

definition syscall3 ::
  "'k kernel \<Rightarrow> i64 \<Rightarrow> i64 \<Rightarrow> i64 \<Rightarrow> i64 \<Rightarrow> 'k machine \<Rightarrow> i64 \<times> 'k machine" where
  "syscall3 K num a1 a2 a3 =
     K ((frame0 num)\<lparr>rdi := Some a1, rsi := Some a2, rdx := Some a3\<rparr>)"

definition syscall4 ::
  "'k kernel \<Rightarrow> i64 \<Rightarrow> i64 \<Rightarrow> i64 \<Rightarrow> i64 \<Rightarrow> i64 \<Rightarrow> 'k machine \<Rightarrow> i64 \<times> 'k machine" where
  "syscall4 K num a1 a2 a3 a4 =
     K ((frame0 num)\<lparr>rdi := Some a1, rsi := Some a2, rdx := Some a3, r10 := Some a4\<rparr>)"

definition neoos_syscall6 ::
  "'k kernel \<Rightarrow> i64 \<Rightarrow> i64 \<Rightarrow> i64 \<Rightarrow> i64 \<Rightarrow> i64 \<Rightarrow> i64 \<Rightarrow> i64 \<Rightarrow> 'k machine \<Rightarrow>
     i64 \<times> 'k machine" where
  "neoos_syscall6 K n a b c d e f =
     K ((frame0 n)\<lparr>rdi := Some a, rsi := Some b, rdx := Some c, r10 := Some d, r8 := Some e,
                   r9 := Some f\<rparr>)"

definition neoos_syscall3 ::
  "'k kernel \<Rightarrow> i64 \<Rightarrow> i64 \<Rightarrow> i64 \<Rightarrow> i64 \<Rightarrow> 'k machine \<Rightarrow> i64 \<times> 'k machine" where
  "neoos_syscall3 K n a b c = syscall3 K n a b c"

definition neoos_syscall4 ::
  "'k kernel \<Rightarrow> i64 \<Rightarrow> i64 \<Rightarrow> i64 \<Rightarrow> i64 \<Rightarrow> i64 \<Rightarrow> 'k machine \<Rightarrow> i64 \<times> 'k machine" where
  "neoos_syscall4 K n a b c d = syscall4 K n a b c d"

lemmas syscall_entry_defs = frame0_def syscall0_def syscall1_def syscall2_def syscall3_def
  syscall4_def neoos_syscall6_def neoos_syscall3_def neoos_syscall4_def

declare syscall_entry_defs [wrapper_defs]

text \<open>\<open>ret_int\<close> is the \<open>(int)\<close> cast a wrapper puts on the value of its system call.\<close>

abbreviation ret_int :: "i64 \<times> 'k machine \<Rightarrow> i32 \<times> 'k machine" where
  "ret_int \<equiv> map_prod cast_int id"

text \<open>
  A wrapper that takes a path passes the pointer and \<open>strlen(path)\<close>. The scan may not end, so
  such a wrapper returns \<open>None\<close> when it does not return.
\<close>

definition with_strlen ::
  "addr \<Rightarrow> (u64 \<Rightarrow> 'k machine \<Rightarrow> 'a) \<Rightarrow> 'k machine \<Rightarrow> 'a option" where
  "with_strlen path f s = map_option (\<lambda>len. f len s) (strlen (memory s) path)"

lemma with_strlen_cstring:
  "cstring (memory s) path cs \<Longrightarrow> with_strlen path f s = Some (f (of_nat (length cs)) s)"
  by (simp add: with_strlen_def strlen_cstring)

end
