(* ===== verification/Neo_Syscall.thy ===== *)
theory Neo_Syscall
  imports Neo_Kernel
begin

text \<open>
  The system call wrappers of \<open>src/syscall.c\<close>, one definition per function, in the order of the
  file. \<open>exit\<close>, \<open>exit_group\<close> and \<open>__sys_thread_exit\<close> do not return: their definitions give the
  machine as the kernel leaves it.
\<close>

section \<open>System call numbers\<close>

abbreviation (input) SYS_EXIT :: i64 where "SYS_EXIT \<equiv> 0"
abbreviation (input) SYS_WRITE :: i64 where "SYS_WRITE \<equiv> 1"
abbreviation (input) SYS_YIELD :: i64 where "SYS_YIELD \<equiv> 2"
abbreviation (input) SYS_GETPID :: i64 where "SYS_GETPID \<equiv> 3"
abbreviation (input) SYS_SPAWN :: i64 where "SYS_SPAWN \<equiv> 4"
abbreviation (input) SYS_WAIT :: i64 where "SYS_WAIT \<equiv> 5"
abbreviation (input) SYS_READ :: i64 where "SYS_READ \<equiv> 6"
abbreviation (input) SYS_OPEN :: i64 where "SYS_OPEN \<equiv> 7"
abbreviation (input) SYS_CLOSE :: i64 where "SYS_CLOSE \<equiv> 8"
abbreviation (input) SYS_MKDIR :: i64 where "SYS_MKDIR \<equiv> 9"
abbreviation (input) SYS_UNLINK :: i64 where "SYS_UNLINK \<equiv> 10"
abbreviation (input) SYS_LSEEK :: i64 where "SYS_LSEEK \<equiv> 11"
abbreviation (input) SYS_FORK :: i64 where "SYS_FORK \<equiv> 12"
abbreviation (input) SYS_EXEC :: i64 where "SYS_EXEC \<equiv> 13"
abbreviation (input) SYS_MOUNT :: i64 where "SYS_MOUNT \<equiv> 14"
abbreviation (input) SYS_UMOUNT :: i64 where "SYS_UMOUNT \<equiv> 15"
abbreviation (input) SYS_GETDENTS :: i64 where "SYS_GETDENTS \<equiv> 16"
abbreviation (input) SYS_THREAD_CREATE :: i64 where "SYS_THREAD_CREATE \<equiv> 17"
abbreviation (input) SYS_THREAD_EXIT :: i64 where "SYS_THREAD_EXIT \<equiv> 18"
abbreviation (input) SYS_THREAD_JOIN :: i64 where "SYS_THREAD_JOIN \<equiv> 19"
abbreviation (input) SYS_THREAD_SELF :: i64 where "SYS_THREAD_SELF \<equiv> 20"
abbreviation (input) SYS_RT_SIGACTION :: i64 where "SYS_RT_SIGACTION \<equiv> 21"
abbreviation (input) SYS_RT_SIGPROCMASK :: i64 where "SYS_RT_SIGPROCMASK \<equiv> 22"
abbreviation (input) SYS_RT_SIGPENDING :: i64 where "SYS_RT_SIGPENDING \<equiv> 24"
abbreviation (input) SYS_RT_SIGSUSPEND :: i64 where "SYS_RT_SIGSUSPEND \<equiv> 25"
abbreviation (input) SYS_SIGALTSTACK :: i64 where "SYS_SIGALTSTACK \<equiv> 28"
abbreviation (input) SYS_KILL :: i64 where "SYS_KILL \<equiv> 29"
abbreviation (input) SYS_TKILL :: i64 where "SYS_TKILL \<equiv> 30"
abbreviation (input) SYS_TGKILL :: i64 where "SYS_TGKILL \<equiv> 31"
abbreviation (input) SYS_WAIT4 :: i64 where "SYS_WAIT4 \<equiv> 32"
abbreviation (input) SYS_SETPGID :: i64 where "SYS_SETPGID \<equiv> 33"
abbreviation (input) SYS_GETPGID :: i64 where "SYS_GETPGID \<equiv> 34"
abbreviation (input) SYS_SETSID :: i64 where "SYS_SETSID \<equiv> 35"
abbreviation (input) SYS_GETSID :: i64 where "SYS_GETSID \<equiv> 36"
abbreviation (input) SYS_MMAP :: i64 where "SYS_MMAP \<equiv> 37"
abbreviation (input) SYS_MUNMAP :: i64 where "SYS_MUNMAP \<equiv> 38"
abbreviation (input) SYS_MPROTECT :: i64 where "SYS_MPROTECT \<equiv> 39"
abbreviation (input) SYS_CPU_COUNT :: i64 where "SYS_CPU_COUNT \<equiv> 40"
abbreviation (input) SYS_GETCPU :: i64 where "SYS_GETCPU \<equiv> 41"
abbreviation (input) SYS_FUTEX :: i64 where "SYS_FUTEX \<equiv> 42"
abbreviation (input) SYS_PIPE2 :: i64 where "SYS_PIPE2 \<equiv> 43"
abbreviation (input) SYS_ARCH_PRCTL :: i64 where "SYS_ARCH_PRCTL \<equiv> 44"
abbreviation (input) SYS_SPAWNV :: i64 where "SYS_SPAWNV \<equiv> 51"
abbreviation (input) SYS_FCNTL :: i64 where "SYS_FCNTL \<equiv> 52"
abbreviation (input) SYS_CHDIR :: i64 where "SYS_CHDIR \<equiv> 53"
abbreviation (input) SYS_GETCWD :: i64 where "SYS_GETCWD \<equiv> 54"
abbreviation (input) SYS_STAT :: i64 where "SYS_STAT \<equiv> 55"
abbreviation (input) SYS_LSTAT :: i64 where "SYS_LSTAT \<equiv> 56"
abbreviation (input) SYS_FSTAT :: i64 where "SYS_FSTAT \<equiv> 57"
abbreviation (input) SYS_NEWFSTATAT :: i64 where "SYS_NEWFSTATAT \<equiv> 58"
abbreviation (input) SYS_SET_TID_ADDRESS :: i64 where "SYS_SET_TID_ADDRESS \<equiv> 59"
abbreviation (input) SYS_EXIT_GROUP :: i64 where "SYS_EXIT_GROUP \<equiv> 60"
abbreviation (input) SYS_WRITEV :: i64 where "SYS_WRITEV \<equiv> 61"
abbreviation (input) SYS_READV :: i64 where "SYS_READV \<equiv> 62"
abbreviation (input) SYS_IOCTL :: i64 where "SYS_IOCTL \<equiv> 63"
abbreviation (input) SYS_CLOCK_GETTIME :: i64 where "SYS_CLOCK_GETTIME \<equiv> 64"
abbreviation (input) SYS_NANOSLEEP :: i64 where "SYS_NANOSLEEP \<equiv> 65"
abbreviation (input) SYS_TEST_HOOK :: i64 where "SYS_TEST_HOOK \<equiv> 66"
abbreviation (input) SYS_POLL_NR :: i64 where "SYS_POLL_NR \<equiv> 67"
abbreviation (input) SYS_SELECT_NR :: i64 where "SYS_SELECT_NR \<equiv> 68"
abbreviation (input) SYS_REBOOT_NR :: i64 where "SYS_REBOOT_NR \<equiv> 69"
abbreviation (input) SYS_DUP :: i64 where "SYS_DUP \<equiv> 70"
abbreviation (input) SYS_DUP2 :: i64 where "SYS_DUP2 \<equiv> 71"
abbreviation (input) SYS_DUP3 :: i64 where "SYS_DUP3 \<equiv> 72"
abbreviation (input) SYS_GETPPID :: i64 where "SYS_GETPPID \<equiv> 73"
abbreviation (input) SYS_UNAME :: i64 where "SYS_UNAME \<equiv> 74"
abbreviation (input) SYS_GETUID :: i64 where "SYS_GETUID \<equiv> 76"
abbreviation (input) SYS_GETGID :: i64 where "SYS_GETGID \<equiv> 78"
abbreviation (input) SYS_SETUID :: i64 where "SYS_SETUID \<equiv> 80"
abbreviation (input) SYS_SETGID :: i64 where "SYS_SETGID \<equiv> 81"
abbreviation (input) SYS_GETRANDOM :: i64 where "SYS_GETRANDOM \<equiv> 82"

section \<open>Processes, files, credentials\<close>

definition exit :: "'k kernel \<Rightarrow> i32 \<Rightarrow> 'k machine \<Rightarrow> 'k machine" where
  "exit K code s = snd (syscall1 K SYS_EXIT (sext code) s)"

definition write_c :: "'k kernel \<Rightarrow> i32 \<Rightarrow> addr \<Rightarrow> u64 \<Rightarrow> 'k machine \<Rightarrow> i64 \<times> 'k machine" where
  "write_c K fd buf len = syscall3 K SYS_WRITE (sext fd) buf len"

definition read :: "'k kernel \<Rightarrow> i32 \<Rightarrow> addr \<Rightarrow> u64 \<Rightarrow> 'k machine \<Rightarrow> i64 \<times> 'k machine" where
  "read K fd buf len = syscall3 K SYS_READ (sext fd) buf len"

definition open_c :: "'k kernel \<Rightarrow> addr \<Rightarrow> i32 \<Rightarrow> 'k machine \<Rightarrow> (i32 \<times> 'k machine) option" where
  "open_c K path flags =
     with_strlen path (\<lambda>len s. ret_int (syscall3 K SYS_OPEN path len (sext flags) s))"

definition close :: "'k kernel \<Rightarrow> i32 \<Rightarrow> 'k machine \<Rightarrow> i32 \<times> 'k machine" where
  "close K fd s = ret_int (syscall1 K SYS_CLOSE (sext fd) s)"

definition lseek :: "'k kernel \<Rightarrow> i32 \<Rightarrow> i64 \<Rightarrow> i32 \<Rightarrow> 'k machine \<Rightarrow> i64 \<times> 'k machine" where
  "lseek K fd offset whence = syscall3 K SYS_LSEEK (sext fd) offset (sext whence)"

definition getpid :: "'k kernel \<Rightarrow> 'k machine \<Rightarrow> i32 \<times> 'k machine" where
  "getpid K s = ret_int (syscall0 K SYS_GETPID s)"

definition sysconf :: "'k kernel \<Rightarrow> i32 \<Rightarrow> 'k machine \<Rightarrow> i64 \<times> 'k machine" where
  "sysconf K name s =
     (if name = 84 \<or> name = 83 then syscall0 K SYS_CPU_COUNT s else (- 1, s))"

definition sched_getcpu :: "'k kernel \<Rightarrow> 'k machine \<Rightarrow> i32 \<times> 'k machine" where
  "sched_getcpu K s = ret_int (syscall0 K SYS_GETCPU s)"

definition yield :: "'k kernel \<Rightarrow> 'k machine \<Rightarrow> 'k machine" where
  "yield K s = snd (syscall0 K SYS_YIELD s)"

definition spawn :: "'k kernel \<Rightarrow> addr \<Rightarrow> 'k machine \<Rightarrow> (i32 \<times> 'k machine) option" where
  "spawn K path = with_strlen path (\<lambda>len s. ret_int (syscall2 K SYS_SPAWN path len s))"

definition spawnv :: "'k kernel \<Rightarrow> addr \<Rightarrow> addr \<Rightarrow> 'k machine \<Rightarrow> (i32 \<times> 'k machine) option" where
  "spawnv K path argv =
     with_strlen path (\<lambda>len s. ret_int (neoos_syscall4 K SYS_SPAWNV path len argv 0 s))"

definition spawnve ::
  "'k kernel \<Rightarrow> addr \<Rightarrow> addr \<Rightarrow> addr \<Rightarrow> 'k machine \<Rightarrow> (i32 \<times> 'k machine) option" where
  "spawnve K path argv envp =
     with_strlen path (\<lambda>len s. ret_int (neoos_syscall4 K SYS_SPAWNV path len argv envp s))"

definition fork :: "'k kernel \<Rightarrow> 'k machine \<Rightarrow> i32 \<times> 'k machine" where
  "fork K s = ret_int (syscall0 K SYS_FORK s)"

definition getdents :: "'k kernel \<Rightarrow> i32 \<Rightarrow> addr \<Rightarrow> i32 \<Rightarrow> 'k machine \<Rightarrow> i32 \<times> 'k machine" where
  "getdents K fd buf bytes s = ret_int (syscall3 K SYS_GETDENTS (sext fd) buf (sext bytes) s)"

definition mount :: "'k kernel \<Rightarrow> addr \<Rightarrow> addr \<Rightarrow> addr \<Rightarrow> 'k machine \<Rightarrow> i32 \<times> 'k machine" where
  "mount K source target fstype s = ret_int (syscall3 K SYS_MOUNT source target fstype s)"

definition umount :: "'k kernel \<Rightarrow> addr \<Rightarrow> 'k machine \<Rightarrow> (i32 \<times> 'k machine) option" where
  "umount K target = with_strlen target (\<lambda>len s. ret_int (syscall2 K SYS_UMOUNT target len s))"

definition execve ::
  "'k kernel \<Rightarrow> addr \<Rightarrow> addr \<Rightarrow> addr \<Rightarrow> 'k machine \<Rightarrow> (i32 \<times> 'k machine) option" where
  "execve K path argv envp =
     with_strlen path (\<lambda>len s. ret_int (neoos_syscall4 K SYS_EXEC path len argv envp s))"

definition execv :: "'k kernel \<Rightarrow> addr \<Rightarrow> addr \<Rightarrow> 'k machine \<Rightarrow> (i32 \<times> 'k machine) option" where
  "execv K path argv = execve K path argv 0"

definition exec :: "'k kernel \<Rightarrow> addr \<Rightarrow> 'k machine \<Rightarrow> (i32 \<times> 'k machine) option" where
  "exec K path = execv K path 0"

definition getuid :: "'k kernel \<Rightarrow> 'k machine \<Rightarrow> i32 \<times> 'k machine" where
  "getuid K s = ret_int (syscall0 K SYS_GETUID s)"

definition geteuid :: "'k kernel \<Rightarrow> 'k machine \<Rightarrow> i32 \<times> 'k machine" where
  "geteuid K s = ret_int (syscall0 K SYS_GETUID s)"

definition getgid :: "'k kernel \<Rightarrow> 'k machine \<Rightarrow> i32 \<times> 'k machine" where
  "getgid K s = ret_int (syscall0 K SYS_GETGID s)"

definition getegid :: "'k kernel \<Rightarrow> 'k machine \<Rightarrow> i32 \<times> 'k machine" where
  "getegid K s = ret_int (syscall0 K SYS_GETGID s)"

definition setuid :: "'k kernel \<Rightarrow> i32 \<Rightarrow> 'k machine \<Rightarrow> i32 \<times> 'k machine" where
  "setuid K uid s = ret_int (syscall1 K SYS_SETUID (sext uid) s)"

definition setgid :: "'k kernel \<Rightarrow> i32 \<Rightarrow> 'k machine \<Rightarrow> i32 \<times> 'k machine" where
  "setgid K gid s = ret_int (syscall1 K SYS_SETGID (sext gid) s)"

definition getrandom :: "'k kernel \<Rightarrow> addr \<Rightarrow> u64 \<Rightarrow> u32 \<Rightarrow> 'k machine \<Rightarrow> i64 \<times> 'k machine" where
  "getrandom K buf len flags = syscall3 K SYS_GETRANDOM buf len (ucast flags)"

definition getppid :: "'k kernel \<Rightarrow> 'k machine \<Rightarrow> i32 \<times> 'k machine" where
  "getppid K s = ret_int (syscall0 K SYS_GETPPID s)"

definition uname :: "'k kernel \<Rightarrow> addr \<Rightarrow> 'k machine \<Rightarrow> i32 \<times> 'k machine" where
  "uname K u s = ret_int (syscall1 K SYS_UNAME u s)"

definition wait :: "'k kernel \<Rightarrow> i32 \<Rightarrow> 'k machine \<Rightarrow> i32 \<times> 'k machine" where
  "wait K pid s = ret_int (syscall1 K SYS_WAIT (sext pid) s)"

definition mkdir :: "'k kernel \<Rightarrow> addr \<Rightarrow> 'k machine \<Rightarrow> (i32 \<times> 'k machine) option" where
  "mkdir K path = with_strlen path (\<lambda>len s. ret_int (syscall2 K SYS_MKDIR path len s))"

definition unlink :: "'k kernel \<Rightarrow> addr \<Rightarrow> 'k machine \<Rightarrow> (i32 \<times> 'k machine) option" where
  "unlink K path = with_strlen path (\<lambda>len s. ret_int (syscall2 K SYS_UNLINK path len s))"

section \<open>Threads, signals, process groups\<close>

definition sys_thread_create :: "'k kernel \<Rightarrow> u64 \<Rightarrow> u64 \<Rightarrow> 'k machine \<Rightarrow> i32 \<times> 'k machine" where
  "sys_thread_create K entry arg s = ret_int (syscall2 K SYS_THREAD_CREATE entry arg s)"

definition sys_thread_exit :: "'k kernel \<Rightarrow> i32 \<Rightarrow> 'k machine \<Rightarrow> 'k machine" where
  "sys_thread_exit K code s = snd (syscall1 K SYS_THREAD_EXIT (sext code) s)"

definition sys_thread_join :: "'k kernel \<Rightarrow> i32 \<Rightarrow> addr \<Rightarrow> 'k machine \<Rightarrow> i32 \<times> 'k machine" where
  "sys_thread_join K tid code s = ret_int (syscall2 K SYS_THREAD_JOIN (sext tid) code s)"

definition sys_thread_self :: "'k kernel \<Rightarrow> 'k machine \<Rightarrow> i32 \<times> 'k machine" where
  "sys_thread_self K s = ret_int (syscall0 K SYS_THREAD_SELF s)"

definition sys_rt_sigaction ::
  "'k kernel \<Rightarrow> i32 \<Rightarrow> addr \<Rightarrow> addr \<Rightarrow> 'k machine \<Rightarrow> i64 \<times> 'k machine" where
  "sys_rt_sigaction K sig act old = syscall3 K SYS_RT_SIGACTION (sext sig) act old"

definition sigprocmask :: "'k kernel \<Rightarrow> i32 \<Rightarrow> addr \<Rightarrow> addr \<Rightarrow> 'k machine \<Rightarrow> i32 \<times> 'k machine" where
  "sigprocmask K how sigs old s = ret_int (syscall3 K SYS_RT_SIGPROCMASK (sext how) sigs old s)"

definition sigpending :: "'k kernel \<Rightarrow> addr \<Rightarrow> 'k machine \<Rightarrow> i32 \<times> 'k machine" where
  "sigpending K sigs s = ret_int (syscall1 K SYS_RT_SIGPENDING sigs s)"

definition sigsuspend :: "'k kernel \<Rightarrow> addr \<Rightarrow> 'k machine \<Rightarrow> i32 \<times> 'k machine" where
  "sigsuspend K sigs s = ret_int (syscall1 K SYS_RT_SIGSUSPEND sigs s)"

definition sigaltstack :: "'k kernel \<Rightarrow> addr \<Rightarrow> addr \<Rightarrow> 'k machine \<Rightarrow> i32 \<times> 'k machine" where
  "sigaltstack K ss old s = ret_int (syscall2 K SYS_SIGALTSTACK ss old s)"

definition kill :: "'k kernel \<Rightarrow> i32 \<Rightarrow> i32 \<Rightarrow> 'k machine \<Rightarrow> i32 \<times> 'k machine" where
  "kill K pid sig s = ret_int (syscall2 K SYS_KILL (sext pid) (sext sig) s)"

definition tkill :: "'k kernel \<Rightarrow> i32 \<Rightarrow> i32 \<Rightarrow> 'k machine \<Rightarrow> i32 \<times> 'k machine" where
  "tkill K tid sig s = ret_int (syscall2 K SYS_TKILL (sext tid) (sext sig) s)"

definition tgkill :: "'k kernel \<Rightarrow> i32 \<Rightarrow> i32 \<Rightarrow> i32 \<Rightarrow> 'k machine \<Rightarrow> i32 \<times> 'k machine" where
  "tgkill K tgid tid sig s = ret_int (syscall3 K SYS_TGKILL (sext tgid) (sext tid) (sext sig) s)"

definition wait4 :: "'k kernel \<Rightarrow> i32 \<Rightarrow> addr \<Rightarrow> i32 \<Rightarrow> addr \<Rightarrow> 'k machine \<Rightarrow> i32 \<times> 'k machine" where
  "wait4 K pid status opts rusage s =
     ret_int (syscall3 K SYS_WAIT4 (sext pid) status (sext opts) s)"

definition waitpid :: "'k kernel \<Rightarrow> i32 \<Rightarrow> addr \<Rightarrow> i32 \<Rightarrow> 'k machine \<Rightarrow> i32 \<times> 'k machine" where
  "waitpid K pid status opts = wait4 K pid status opts 0"

definition setpgid :: "'k kernel \<Rightarrow> i32 \<Rightarrow> i32 \<Rightarrow> 'k machine \<Rightarrow> i32 \<times> 'k machine" where
  "setpgid K pid pgid s = ret_int (syscall2 K SYS_SETPGID (sext pid) (sext pgid) s)"

definition getpgid :: "'k kernel \<Rightarrow> i32 \<Rightarrow> 'k machine \<Rightarrow> i32 \<times> 'k machine" where
  "getpgid K pid s = ret_int (syscall1 K SYS_GETPGID (sext pid) s)"

definition setsid :: "'k kernel \<Rightarrow> 'k machine \<Rightarrow> i32 \<times> 'k machine" where
  "setsid K s = ret_int (syscall0 K SYS_SETSID s)"

definition getsid :: "'k kernel \<Rightarrow> i32 \<Rightarrow> 'k machine \<Rightarrow> i32 \<times> 'k machine" where
  "getsid K pid s = ret_int (syscall1 K SYS_GETSID (sext pid) s)"

section \<open>Memory mappings\<close>

abbreviation (input) MAP_FAILED :: addr where "MAP_FAILED \<equiv> - 1"

definition mmap_fd_raw ::
  "'k kernel \<Rightarrow> u64 \<Rightarrow> u64 \<Rightarrow> i32 \<Rightarrow> i32 \<Rightarrow> i32 \<Rightarrow> i64 \<Rightarrow> 'k machine \<Rightarrow> i64 \<times> 'k machine" where
  "mmap_fd_raw K addr len prot flags fd offset =
     K ((frame0 SYS_MMAP)\<lparr>rdi := Some addr, rsi := Some len, rdx := Some (sext prot),
                          r10 := Some (sext flags), r8 := Some (sext fd), r9 := Some offset\<rparr>)"

definition mmap_raw :: "'k kernel \<Rightarrow> u64 \<Rightarrow> u64 \<Rightarrow> i32 \<Rightarrow> i32 \<Rightarrow> 'k machine \<Rightarrow> i64 \<times> 'k machine" where
  "mmap_raw K addr len prot flags = mmap_fd_raw K addr len prot flags (- 1) 0"

definition munmap_raw :: "'k kernel \<Rightarrow> u64 \<Rightarrow> u64 \<Rightarrow> 'k machine \<Rightarrow> i32 \<times> 'k machine" where
  "munmap_raw K addr len s = ret_int (syscall2 K SYS_MUNMAP addr len s)"

definition mmap ::
  "'k kernel \<Rightarrow> addr \<Rightarrow> u64 \<Rightarrow> i32 \<Rightarrow> i32 \<Rightarrow> i32 \<Rightarrow> i64 \<Rightarrow> 'k machine \<Rightarrow> addr \<times> 'k machine" where
  "mmap K addr len prot flags fd offset s =
     (let (rc, s) = mmap_fd_raw K addr len prot flags fd offset s
      in if rc <s 0 then (MAP_FAILED, s) else (rc, s))"

definition munmap :: "'k kernel \<Rightarrow> addr \<Rightarrow> u64 \<Rightarrow> 'k machine \<Rightarrow> i32 \<times> 'k machine" where
  "munmap K addr len s =
     (let (rc, s) = munmap_raw K addr len s in (if rc <s 0 then - 1 else 0, s))"

definition mprotect :: "'k kernel \<Rightarrow> addr \<Rightarrow> u64 \<Rightarrow> i32 \<Rightarrow> 'k machine \<Rightarrow> i32 \<times> 'k machine" where
  "mprotect K addr len prot s =
     (let (rc, s) = ret_int (syscall3 K SYS_MPROTECT addr len (sext prot) s)
      in (if rc <s 0 then - 1 else 0, s))"

section \<open>Futex, pipes, polling\<close>

abbreviation (input) FUTEX_WAIT :: i32 where "FUTEX_WAIT \<equiv> 0"
abbreviation (input) FUTEX_WAKE :: i32 where "FUTEX_WAKE \<equiv> 1"
abbreviation (input) FUTEX_PRIVATE_FLAG :: i32 where "FUTEX_PRIVATE_FLAG \<equiv> 128"

definition futex :: "'k kernel \<Rightarrow> addr \<Rightarrow> i32 \<Rightarrow> i32 \<Rightarrow> addr \<Rightarrow> 'k machine \<Rightarrow> i64 \<times> 'k machine" where
  "futex K uaddr op val timeout = syscall4 K SYS_FUTEX uaddr (sext op) (sext val) timeout"

definition futex_wait :: "'k kernel \<Rightarrow> addr \<Rightarrow> i32 \<Rightarrow> 'k machine \<Rightarrow> i32 \<times> 'k machine" where
  "futex_wait K uaddr expected s =
     ret_int (futex K uaddr (FUTEX_WAIT OR FUTEX_PRIVATE_FLAG) expected 0 s)"

definition futex_wait_timeout ::
  "'k kernel \<Rightarrow> addr \<Rightarrow> i32 \<Rightarrow> addr \<Rightarrow> 'k machine \<Rightarrow> i32 \<times> 'k machine" where
  "futex_wait_timeout K uaddr expected rel s =
     ret_int (futex K uaddr (FUTEX_WAIT OR FUTEX_PRIVATE_FLAG) expected rel s)"

definition futex_wake :: "'k kernel \<Rightarrow> addr \<Rightarrow> i32 \<Rightarrow> 'k machine \<Rightarrow> i32 \<times> 'k machine" where
  "futex_wake K uaddr count s =
     ret_int (futex K uaddr (FUTEX_WAKE OR FUTEX_PRIVATE_FLAG) count 0 s)"

definition pipe2 :: "'k kernel \<Rightarrow> addr \<Rightarrow> i32 \<Rightarrow> 'k machine \<Rightarrow> i32 \<times> 'k machine" where
  "pipe2 K fds flags s = ret_int (syscall2 K SYS_PIPE2 fds (sext flags) s)"

definition pipe :: "'k kernel \<Rightarrow> addr \<Rightarrow> 'k machine \<Rightarrow> i32 \<times> 'k machine" where
  "pipe K fds = pipe2 K fds 0"

definition poll :: "'k kernel \<Rightarrow> addr \<Rightarrow> u64 \<Rightarrow> i32 \<Rightarrow> 'k machine \<Rightarrow> i32 \<times> 'k machine" where
  "poll K fds nfds timeout_ms s = ret_int (syscall3 K SYS_POLL_NR fds nfds (sext timeout_ms) s)"

definition reboot :: "'k kernel \<Rightarrow> i32 \<Rightarrow> 'k machine \<Rightarrow> i32 \<times> 'k machine" where
  "reboot K cmd s =
     (let (rc, s) = syscall1 K SYS_REBOOT_NR (sext cmd) s in (if rc <s 0 then - 1 else 0, s))"

definition select ::
  "'k kernel \<Rightarrow> i32 \<Rightarrow> addr \<Rightarrow> addr \<Rightarrow> addr \<Rightarrow> addr \<Rightarrow> 'k machine \<Rightarrow> i32 \<times> 'k machine" where
  "select K nfds rd wr ex tv s =
     ret_int (K ((frame0 SYS_SELECT_NR)\<lparr>rdi := Some (sext nfds), rsi := Some rd, rdx := Some wr,
                                        r10 := Some ex, r8 := Some tv\<rparr>) s)"

definition fcntl :: "'k kernel \<Rightarrow> i32 \<Rightarrow> i32 \<Rightarrow> i32 \<Rightarrow> 'k machine \<Rightarrow> i32 \<times> 'k machine" where
  "fcntl K fd cmd arg s = ret_int (syscall3 K SYS_FCNTL (sext fd) (sext cmd) (sext arg) s)"

definition dup :: "'k kernel \<Rightarrow> i32 \<Rightarrow> 'k machine \<Rightarrow> i32 \<times> 'k machine" where
  "dup K oldfd s = ret_int (syscall1 K SYS_DUP (sext oldfd) s)"

definition dup2 :: "'k kernel \<Rightarrow> i32 \<Rightarrow> i32 \<Rightarrow> 'k machine \<Rightarrow> i32 \<times> 'k machine" where
  "dup2 K oldfd newfd s = ret_int (syscall2 K SYS_DUP2 (sext oldfd) (sext newfd) s)"

definition dup3 :: "'k kernel \<Rightarrow> i32 \<Rightarrow> i32 \<Rightarrow> i32 \<Rightarrow> 'k machine \<Rightarrow> i32 \<times> 'k machine" where
  "dup3 K oldfd newfd flags s =
     ret_int (syscall3 K SYS_DUP3 (sext oldfd) (sext newfd) (sext flags) s)"

definition arch_prctl :: "'k kernel \<Rightarrow> i32 \<Rightarrow> u64 \<Rightarrow> 'k machine \<Rightarrow> i32 \<times> 'k machine" where
  "arch_prctl K code addr s = ret_int (syscall2 K SYS_ARCH_PRCTL (sext code) addr s)"

section \<open>Working directory, file status, devices\<close>

definition chdir :: "'k kernel \<Rightarrow> addr \<Rightarrow> 'k machine \<Rightarrow> (i32 \<times> 'k machine) option" where
  "chdir K path = with_strlen path (\<lambda>len s. ret_int (syscall2 K SYS_CHDIR path len s))"

definition getcwd :: "'k kernel \<Rightarrow> addr \<Rightarrow> u64 \<Rightarrow> 'k machine \<Rightarrow> addr \<times> 'k machine" where
  "getcwd K buf sz s =
     (let (rc, s) = syscall2 K SYS_GETCWD buf sz s in (if rc <s 0 then 0 else buf, s))"

definition stat :: "'k kernel \<Rightarrow> addr \<Rightarrow> addr \<Rightarrow> 'k machine \<Rightarrow> (i32 \<times> 'k machine) option" where
  "stat K path st =
     with_strlen path (\<lambda>len s. ret_int (syscall3 K SYS_STAT path len st s))"

definition lstat :: "'k kernel \<Rightarrow> addr \<Rightarrow> addr \<Rightarrow> 'k machine \<Rightarrow> (i32 \<times> 'k machine) option" where
  "lstat K path st =
     with_strlen path (\<lambda>len s. ret_int (syscall3 K SYS_LSTAT path len st s))"

definition fstat :: "'k kernel \<Rightarrow> i32 \<Rightarrow> addr \<Rightarrow> 'k machine \<Rightarrow> i32 \<times> 'k machine" where
  "fstat K fd st s = ret_int (syscall2 K SYS_FSTAT (sext fd) st s)"

definition fstatat ::
  "'k kernel \<Rightarrow> i32 \<Rightarrow> addr \<Rightarrow> addr \<Rightarrow> i32 \<Rightarrow> 'k machine \<Rightarrow> (i32 \<times> 'k machine) option" where
  "fstatat K dirfd path st flags =
     with_strlen path (\<lambda>len s.
       ret_int (neoos_syscall6 K SYS_NEWFSTATAT (sext dirfd) path len st (sext flags) 0 s))"

definition writev :: "'k kernel \<Rightarrow> i32 \<Rightarrow> addr \<Rightarrow> i32 \<Rightarrow> 'k machine \<Rightarrow> i64 \<times> 'k machine" where
  "writev K fd iov iovcnt = syscall3 K SYS_WRITEV (sext fd) iov (sext iovcnt)"

definition readv :: "'k kernel \<Rightarrow> i32 \<Rightarrow> addr \<Rightarrow> i32 \<Rightarrow> 'k machine \<Rightarrow> i64 \<times> 'k machine" where
  "readv K fd iov iovcnt = syscall3 K SYS_READV (sext fd) iov (sext iovcnt)"

definition ioctl :: "'k kernel \<Rightarrow> i32 \<Rightarrow> u64 \<Rightarrow> addr \<Rightarrow> 'k machine \<Rightarrow> i32 \<times> 'k machine" where
  "ioctl K fd request arg s = ret_int (syscall3 K SYS_IOCTL (sext fd) request arg s)"

abbreviation (input) TIOCGWINSZ :: u64 where "TIOCGWINSZ \<equiv> 0x5413"
abbreviation (input) TCGETS :: u64 where "TCGETS \<equiv> 0x5401"
abbreviation (input) TCSETS :: u64 where "TCSETS \<equiv> 0x5402"
abbreviation (input) TCSETSW :: u64 where "TCSETSW \<equiv> 0x5403"
abbreviation (input) TCSETSF :: u64 where "TCSETSF \<equiv> 0x5404"
abbreviation (input) TCSANOW :: i32 where "TCSANOW \<equiv> 0"
abbreviation (input) TCSADRAIN :: i32 where "TCSADRAIN \<equiv> 1"
abbreviation (input) TCSAFLUSH :: i32 where "TCSAFLUSH \<equiv> 2"

text \<open>\<open>ws\<close> is the address of the local \<open>struct winsize\<close> that the probe passes.\<close>

definition isatty :: "'k kernel \<Rightarrow> i32 \<Rightarrow> addr \<Rightarrow> 'k machine \<Rightarrow> i32 \<times> 'k machine" where
  "isatty K fd ws s = (let (rc, s) = ioctl K fd TIOCGWINSZ ws s in (if rc = 0 then 1 else 0, s))"

definition clock_gettime :: "'k kernel \<Rightarrow> i32 \<Rightarrow> addr \<Rightarrow> 'k machine \<Rightarrow> i32 \<times> 'k machine" where
  "clock_gettime K clk out s = ret_int (syscall2 K SYS_CLOCK_GETTIME (sext clk) out s)"

definition nanosleep :: "'k kernel \<Rightarrow> addr \<Rightarrow> addr \<Rightarrow> 'k machine \<Rightarrow> i32 \<times> 'k machine" where
  "nanosleep K req remain s = ret_int (syscall2 K SYS_NANOSLEEP req remain s)"

definition set_tid_address :: "'k kernel \<Rightarrow> addr \<Rightarrow> 'k machine \<Rightarrow> i32 \<times> 'k machine" where
  "set_tid_address K ptr s = ret_int (syscall1 K SYS_SET_TID_ADDRESS ptr s)"

definition exit_group :: "'k kernel \<Rightarrow> i32 \<Rightarrow> 'k machine \<Rightarrow> 'k machine" where
  "exit_group K code s = snd (syscall1 K SYS_EXIT_GROUP (sext code) s)"

definition tcgetattr :: "'k kernel \<Rightarrow> i32 \<Rightarrow> addr \<Rightarrow> 'k machine \<Rightarrow> i32 \<times> 'k machine" where
  "tcgetattr K fd t = ioctl K fd TCGETS t"

definition tcsetattr :: "'k kernel \<Rightarrow> i32 \<Rightarrow> i32 \<Rightarrow> addr \<Rightarrow> 'k machine \<Rightarrow> i32 \<times> 'k machine" where
  "tcsetattr K fd actions t =
     (let req = (if actions = TCSADRAIN then TCSETSW
                else if actions = TCSAFLUSH then TCSETSF else TCSETS)
      in ioctl K fd req t)"

section \<open>Test hooks\<close>

abbreviation (input) TESTHOOK_INJECT_KEY :: i64 where "TESTHOOK_INJECT_KEY \<equiv> 1"
abbreviation (input) TESTHOOK_MIG_COUNT :: i64 where "TESTHOOK_MIG_COUNT \<equiv> 2"
abbreviation (input) TESTHOOK_PARENT_PID :: i64 where "TESTHOOK_PARENT_PID \<equiv> 3"
abbreviation (input) TESTHOOK_PMM_FREE :: i64 where "TESTHOOK_PMM_FREE \<equiv> 4"
abbreviation (input) TESTHOOK_POLL_STATS :: i64 where "TESTHOOK_POLL_STATS \<equiv> 5"
abbreviation (input) TESTHOOK_POLL_DEPTH :: i64 where "TESTHOOK_POLL_DEPTH \<equiv> 6"
abbreviation (input) TESTHOOK_POLL_WASTED :: i64 where "TESTHOOK_POLL_WASTED \<equiv> 7"
abbreviation (input) TESTHOOK_TCP_FAULT :: i64 where "TESTHOOK_TCP_FAULT \<equiv> 8"
abbreviation (input) TESTHOOK_TCP_RETRANS :: i64 where "TESTHOOK_TCP_RETRANS \<equiv> 9"
abbreviation (input) TESTHOOK_TCP_REASM :: i64 where "TESTHOOK_TCP_REASM \<equiv> 10"
abbreviation (input) TESTHOOK_TCP_INUSE :: i64 where "TESTHOOK_TCP_INUSE \<equiv> 11"

definition neoos_test_inject_key :: "'k kernel \<Rightarrow> u32 \<Rightarrow> i32 \<Rightarrow> 'k machine \<Rightarrow> i32 \<times> 'k machine" where
  "neoos_test_inject_key K keycode pressed s =
     ret_int (syscall3 K SYS_TEST_HOOK TESTHOOK_INJECT_KEY (ucast keycode) (sext pressed) s)"

definition neoos_test_migration_count :: "'k kernel \<Rightarrow> 'k machine \<Rightarrow> i64 \<times> 'k machine" where
  "neoos_test_migration_count K s = syscall1 K SYS_TEST_HOOK TESTHOOK_MIG_COUNT s"

definition neoos_test_parent_pid :: "'k kernel \<Rightarrow> i32 \<Rightarrow> 'k machine \<Rightarrow> i32 \<times> 'k machine" where
  "neoos_test_parent_pid K pid s =
     ret_int (syscall3 K SYS_TEST_HOOK TESTHOOK_PARENT_PID (sext pid) 0 s)"

definition neoos_test_pmm_free :: "'k kernel \<Rightarrow> 'k machine \<Rightarrow> i64 \<times> 'k machine" where
  "neoos_test_pmm_free K s = syscall1 K SYS_TEST_HOOK TESTHOOK_PMM_FREE s"

definition neoos_test_poll_stats :: "'k kernel \<Rightarrow> 'k machine \<Rightarrow> i64 \<times> 'k machine" where
  "neoos_test_poll_stats K s = syscall1 K SYS_TEST_HOOK TESTHOOK_POLL_STATS s"

definition neoos_test_poll_depth :: "'k kernel \<Rightarrow> 'k machine \<Rightarrow> i64 \<times> 'k machine" where
  "neoos_test_poll_depth K s = syscall1 K SYS_TEST_HOOK TESTHOOK_POLL_DEPTH s"

definition neoos_test_poll_wasted :: "'k kernel \<Rightarrow> 'k machine \<Rightarrow> i64 \<times> 'k machine" where
  "neoos_test_poll_wasted K s = syscall1 K SYS_TEST_HOOK TESTHOOK_POLL_WASTED s"

definition neoos_test_tcp_fault :: "'k kernel \<Rightarrow> u32 \<Rightarrow> u32 \<Rightarrow> 'k machine \<Rightarrow> i32 \<times> 'k machine" where
  "neoos_test_tcp_fault K drop_1_in_n reorder_1_in_m s =
     ret_int (syscall3 K SYS_TEST_HOOK TESTHOOK_TCP_FAULT (ucast drop_1_in_n) (ucast reorder_1_in_m) s)"

definition neoos_test_tcp_retrans :: "'k kernel \<Rightarrow> 'k machine \<Rightarrow> i64 \<times> 'k machine" where
  "neoos_test_tcp_retrans K s = syscall1 K SYS_TEST_HOOK TESTHOOK_TCP_RETRANS s"

definition neoos_test_tcp_reasm :: "'k kernel \<Rightarrow> 'k machine \<Rightarrow> i64 \<times> 'k machine" where
  "neoos_test_tcp_reasm K s = syscall1 K SYS_TEST_HOOK TESTHOOK_TCP_REASM s"

definition neoos_test_tcp_inuse :: "'k kernel \<Rightarrow> 'k machine \<Rightarrow> i64 \<times> 'k machine" where
  "neoos_test_tcp_inuse K s = syscall1 K SYS_TEST_HOOK TESTHOOK_TCP_INUSE s"

lemmas path_call_defs = open_c_def spawn_def spawnv_def spawnve_def umount_def execve_def execv_def
  exec_def mkdir_def unlink_def chdir_def stat_def lstat_def fstatat_def

lemmas map_call_defs = mmap_fd_raw_def mmap_raw_def munmap_raw_def mmap_def munmap_def mprotect_def

lemmas futex_call_defs = futex_def futex_wait_def futex_wait_timeout_def futex_wake_def

section \<open>Properties\<close>

text \<open>
  Every wrapper that takes a path hands the kernel the path's address in \<open>rdi\<close> (\<open>rsi\<close> for
  \<open>fstatat\<close>) and its exact string length in the next register. \<open>exec\<close> and \<open>spawnv\<close> moreover set
  the argument and environment registers to an explicit 0 instead of leaving them undetermined.
\<close>

lemma path_calls_pass_length:
  assumes "cstring (memory s) path cs"
  defines "len \<equiv> of_nat (length cs) :: u64"
  defines "F \<equiv> \<lambda>n a3 a4. ((frame0 n)\<lparr>rdi := Some path, rsi := Some len, rdx := a3, r10 := a4\<rparr>)"
  shows "open_c K path flags s = Some (ret_int (K (F SYS_OPEN (Some (sext flags)) None) s)) \<and>
         spawn K path s = Some (ret_int (K (F SYS_SPAWN None None) s)) \<and>
         spawnv K path argv s = Some (ret_int (K (F SYS_SPAWNV (Some argv) (Some 0)) s)) \<and>
         exec K path s = Some (ret_int (K (F SYS_EXEC (Some 0) (Some 0)) s)) \<and>
         execve K path argv envp s = Some (ret_int (K (F SYS_EXEC (Some argv) (Some envp)) s)) \<and>
         umount K path s = Some (ret_int (K (F SYS_UMOUNT None None) s)) \<and>
         mkdir K path s = Some (ret_int (K (F SYS_MKDIR None None) s)) \<and>
         unlink K path s = Some (ret_int (K (F SYS_UNLINK None None) s)) \<and>
         chdir K path s = Some (ret_int (K (F SYS_CHDIR None None) s)) \<and>
         stat K path st s = Some (ret_int (K (F SYS_STAT (Some st) None) s)) \<and>
         lstat K path st s = Some (ret_int (K (F SYS_LSTAT (Some st) None) s)) \<and>
         fstatat K dirfd path st flags s =
           Some (ret_int (K ((frame0 SYS_NEWFSTATAT)\<lparr>rdi := Some (sext dirfd), rsi := Some path,
             rdx := Some len, r10 := Some st, r8 := Some (sext flags), r9 := Some 0\<rparr>) s))"
  using assms(1)
  by (simp add: path_call_defs with_strlen_cstring syscall_entry_defs len_def F_def)

text \<open>
  The POSIX shapes over the raw mapping calls: each makes one system call, with \<open>r\<close> its answer \<open>mmap\<close>
  gives \<open>MAP_FAILED\<close> when \<open>r\<close> is negative and \<open>r\<close> itself otherwise; \<open>munmap\<close> and \<open>mprotect\<close> give -1 when \<open>r\<close>, as an
  \<open>int\<close>, is negative, and 0 otherwise.
\<close>

lemma mapping_calls:
  "neoos_syscall6 K SYS_MMAP a len (sext prot) (sext flags) (sext fd) off s = (r, s') \<Longrightarrow>
     mmap K a len prot flags fd off s = (if r <s 0 then MAP_FAILED else r, s')"
  "syscall2 K SYS_MUNMAP a len s = (r, s') \<Longrightarrow> munmap K a len s = (if cast_int r <s 0 then - 1 else 0, s')"
  "syscall3 K SYS_MPROTECT a len (sext prot) s = (r, s') \<Longrightarrow> mprotect K a len prot s = (if cast_int r <s 0 then - 1 else 0, s')"
  by (auto simp: map_call_defs syscall_entry_defs)

end
