(* ===== verification/Neo_Digits.thy ===== *)
theory Neo_Digits
  imports Neo_Prelude
begin

text \<open>
  Positional numerals, the reference against which the number printers (\<open>append_uint\<close> of
  \<open>stdio.c\<close>, \<open>int_to_str\<close> of \<open>mpi.c\<close>, \<open>inet_ntoa_r\<close> of \<open>socket.c\<close>) and the number readers
  (\<open>parse_rank_args\<close>, \<open>inet_addr\<close>) are proved. \<open>radix_digits b n\<close> are the digits of \<open>n\<close> in base
  \<open>b\<close>, most significant first; \<open>low_digits\<close> is the loop all printers share, which peels digits
  off from the low end into a scratch buffer.
\<close>

function radix_digits :: "nat \<Rightarrow> nat \<Rightarrow> nat list" where
  "radix_digits b n =
     (if n < b \<or> b < 2 then [n] else radix_digits b (n div b) @ [n mod b])"
  by pat_completeness auto
termination
  by (relation "measure snd") auto

function low_digits :: "nat \<Rightarrow> nat \<Rightarrow> nat list" where
  "low_digits b n = (if n = 0 \<or> b < 2 then [] else (n mod b) # low_digits b (n div b))"
  by pat_completeness auto
termination
  by (relation "measure snd") auto

declare radix_digits.simps [simp del] low_digits.simps [simp del]

definition horner :: "nat \<Rightarrow> nat \<Rightarrow> nat list \<Rightarrow> nat" where
  "horner b = foldl (\<lambda>v d. v * b + d)"

definition dec_char :: "nat \<Rightarrow> u8" where
  "dec_char d = of_nat (48 + d)"

definition dec_text :: "nat \<Rightarrow> u8 list" where
  "dec_text n = map dec_char (radix_digits 10 n)"

lemma low_digits_radix: "2 \<le> b \<Longrightarrow> n \<noteq> 0 \<Longrightarrow> rev (low_digits b n) = radix_digits b n"
proof (induction b n rule: low_digits.induct)
  case (1 b n)
  show ?case
  proof (cases "n < b")
    case True
    with 1 show ?thesis
      by (simp add: low_digits.simps [of b n] low_digits.simps [of b 0] radix_digits.simps [of b n])
  next
    case False
    with 1 have "rev (low_digits b (n div b)) = radix_digits b (n div b)"
      by (simp add: div_greater_zero_iff)
    with False 1 show ?thesis
      by (simp add: low_digits.simps [of b n] radix_digits.simps [of b n])
  qed
qed

lemma horner_snoc [simp]: "horner b v (ds @ [d]) = horner b v ds * b + d"
  by (simp add: horner_def)

lemma horner_Nil [simp]: "horner b v [] = v"
  by (simp add: horner_def)

lemma horner_Cons [simp]: "horner b v (d # ds) = horner b (v * b + d) ds"
  by (simp add: horner_def)

lemma horner_radix_digits: "2 \<le> b \<Longrightarrow> horner b 0 (radix_digits b n) = n"
proof (induction b n rule: radix_digits.induct)
  case (1 b n)
  then show ?case
    by (cases "n < b") (simp_all add: radix_digits.simps [of b n])
qed

lemma horner_mono: "1 \<le> b \<Longrightarrow> v \<le> horner b v ds"
proof (induction ds arbitrary: v)
  case (Cons d ds)
  have "v \<le> v * b + d" using Cons.prems by (cases b) auto
  also have "\<dots> \<le> horner b (v * b + d) ds" using Cons by blast
  finally show ?case by simp
qed simp

lemma radix_digits_less: "2 \<le> b \<Longrightarrow> d \<in> set (radix_digits b n) \<Longrightarrow> d < b"
proof (induction b n rule: radix_digits.induct)
  case (1 b n)
  then show ?case
    by (cases "n < b") (auto simp: radix_digits.simps [of b n])
qed

lemma radix_digits_nonempty [simp]: "radix_digits b n \<noteq> []"
  by (simp add: radix_digits.simps [of b n])

lemma length_radix_digits: "2 \<le> b \<Longrightarrow> n < b ^ Suc k \<Longrightarrow> length (radix_digits b n) \<le> Suc k"
proof (induction k arbitrary: n)
  case 0
  then show ?case by (simp add: radix_digits.simps [of b n])
next
  case (Suc k)
  then have "n div b < b ^ Suc k"
    by (simp add: less_mult_imp_div_less mult.commute)
  with Suc show ?case by (simp add: radix_digits.simps [of b n])
qed

lemma unat_dec_char: "d < 10 \<Longrightarrow> unat (dec_char d) = 48 + d"
  by (simp add: dec_char_def unat_of_nat take_bit_eq_mod del: of_nat_add)

lemma dec_char_nonzero: "d < 10 \<Longrightarrow> dec_char d \<noteq> 0"
  using unat_dec_char [of d] by auto

lemma dec_text_no_nul: "0 \<notin> set (dec_text n)"
  using radix_digits_less [of 10 _ n] dec_char_nonzero by (auto simp: dec_text_def)

text \<open>
  What a reader of decimal numbers gets from a printer: the printer's output is the decimal
  numeral, whatever the loops that produced it. The printers of the library interpret this.
\<close>

locale decimal_printer =
  fixes print :: "nat \<Rightarrow> u8 list"
    and bound :: nat
  assumes print_dec: "n < bound \<Longrightarrow> print n = dec_text n"
begin

lemma print_digits: "n < bound \<Longrightarrow> c \<in> set (print n) \<Longrightarrow> 48 \<le> unat c \<and> unat c \<le> 57"
  using radix_digits_less [of 10 _ n] unat_dec_char by (fastforce simp: print_dec dec_text_def)

lemma print_nonempty: "n < bound \<Longrightarrow> print n \<noteq> []"
  by (simp add: print_dec dec_text_def)

lemma print_read: "n < bound \<Longrightarrow> horner 10 0 (map (\<lambda>c. unat c - 48) (print n)) = n"
proof -
  assume n: "n < bound"
  have "map (\<lambda>c. unat c - 48) (print n) = map (\<lambda>d. unat (dec_char d) - 48) (radix_digits 10 n)"
    by (simp add: print_dec [OF n] dec_text_def)
  also have "\<dots> = radix_digits 10 n"
    using radix_digits_less [of 10 _ n] by (simp add: map_idI unat_dec_char)
  finally show ?thesis by (simp add: horner_radix_digits)
qed

lemma print_inject: "m < bound \<Longrightarrow> n < bound \<Longrightarrow> print m = print n \<Longrightarrow> m = n"
  by (metis print_read)

end

end
