(* ===== verification/Neo_Socket.thy ===== *)
theory Neo_Socket
  imports Neo_Syscall Neo_Digits
begin

text \<open>
  \<open>src/socket.c\<close>: the socket wrappers, the byte-order conversions, and the two conversions
  between dotted quads in memory and addresses. \<open>inet_addr\<close> and \<open>inet_ntoa_r\<close> work on the byte
  memory with the source's pointers.
\<close>

section \<open>Wrappers\<close>

abbreviation (input) SYS_SOCKET :: i64 where "SYS_SOCKET \<equiv> 45"
abbreviation (input) SYS_BIND :: i64 where "SYS_BIND \<equiv> 46"
abbreviation (input) SYS_CONNECT :: i64 where "SYS_CONNECT \<equiv> 47"
abbreviation (input) SYS_SENDTO :: i64 where "SYS_SENDTO \<equiv> 48"
abbreviation (input) SYS_RECVFROM :: i64 where "SYS_RECVFROM \<equiv> 49"
abbreviation (input) SYS_GETSOCKNAME :: i64 where "SYS_GETSOCKNAME \<equiv> 50"
abbreviation (input) SYS_LISTEN :: i64 where "SYS_LISTEN \<equiv> 83"
abbreviation (input) SYS_ACCEPT4 :: i64 where "SYS_ACCEPT4 \<equiv> 84"
abbreviation (input) SYS_SHUTDOWN :: i64 where "SYS_SHUTDOWN \<equiv> 85"
abbreviation (input) SYS_GETPEERNAME :: i64 where "SYS_GETPEERNAME \<equiv> 86"
abbreviation (input) SYS_SETSOCKOPT :: i64 where "SYS_SETSOCKOPT \<equiv> 87"
abbreviation (input) SYS_GETSOCKOPT :: i64 where "SYS_GETSOCKOPT \<equiv> 88"

definition socket :: "'k kernel \<Rightarrow> i32 \<Rightarrow> i32 \<Rightarrow> i32 \<Rightarrow> 'k machine \<Rightarrow> i32 \<times> 'k machine" where
  "socket K domain type protocol s =
     ret_int (neoos_syscall3 K SYS_SOCKET (sext domain) (sext type) (sext protocol) s)"

definition bind_c :: "'k kernel \<Rightarrow> i32 \<Rightarrow> addr \<Rightarrow> u32 \<Rightarrow> 'k machine \<Rightarrow> i32 \<times> 'k machine" where
  "bind_c K fd addr len s = ret_int (neoos_syscall3 K SYS_BIND (sext fd) addr (ucast len) s)"

definition connect :: "'k kernel \<Rightarrow> i32 \<Rightarrow> addr \<Rightarrow> u32 \<Rightarrow> 'k machine \<Rightarrow> i32 \<times> 'k machine" where
  "connect K fd addr len s = ret_int (neoos_syscall3 K SYS_CONNECT (sext fd) addr (ucast len) s)"

definition getsockname ::
  "'k kernel \<Rightarrow> i32 \<Rightarrow> addr \<Rightarrow> addr \<Rightarrow> 'k machine \<Rightarrow> i32 \<times> 'k machine" where
  "getsockname K fd addr len s = ret_int (neoos_syscall3 K SYS_GETSOCKNAME (sext fd) addr len s)"

definition listen :: "'k kernel \<Rightarrow> i32 \<Rightarrow> i32 \<Rightarrow> 'k machine \<Rightarrow> i32 \<times> 'k machine" where
  "listen K fd backlog s = ret_int (neoos_syscall3 K SYS_LISTEN (sext fd) (sext backlog) 0 s)"

definition accept4 ::
  "'k kernel \<Rightarrow> i32 \<Rightarrow> addr \<Rightarrow> addr \<Rightarrow> i32 \<Rightarrow> 'k machine \<Rightarrow> i32 \<times> 'k machine" where
  "accept4 K fd addr len flags s =
     ret_int (neoos_syscall6 K SYS_ACCEPT4 (sext fd) addr len (sext flags) 0 0 s)"

definition accept :: "'k kernel \<Rightarrow> i32 \<Rightarrow> addr \<Rightarrow> addr \<Rightarrow> 'k machine \<Rightarrow> i32 \<times> 'k machine" where
  "accept K fd addr len = accept4 K fd addr len 0"

definition shutdown :: "'k kernel \<Rightarrow> i32 \<Rightarrow> i32 \<Rightarrow> 'k machine \<Rightarrow> i32 \<times> 'k machine" where
  "shutdown K fd how s = ret_int (neoos_syscall3 K SYS_SHUTDOWN (sext fd) (sext how) 0 s)"

definition getpeername ::
  "'k kernel \<Rightarrow> i32 \<Rightarrow> addr \<Rightarrow> addr \<Rightarrow> 'k machine \<Rightarrow> i32 \<times> 'k machine" where
  "getpeername K fd addr len s = ret_int (neoos_syscall3 K SYS_GETPEERNAME (sext fd) addr len s)"

definition setsockopt ::
  "'k kernel \<Rightarrow> i32 \<Rightarrow> i32 \<Rightarrow> i32 \<Rightarrow> addr \<Rightarrow> u32 \<Rightarrow> 'k machine \<Rightarrow> i32 \<times> 'k machine" where
  "setsockopt K fd level opt val len s =
     ret_int (neoos_syscall6 K SYS_SETSOCKOPT (sext fd) (sext level) (sext opt) val (ucast len) 0 s)"

definition getsockopt ::
  "'k kernel \<Rightarrow> i32 \<Rightarrow> i32 \<Rightarrow> i32 \<Rightarrow> addr \<Rightarrow> addr \<Rightarrow> 'k machine \<Rightarrow> i32 \<times> 'k machine" where
  "getsockopt K fd level opt val len s =
     ret_int (neoos_syscall6 K SYS_GETSOCKOPT (sext fd) (sext level) (sext opt) val len 0 s)"

definition sendto ::
  "'k kernel \<Rightarrow> i32 \<Rightarrow> addr \<Rightarrow> u64 \<Rightarrow> i32 \<Rightarrow> addr \<Rightarrow> u32 \<Rightarrow> 'k machine \<Rightarrow> i64 \<times> 'k machine" where
  "sendto K fd buf len flags dest dest_len =
     neoos_syscall6 K SYS_SENDTO (sext fd) buf len (sext flags) dest (ucast dest_len)"

definition recvfrom ::
  "'k kernel \<Rightarrow> i32 \<Rightarrow> addr \<Rightarrow> u64 \<Rightarrow> i32 \<Rightarrow> addr \<Rightarrow> addr \<Rightarrow> 'k machine \<Rightarrow> i64 \<times> 'k machine" where
  "recvfrom K fd buf len flags src src_len =
     neoos_syscall6 K SYS_RECVFROM (sext fd) buf len (sext flags) src src_len"

definition send ::
  "'k kernel \<Rightarrow> i32 \<Rightarrow> addr \<Rightarrow> u64 \<Rightarrow> i32 \<Rightarrow> 'k machine \<Rightarrow> i64 \<times> 'k machine" where
  "send K fd buf len flags = sendto K fd buf len flags 0 0"

definition recv ::
  "'k kernel \<Rightarrow> i32 \<Rightarrow> addr \<Rightarrow> u64 \<Rightarrow> i32 \<Rightarrow> 'k machine \<Rightarrow> i64 \<times> 'k machine" where
  "recv K fd buf len flags = recvfrom K fd buf len flags 0 0"

section \<open>Byte order\<close>

text \<open>
  In \<open>htons\<close> the operand is promoted to \<open>int\<close> before the shifts, so \<open>v << 8\<close> keeps the high
  byte until the cast back to 16 bits drops it.
\<close>

definition htons :: "u16 \<Rightarrow> u16" where
  "htons v = ucast (push_bit 8 (ucast v :: i32) OR drop_bit 8 (ucast v :: i32))"

definition ntohs :: "u16 \<Rightarrow> u16" where
  "ntohs v = htons v"

definition htonl :: "u32 \<Rightarrow> u32" where
  "htonl v = push_bit 24 (v AND 0x000000FF) OR push_bit 8 (v AND 0x0000FF00) OR
             drop_bit 8 (v AND 0x00FF0000) OR drop_bit 24 (v AND 0xFF000000)"

definition ntohl :: "u32 \<Rightarrow> u32" where
  "ntohl v = htonl v"

section \<open>Dotted quads\<close>

text \<open>\<open>char\<close> is signed on x86-64, so the digit test compares signed bytes.\<close>

definition is_digit :: "u8 \<Rightarrow> bool" where
  "is_digit c \<longleftrightarrow> \<not> (c <s 48 \<or> 57 <s c)"

function octet_loop :: "mem \<Rightarrow> addr \<Rightarrow> u32 \<Rightarrow> nat \<Rightarrow> (u32 \<times> addr) option" where
  "octet_loop m s v digits =
     (if is_digit (m s) then
        let v' = v * 10 + (scast (m s) - 48) in
        if Suc digits > 3 \<or> v' > 255 then None else octet_loop m (s + 1) v' (Suc digits)
      else Some (v, s))"
  by pat_completeness auto
termination
  by (relation "measure (\<lambda>(m, s, v, digits). 3 - digits)") auto

function parts_loop :: "mem \<Rightarrow> addr \<Rightarrow> nat \<Rightarrow> u32 list \<Rightarrow> (u32 list \<times> addr) option" where
  "parts_loop m s n parts =
     (if n < 4 then
        if \<not> is_digit (m s) then None
        else case octet_loop m s 0 0 of
          None \<Rightarrow> None
        | Some (v, s') \<Rightarrow>
            if Suc n < 4 then
              if m s' \<noteq> 46 then None else parts_loop m (s' + 1) (Suc n) (parts @ [v])
            else parts_loop m s' (Suc n) (parts @ [v])
      else Some (parts, s))"
  by pat_completeness auto
termination
  by (relation "measure (\<lambda>(m, s, n, parts). 4 - n)") auto

definition inet_addr :: "mem \<Rightarrow> addr \<Rightarrow> u32" where
  "inet_addr m s =
     (case parts_loop m s 0 [] of
        None \<Rightarrow> 0xFFFFFFFF
      | Some (parts, s') \<Rightarrow>
          if m s' \<noteq> 0 then 0xFFFFFFFF
          else htonl (push_bit 24 (parts ! 0) OR push_bit 16 (parts ! 1) OR
                      push_bit 8 (parts ! 2) OR parts ! 3))"

definition put :: "u8 \<Rightarrow> mem \<times> addr \<Rightarrow> mem \<times> addr" where
  "put c = (\<lambda>(m, p). (m(p := c), p + 1))"

definition put_octet :: "u32 \<Rightarrow> mem \<times> addr \<Rightarrow> mem \<times> addr" where
  "put_octet octet st =
     (let st = (if octet \<ge> 100 then put (ucast (48 + octet div 100)) st else st);
          st = (if octet \<ge> 10 then put (ucast (48 + (octet div 10) mod 10)) st else st)
      in put (ucast (48 + octet mod 10)) st)"

definition ntoa_step :: "u32 \<Rightarrow> nat \<Rightarrow> mem \<times> addr \<Rightarrow> mem \<times> addr" where
  "ntoa_step h i st =
     (let st = put_octet (drop_bit (i * 8) h AND 0xFF) st in if i \<noteq> 0 then put 46 st else st)"

definition inet_ntoa_r :: "u32 \<Rightarrow> addr \<Rightarrow> mem \<Rightarrow> addr \<times> mem" where
  "inet_ntoa_r addr_n out m =
     (let h = ntohl addr_n; st = fold (ntoa_step h) [3, 2, 1, 0] (m, out)
      in (out, fst (put 0 st)))"

declare octet_loop.simps [simp del] parts_loop.simps [simp del]

section \<open>Byte order: lemmas\<close>

lemma byte_masks:
  "(0xFF :: u32) = mask 8" "(0xFF00 :: u32) = push_bit 8 (mask 8)"
  "(0xFF0000 :: u32) = push_bit 16 (mask 8)" "(0xFF000000 :: u32) = push_bit 24 (mask 8)"
  by (simp_all add: mask_eq_exp_minus_1 push_bit_eq_mult)

lemma bit_htons: "n < 16 \<Longrightarrow> bit (htons v) n \<longleftrightarrow> bit v (if n < 8 then n + 8 else n - 8)"
  unfolding htons_def by (auto simp: bit_simps ac_simps dest: bit_imp_le_length)

lemma bit_htonl:
  "n < 32 \<Longrightarrow> bit (htonl v) n \<longleftrightarrow>
     bit v (if n < 8 then n + 24 else if n < 16 then n + 8 else if n < 24 then n - 8 else n - 24)"
  unfolding htonl_def byte_masks by (auto simp: bit_simps ac_simps)

lemma htons_htons [simp]: "htons (htons v) = v"
  by (rule bit_word_eqI) (auto simp: bit_htons)

lemma htonl_htonl [simp]: "htonl (htonl v) = v"
  by (rule bit_word_eqI) (auto simp: bit_htonl)

lemma word_of_octets:
  "push_bit 24 (drop_bit 24 h AND 0xFF) OR push_bit 16 (drop_bit 16 h AND 0xFF) OR
     push_bit 8 (drop_bit 8 h AND 0xFF) OR (h AND 0xFF) = (h :: u32)"
  unfolding byte_masks
proof (rule bit_word_eqI)
  fix n assume "n < LENGTH(32)"
  consider "n < 8" | "8 \<le> n \<and> n < 16" | "16 \<le> n \<and> n < 24" | "24 \<le> n" by linarith
  then show "bit (push_bit 24 (drop_bit 24 h AND mask 8) OR push_bit 16 (drop_bit 16 h AND mask 8) OR
      push_bit 8 (drop_bit 8 h AND mask 8) OR h AND mask 8) n = bit h n"
    using \<open>n < LENGTH(32)\<close> by cases (auto simp: bit_simps)
qed

section \<open>Dotted quads: writing\<close>

definition octets :: "u32 \<Rightarrow> u32 list" where
  "octets h = map (\<lambda>i. drop_bit (i * 8) h AND 0xFF) [3, 2, 1, 0]"

definition quad_text :: "u32 \<Rightarrow> u8 list" where
  "quad_text h =
     dec_text (unat (octets h ! 0)) @ [46] @ dec_text (unat (octets h ! 1)) @ [46] @
     dec_text (unat (octets h ! 2)) @ [46] @ dec_text (unat (octets h ! 3))"

lemma dec_digit_cases:
  "d < (10 :: nat) \<Longrightarrow>
     d = 0 \<or> d = 1 \<or> d = 2 \<or> d = 3 \<or> d = 4 \<or> d = 5 \<or> d = 6 \<or> d = 7 \<or> d = 8 \<or> d = 9"
  by arith

lemma is_digit_dec_char [simp]: "d < 10 \<Longrightarrow> is_digit (dec_char d)"
  by (drule dec_digit_cases) (elim disjE, simp_all add: is_digit_def dec_char_def word_sless_alt)

lemma is_digit_dot_nul [simp]: "\<not> is_digit 46" "\<not> is_digit 0"
  by (simp_all add: is_digit_def word_sless_alt)

lemma scast_dec_char: "d < 10 \<Longrightarrow> (scast (dec_char d) - 48 :: u32) = of_nat d"
  by (drule dec_digit_cases) (elim disjE, simp_all add: dec_char_def)

lemma octet_less: "unat (drop_bit i (h :: u32) AND 0xFF) < 256"
proof -
  have "unat (drop_bit i h AND 0xFF) \<le> unat (0xFF :: u32)"
    by (rule word_and_le1 [THEN word_le_nat_alt [THEN iffD1]])
  then show ?thesis by simp
qed

lemma octet_less_0: "unat ((h :: u32) AND 0xFF) < 256"
  using octet_less [of 0 h] by simp

lemma dec_text_octet:
  "n < 256 \<Longrightarrow> dec_text n =
     (if n \<ge> 100 then [dec_char (n div 100)] else []) @
     (if n \<ge> 10 then [dec_char (n div 10 mod 10)] else []) @ [dec_char (n mod 10)]"
  by (auto simp: dec_text_def radix_digits.simps [of 10 n] radix_digits.simps [of 10 "n div 10"]
      radix_digits.simps [of 10 "n div 100"] div_mult2_eq [symmetric])

lemma ucast_plus_48:
  assumes "unat (w :: u32) < 10"
  shows "ucast (48 + w) = dec_char (unat w)"
proof -
  have "unat (48 + w) = 48 + unat w" using assms by (simp add: unat_word_ariths)
  then have "(of_nat (unat (48 + w)) :: u8) = dec_char (unat w)" by (simp add: dec_char_def)
  then show ?thesis by simp
qed

lemma fold_put: "fold put cs (m, p) = (store_bytes m p cs, p + of_nat (length cs))"
  by (induction cs arbitrary: m p) (auto simp: put_def algebra_simps)

lemma put_octet_text:
  assumes "unat octet < 256"
  shows "put_octet octet st = fold put (dec_text (unat octet)) st"
proof -
  let ?n = "unat octet"
  have "ucast (48 + octet div 100) = dec_char (?n div 100)"
    "ucast (48 + (octet div 10) mod 10) = dec_char (?n div 10 mod 10)"
    "ucast (48 + octet mod 10) = dec_char (?n mod 10)"
    using assms by (simp_all add: ucast_plus_48 unat_div unat_mod)
  moreover have "octet \<ge> 100 \<longleftrightarrow> ?n \<ge> 100" "octet \<ge> 10 \<longleftrightarrow> ?n \<ge> 10"
    by (simp_all add: word_le_nat_alt)
  ultimately show ?thesis
    using dec_text_octet [OF assms] by (simp add: put_octet_def Let_def)
qed

lemma inet_ntoa_r_text:
  "inet_ntoa_r a out m = (out, store_bytes m out (quad_text (ntohl a) @ [0]))"
proof -
  have "fold (ntoa_step h) [3, 2, 1, 0] st = fold put (quad_text h) st" for h st
    by (simp add: ntoa_step_def quad_text_def octets_def put_octet_text octet_less octet_less_0 Let_def)
  then have "put 0 (fold (ntoa_step h) [3, 2, 1, 0] st) = fold put (quad_text h @ [0]) st" for h st
    by simp
  then show ?thesis
    by (simp only: inet_ntoa_r_def Let_def fold_put fst_conv)
qed

section \<open>Dotted quads: reading\<close>

lemma octet_loop_digits:
  "bytes_at m s (map dec_char ds) \<Longrightarrow> \<forall>d\<in>set ds. d < 10 \<Longrightarrow>
     \<not> is_digit (m (s + of_nat (length ds))) \<Longrightarrow> horner 10 v ds \<le> 255 \<Longrightarrow> k + length ds \<le> 3 \<Longrightarrow>
     octet_loop m s (of_nat v) k = Some (of_nat (horner 10 v ds), s + of_nat (length ds))"
proof (induction ds arbitrary: s v k)
  case Nil
  then show ?case by (subst octet_loop.simps) simp
next
  case (Cons d ds)
  have "v * 10 + d \<le> horner 10 (v * 10 + d) ds" by (rule horner_mono) simp
  with Cons.prems have small: "v * 10 + d \<le> 255" by simp
  have v: "of_nat v * 10 + (scast (dec_char d) - 48) = (of_nat (v * 10 + d) :: u32)"
    using Cons.prems by (simp add: scast_dec_char)
  have "\<not> (of_nat (v * 10 + d) :: u32) > 255"
    using small by (simp add: word_less_nat_alt unat_of_nat take_bit_eq_mod del: of_nat_add of_nat_mult)
  then have "octet_loop m s (of_nat v) k = octet_loop m (s + 1) (of_nat (v * 10 + d)) (Suc k)"
    using Cons.prems by (subst octet_loop.simps) (simp add: v Let_def del: of_nat_add of_nat_mult)
  also have "\<dots> = Some (of_nat (horner 10 (v * 10 + d) ds), s + 1 + of_nat (length ds))"
    using Cons.prems by (intro Cons.IH) (auto simp: algebra_simps)
  finally show ?case by (simp add: algebra_simps)
qed

lemma octet_loop_text:
  assumes "bytes_at m s (dec_text n)" and "n < 256"
    and "\<not> is_digit (m (s + of_nat (length (dec_text n))))"
  shows "octet_loop m s 0 0 = Some (of_nat n, s + of_nat (length (dec_text n))) \<and> is_digit (m s)"
proof
  have "length (radix_digits 10 n) \<le> 3"
    using length_radix_digits [of 10 n 2] assms(2) by simp
  then show "octet_loop m s 0 0 = Some (of_nat n, s + of_nat (length (dec_text n)))"
    using octet_loop_digits [of m s "radix_digits 10 n" 0 0] assms radix_digits_less [of 10 _ n]
    by (simp add: dec_text_def horner_radix_digits)
  obtain d ds where "radix_digits 10 n = d # ds" by (cases "radix_digits 10 n") auto
  with assms(1) radix_digits_less [of 10 d n] show "is_digit (m s)" by (simp add: dec_text_def)
qed

lemma inet_addr_text:
  assumes "bytes_at m s (quad_text h @ [0])"
  shows "inet_addr m s = htonl h"
proof -
  let ?o = "\<lambda>i. unat (octets h ! i)" and ?l = "\<lambda>n. of_nat (length (dec_text n)) :: u64"
  let ?s1 = "s + ?l (?o 0) + 1"
  let ?s2 = "?s1 + ?l (?o 1) + 1"
  let ?s3 = "?s2 + ?l (?o 2) + 1"
  let ?s4 = "?s3 + ?l (?o 3)"
  have at: "bytes_at m s (dec_text (?o 0))" "m (s + ?l (?o 0)) = 46"
    "bytes_at m ?s1 (dec_text (?o 1))" "m (?s1 + ?l (?o 1)) = 46"
    "bytes_at m ?s2 (dec_text (?o 2))" "m (?s2 + ?l (?o 2)) = 46"
    "bytes_at m ?s3 (dec_text (?o 3))" "m ?s4 = 0"
    using assms by (simp_all add: quad_text_def algebra_simps)
  have less: "?o 0 < 256" "?o 1 < 256" "?o 2 < 256" "?o 3 < 256"
    using octet_less octet_less_0 by (simp_all add: octets_def)
  note oct = octet_loop_text [OF at(1) less(1)] octet_loop_text [OF at(3) less(2)]
    octet_loop_text [OF at(5) less(3)] octet_loop_text [OF at(7) less(4)]
  have "parts_loop m s 0 [] = Some (octets h, ?s4)"
    using oct at
    by (simp add: parts_loop.simps octets_def)
  then show ?thesis
    using at(8) word_of_octets [of h] by (simp add: inet_addr_def octets_def or.assoc)
qed

lemma is_digit_dest:
  assumes "is_digit c"
  obtains d where "d < 10" and "c = dec_char d"
proof -
  have "48 \<le> sint c" "sint c \<le> 57" using assms by (auto simp: is_digit_def word_sless_alt)
  then have "uint c = sint c"
    by (simp add: uint_sint [of c] take_bit_int_eq_self)
  moreover have "int (unat c) = uint c" by simp
  ultimately have range: "48 \<le> unat c \<and> unat c \<le> 57"
    using \<open>48 \<le> sint c\<close> \<open>sint c \<le> 57\<close> by linarith
  then have "unat c - 48 < 10" by linarith
  moreover have "c = dec_char (unat c - 48)"
    using range by (simp add: dec_char_def word_unat_eq_iff unat_of_nat take_bit_eq_mod del: of_nat_add)
  ultimately show thesis by (rule that)
qed

text \<open>One decimal group of a dotted quad: one to three digits with a value of at most 255.\<close>

definition quad_group :: "nat list \<Rightarrow> bool" where
  "quad_group ds \<longleftrightarrow>
     ds \<noteq> [] \<and> length ds \<le> 3 \<and> (\<forall>d\<in>set ds. d < 10) \<and> horner 10 0 ds \<le> 255"

lemma octet_loop_SomeD:
  "octet_loop m s v k = Some (w, s') \<Longrightarrow> unat v \<le> 255 \<Longrightarrow>
     \<exists>ds. bytes_at m s (map dec_char ds) \<and> (\<forall>d\<in>set ds. d < 10) \<and> s' = s + of_nat (length ds) \<and>
       \<not> is_digit (m s') \<and> (ds \<noteq> [] \<longrightarrow> k + length ds \<le> 3) \<and>
       unat w = horner 10 (unat v) ds \<and> unat w \<le> 255"
proof (induction m s v k rule: octet_loop.induct)
  case (1 m s v k)
  show ?case
  proof (cases "is_digit (m s)")
    case False
    with 1 have "w = v \<and> s' = s" by (simp add: octet_loop.simps [of m s v k])
    with False "1.prems" show ?thesis by (intro exI [of _ "[]"]) auto
  next
    case True
    then obtain d where d: "d < 10" "m s = dec_char d" by (rule is_digit_dest)
    let ?v = "v * 10 + (scast (m s) - 48)"
    have "?v = of_nat (unat v * 10 + d)" using d by (simp add: scast_dec_char)
    then have uv: "unat ?v = unat v * 10 + d"
      using "1.prems"(2) d(1)
      by (simp add: unat_of_nat take_bit_eq_mod del: of_nat_add of_nat_mult)
    have ok: "\<not> (Suc k > 3 \<or> ?v > 255)" and
      rec: "octet_loop m (s + 1) ?v (Suc k) = Some (w, s')"
      using True "1.prems"(1) by (auto simp: octet_loop.simps [of m s v k] Let_def split: if_splits)
    then have "unat ?v \<le> 255" by (simp add: word_less_nat_alt)
    from "1.IH" [OF True refl ok rec this] obtain ds where
      "bytes_at m (s + 1) (map dec_char ds)" "\<forall>d\<in>set ds. d < 10"
      "s' = s + 1 + of_nat (length ds)" "\<not> is_digit (m s')" "ds \<noteq> [] \<longrightarrow> Suc k + length ds \<le> 3"
      "unat w = horner 10 (unat v * 10 + d) ds" "unat w \<le> 255"
      unfolding uv by blast
    then show ?thesis using d ok
      by (intro exI [of _ "d # ds"]) (auto simp: algebra_simps)
  qed
qed

lemma octet_loop_group:
  assumes "is_digit (m s)" and "octet_loop m s 0 0 = Some (w, s')"
  obtains ds where "quad_group ds" and "bytes_at m s (map dec_char ds)"
    and "s' = s + of_nat (length ds)" and "w = of_nat (horner 10 0 ds)"
proof -
  have "unat (0 :: u32) \<le> 255" by simp
  from octet_loop_SomeD [OF assms(2) this] obtain ds where
    ds: "bytes_at m s (map dec_char ds)" "\<forall>d\<in>set ds. d < 10" "s' = s + of_nat (length ds)"
      "\<not> is_digit (m s')" "ds \<noteq> [] \<longrightarrow> 0 + length ds \<le> 3" "unat w = horner 10 0 ds" "unat w \<le> 255"
    unfolding unsigned_0 by blast
  have "ds \<noteq> []" using ds(3,4) assms(1) by auto
  moreover have "w = of_nat (horner 10 0 ds)" using ds(6) by (metis of_nat_unat ucast_id)
  ultimately show thesis using ds that by (simp add: quad_group_def)
qed

definition quad_groups_text :: "nat list \<Rightarrow> nat list \<Rightarrow> nat list \<Rightarrow> nat list \<Rightarrow> u8 list" where
  "quad_groups_text as bs cs ds =
     map dec_char as @ [46] @ map dec_char bs @ [46] @ map dec_char cs @ [46] @ map dec_char ds @ [0]"

definition quad_value :: "nat list \<Rightarrow> nat list \<Rightarrow> nat list \<Rightarrow> nat list \<Rightarrow> u32" where
  "quad_value as bs cs ds =
     push_bit 24 (of_nat (horner 10 0 as)) OR push_bit 16 (of_nat (horner 10 0 bs)) OR
     push_bit 8 (of_nat (horner 10 0 cs)) OR of_nat (horner 10 0 ds)"

lemma inet_addr_accepts:
  assumes "inet_addr m s \<noteq> 0xFFFFFFFF"
  shows "\<exists>as bs cs ds. quad_group as \<and> quad_group bs \<and> quad_group cs \<and> quad_group ds \<and>
           bytes_at m s (quad_groups_text as bs cs ds) \<and> inet_addr m s = htonl (quad_value as bs cs ds)"
proof -
  from assms obtain parts s' where p: "parts_loop m s 0 [] = Some (parts, s')" and nul: "m s' = 0"
    by (auto simp: inet_addr_def split: option.splits if_splits)
  from p obtain v1 s1 where 1: "is_digit (m s)" "octet_loop m s 0 0 = Some (v1, s1)" "m s1 = 46"
    and p1: "parts_loop m (s1 + 1) 1 [v1] = Some (parts, s')"
    by (subst (asm) parts_loop.simps) (auto split: option.splits if_splits)
  from p1 obtain v2 s2 where 2: "is_digit (m (s1 + 1))" "octet_loop m (s1 + 1) 0 0 = Some (v2, s2)"
      "m s2 = 46"
    and p2: "parts_loop m (s2 + 1) 2 [v1, v2] = Some (parts, s')"
    by (subst (asm) parts_loop.simps) (auto split: option.splits if_splits simp: numeral_2_eq_2)
  from p2 obtain v3 s3 where 3: "is_digit (m (s2 + 1))" "octet_loop m (s2 + 1) 0 0 = Some (v3, s3)"
      "m s3 = 46"
    and p3: "parts_loop m (s3 + 1) 3 [v1, v2, v3] = Some (parts, s')"
    by (subst (asm) parts_loop.simps) (auto split: option.splits if_splits simp: numeral_3_eq_3)
  from p3 obtain v4 where 4: "is_digit (m (s3 + 1))" "octet_loop m (s3 + 1) 0 0 = Some (v4, s')"
    and parts: "parts = [v1, v2, v3, v4]"
    by (subst (asm) parts_loop.simps)
      (auto split: option.splits if_splits simp: parts_loop.simps [of m _ 4])
  from octet_loop_group [OF 1(1,2)] obtain as where as: "quad_group as"
    "bytes_at m s (map dec_char as)" "s1 = s + of_nat (length as)" "v1 = of_nat (horner 10 0 as)" by metis
  from octet_loop_group [OF 2(1,2)] obtain bs where bs: "quad_group bs"
    "bytes_at m (s1 + 1) (map dec_char bs)" "s2 = s1 + 1 + of_nat (length bs)"
    "v2 = of_nat (horner 10 0 bs)" by metis
  from octet_loop_group [OF 3(1,2)] obtain cs where cs: "quad_group cs"
    "bytes_at m (s2 + 1) (map dec_char cs)" "s3 = s2 + 1 + of_nat (length cs)"
    "v3 = of_nat (horner 10 0 cs)" by metis
  from octet_loop_group [OF 4] obtain ds where ds: "quad_group ds"
    "bytes_at m (s3 + 1) (map dec_char ds)" "s' = s3 + 1 + of_nat (length ds)"
    "v4 = of_nat (horner 10 0 ds)" by metis
  have "bytes_at m s (quad_groups_text as bs cs ds)"
    using as(2,3) bs(2,3) cs(2,3) ds(2,3) 1(3) 2(3) 3(3) nul
    by (simp add: quad_groups_text_def algebra_simps)
  moreover have "inet_addr m s = htonl (quad_value as bs cs ds)"
    using p nul parts as(4) bs(4) cs(4) ds(4) by (simp add: inet_addr_def quad_value_def)
  ultimately show ?thesis using as(1) bs(1) cs(1) ds(1) by blast
qed

lemma octet_loop_quad:
  assumes "quad_group ds" and "bytes_at m s (map dec_char ds)" and "\<not> is_digit (m (s + of_nat (length ds)))"
  shows "octet_loop m s 0 0 = Some (of_nat (horner 10 0 ds), s + of_nat (length ds)) \<and> is_digit (m s)"
proof
  show "octet_loop m s 0 0 = Some (of_nat (horner 10 0 ds), s + of_nat (length ds))"
    using octet_loop_digits [of m s ds 0 0] assms by (simp add: quad_group_def)
  obtain d ds' where "ds = d # ds'" using assms(1) by (cases ds) (auto simp: quad_group_def)
  with assms(1,2) show "is_digit (m s)" by (simp add: quad_group_def)
qed

lemma inet_addr_quad:
  assumes "quad_group as" "quad_group bs" "quad_group cs" "quad_group ds"
    and "bytes_at m s (quad_groups_text as bs cs ds)"
  shows "inet_addr m s = htonl (quad_value as bs cs ds)"
proof -
  let ?l = "\<lambda>xs :: nat list. of_nat (length xs) :: u64" and ?h = "\<lambda>xs. of_nat (horner 10 0 xs) :: u32"
  let ?s1 = "s + ?l as + 1"
  let ?s2 = "?s1 + ?l bs + 1"
  let ?s3 = "?s2 + ?l cs + 1"
  let ?s4 = "?s3 + ?l ds"
  have at: "bytes_at m s (map dec_char as)" "m (s + ?l as) = 46"
    "bytes_at m ?s1 (map dec_char bs)" "m (?s1 + ?l bs) = 46"
    "bytes_at m ?s2 (map dec_char cs)" "m (?s2 + ?l cs) = 46"
    "bytes_at m ?s3 (map dec_char ds)" "m ?s4 = 0"
    using assms(5) by (simp_all add: quad_groups_text_def algebra_simps)
  note oct = octet_loop_quad [OF assms(1) at(1)] octet_loop_quad [OF assms(2) at(3)]
    octet_loop_quad [OF assms(3) at(5)] octet_loop_quad [OF assms(4) at(7)]
  have "parts_loop m s 0 [] = Some ([?h as, ?h bs, ?h cs, ?h ds], ?s4)"
    using oct at by (simp add: parts_loop.simps)
  then show ?thesis using at(8) by (simp add: inet_addr_def quad_value_def)
qed

lemma length_quad_text: "length (quad_text h) \<le> 15"
proof -
  have "length (dec_text n) \<le> 3" if "n < 256" for n
    using length_radix_digits [of 10 n 2] that by (simp add: dec_text_def)
  from this [OF octet_less [of 24 h]] this [OF octet_less [of 16 h]]
    this [OF octet_less [of 8 h]] this [OF octet_less_0 [of h]]
  show ?thesis by (simp add: quad_text_def octets_def)
qed

lemma inet_addr_ntoa: "inet_addr (snd (inet_ntoa_r a out m)) out = a"
proof -
  have "bytes_at (snd (inet_ntoa_r a out m)) out (quad_text (ntohl a) @ [0])"
    using length_quad_text [of "ntohl a"]
    unfolding inet_ntoa_r_text snd_conv by (intro bytes_at_store) simp
  then show ?thesis by (simp add: inet_addr_text ntohl_def)
qed

section \<open>Properties\<close>

text \<open>
  The byte-order conversions are their own inverses, and they reverse the bytes: \<open>htonl\<close>
  puts the most significant byte first in memory on a little-endian machine.
\<close>

lemma byte_order_involutive:
  "ntohs (htons v) = v \<and> htons (ntohs v) = v \<and> ntohl (htonl w) = w \<and> htonl (ntohl w) = w \<and>
   ucast (htons v) = (ucast (drop_bit 8 v) :: u8) \<and> ucast (htonl w) = (ucast (drop_bit 24 w) :: u8)"
proof -
  have "ucast (htons v) = (ucast (drop_bit 8 v) :: u8)"
    by (rule bit_word_eqI) (auto simp: bit_simps bit_htons ac_simps)
  moreover have "ucast (htonl w) = (ucast (drop_bit 24 w) :: u8)"
    by (rule bit_word_eqI) (auto simp: bit_simps bit_htonl ac_simps)
  ultimately show ?thesis by (simp add: ntohs_def ntohl_def)
qed

text \<open>
  C24. Round trip: \<open>inet_ntoa_r\<close> writes a dotted quad of at most 16 bytes, NUL included, returns its
  buffer, changes no other byte, and \<open>inet_addr\<close> reads exactly the same address back, for every
  32-bit address and every buffer.
\<close>

theorem inet_ntoa_addr_roundtrip:
  "fst (inet_ntoa_r a out m) = out \<and>
   inet_addr (snd (inet_ntoa_r a out m)) out = a \<and>
   (\<forall>x. (\<forall>i. i < 16 \<longrightarrow> x \<noteq> out + of_nat i) \<longrightarrow> snd (inet_ntoa_r a out m) x = m x)"
proof (intro conjI allI impI)
  fix x assume far: "\<forall>i. i < 16 \<longrightarrow> x \<noteq> out + of_nat i"
  show "snd (inet_ntoa_r a out m) x = m x"
    unfolding inet_ntoa_r_text snd_conv
    using length_quad_text [of "ntohl a"] far by (intro store_bytes_other) simp
qed (simp add: inet_ntoa_r_text, rule inet_addr_ntoa)

theorem inet_ntoa_addr_roundtrip_witness:
  "inet_addr (snd (inet_ntoa_r 0x0100007F 64 (\<lambda>_. 7))) 64 = 0x0100007F \<and>
   snd (inet_ntoa_r 0x0100007F 64 (\<lambda>_. 7)) 63 = 7"
proof -
  have *: "unat (63 :: u64) = 63" by simp
  have "(\<forall>i. i < 16 \<longrightarrow> (63 :: u64) \<noteq> 64 + of_nat i)"
  proof (intro allI impI notI)
    fix i :: nat assume "i < 16" "(63 :: u64) = 64 + of_nat i"
    then have "unat (64 + of_nat i :: u64) = 63" using * by metis
    moreover have "unat (64 + of_nat i :: u64) = 64 + i"
      using \<open>i < 16\<close> unat_plus_no_wrap [of 64 "of_nat i"] by simp
    ultimately show False by simp
  qed
  with inet_ntoa_addr_roundtrip [of "0x0100007F" 64 "\<lambda>_. 7"] show ?thesis by blast
qed

text \<open>
  C25. \<open>inet_addr\<close> reads exactly the dotted quads. A string is a dotted quad when it is four groups of
  one to three decimal digits, each at most 255, separated by single dots and followed by the NUL. On
  every such string \<open>inet_addr\<close> returns the address it spells, in network order; on every other string it
  returns the error value. (The quad 255.255.255.255 spells the error value.)
\<close>

theorem inet_addr_reads_exactly_quads:
  "(\<forall>as bs cs ds. quad_group as \<and> quad_group bs \<and> quad_group cs \<and> quad_group ds \<and>
      bytes_at m s (quad_groups_text as bs cs ds) \<longrightarrow> inet_addr m s = htonl (quad_value as bs cs ds)) \<and>
   ((\<nexists>as bs cs ds. quad_group as \<and> quad_group bs \<and> quad_group cs \<and> quad_group ds \<and>
      bytes_at m s (quad_groups_text as bs cs ds)) \<longrightarrow> inet_addr m s = 0xFFFFFFFF)"
  using inet_addr_quad inet_addr_accepts by blast

theorem inet_addr_reads_exactly_quads_witness:
  "inet_addr (store_bytes (\<lambda>_. 0) 64 [50, 53, 53, 46, 48, 46, 48, 55, 46, 49, 48]) 64 = 0x0A0700FF \<and>
   inet_addr (\<lambda>_. 0) 64 = 0xFFFFFFFF"
proof
  let ?m = "store_bytes (\<lambda>_. 0) 64 [50, 53, 53, 46, 48, 46, 48, 55, 46, 49, 48] :: mem"
  have "quad_group [2, 5, 5] \<and> quad_group [0] \<and> quad_group [0, 7] \<and> quad_group [1, 0]" by (simp add: quad_group_def)
  moreover have "bytes_at ?m 64 (quad_groups_text [2, 5, 5] [0] [0, 7] [1, 0])"
    by (simp add: quad_groups_text_def dec_char_def)
  ultimately have "inet_addr ?m 64 = htonl (quad_value [2, 5, 5] [0] [0, 7] [1, 0])"
    using inet_addr_reads_exactly_quads [of ?m 64] by blast
  also have "\<dots> = 0x0A0700FF" by (simp add: quad_value_def) code_simp
  finally show "inet_addr ?m 64 = 0x0A0700FF" .
  have False if "quad_group as" "bytes_at (\<lambda>_. 0) 64 (quad_groups_text as bs cs ds)" for as bs cs ds
  proof -
    from that(1) obtain d ds' where "as = d # ds'" "d < 10" by (cases as) (auto simp: quad_group_def)
    with that(2) is_digit_dec_char [of d] show False by (auto simp: quad_groups_text_def)
  qed
  then show "inet_addr (\<lambda>_. 0) 64 = 0xFFFFFFFF" using inet_addr_reads_exactly_quads [of "\<lambda>_. 0" 64] by blast
qed

end
