(* ===== verification/Neo_Futex.thy ===== *)
theory Neo_Futex
  imports Neo_Kernel
begin

text \<open>
  The futex as the synchronisation primitives see it (\<open>include/futex.h\<close>), for the interleaving
  models of \<open>pthread.c\<close> and \<open>semaphore.c\<close>. The kernel's side is a parameter: which answers it
  may give to a wait and whom it may wake. What the header promises of it is \<open>futex_documented\<close>;
  a theorem that needs the promise has it as a hypothesis.

  \<^item> \<open>may_sleep K cur expected\<close>: a wait that finds the word at \<open>cur\<close> may put the caller to sleep;
  \<^item> \<open>may_wake K sleepers count woken\<close>: a wake of \<open>count\<close> may end the sleep of exactly \<open>woken\<close>.

  A wait may return at any time without a wake (the header: wakeups may be spurious), so no
  parameter restricts that. Threads are interleaved at their atomic operations, each of which is
  one step on the shared word; this is what the \<open>__atomic\<close> builtins with acquire and release
  ordering on a single word give on x86-64.
\<close>

record 't futex_kernel =
  may_sleep :: "i32 \<Rightarrow> i32 \<Rightarrow> bool"
  may_wake :: "'t set \<Rightarrow> i32 \<Rightarrow> 't set \<Rightarrow> bool"

text \<open>
  The promises of \<open>include/futex.h\<close>: the caller sleeps only while the word is as expected (the
  comparison is made under the lock a wake must take), and a wake of \<open>count\<close> ends the sleep of
  up to \<open>count\<close> waiters, stopping only when there are no more.
\<close>

definition futex_documented :: "'t futex_kernel \<Rightarrow> bool" where
  "futex_documented K \<longleftrightarrow>
     (\<forall>cur expected. may_sleep K cur expected \<longrightarrow> cur = expected) \<and>
     (\<forall>S n W. may_wake K S n W \<longrightarrow> W \<subseteq> S \<and> card W = min (nat (sint n)) (card S))"

lemma futex_sleepD: "futex_documented K \<Longrightarrow> may_sleep K cur expected \<Longrightarrow> cur = expected"
  by (auto simp: futex_documented_def)

lemma futex_wake_subset: "futex_documented K \<Longrightarrow> may_wake K S n W \<Longrightarrow> W \<subseteq> S"
  by (auto simp: futex_documented_def)

lemma futex_wake_one:
  fixes S :: "'t::finite set"
  assumes "futex_documented K" and "may_wake K S 1 W" and "S \<noteq> {}"
  shows "\<exists>t. W = {t} \<and> t \<in> S"
proof -
  have "0 < card S" using assms(3) by (simp add: card_gt_0_iff)
  moreover have "W \<subseteq> S" "card W = min 1 (card S)"
    using assms(1,2) by (auto simp: futex_documented_def)
  ultimately show ?thesis by (auto simp: card_1_singleton_iff min_def split: if_splits)
qed

lemma futex_wake_all:
  fixes S :: "'t::finite set"
  assumes "futex_documented K" and "may_wake K S n W" and "int (card S) \<le> sint n"
  shows "W = S"
proof (rule card_subset_eq)
  show "W \<subseteq> S" "card W = card S"
    using assms by (auto simp: futex_documented_def)
qed simp

text \<open>A kernel that keeps the promises, for concrete runs.\<close>

definition exact_futex :: "'t futex_kernel" where
  "exact_futex = \<lparr>may_sleep = (=),
     may_wake = (\<lambda>S n W. W \<subseteq> S \<and> card W = min (nat (sint n)) (card S))\<rparr>"

lemma exact_futex_documented [simp]: "futex_documented exact_futex"
  by (simp add: futex_documented_def exact_futex_def)

end
