(* ===== verification/Neo_Mutex.thy ===== *)
theory Neo_Mutex
  imports Neo_Futex
begin

text \<open>
  The mutex of \<open>src/pthread.c\<close>: Drepper's three-state futex mutex. The shared word is 0
  (unlocked), 1 (locked, nobody has slept on it) or 2 (locked, somebody may sleep). Any number of
  threads (a finite type) run \<open>lock\<close>, \<open>trylock\<close> and \<open>unlock\<close> on one mutex, interleaved at every
  atomic operation; an unlock is only called by the thread that holds the lock.

  A thread's program counter names the operation it executes next:
  \<^item> \<open>MOut r\<close>, \<open>MHeld r\<close>: in the caller's code, without and with the lock, after a call
    returned \<open>r\<close>;
  \<^item> \<open>LCas\<close>, \<open>LXchg\<close>, \<open>LWait\<close>, \<open>LSleep\<close>: in \<open>pthread_mutex_lock\<close>, at the compare-exchange,
    at the exchange, at the call of \<open>futex_wait\<close>, and asleep in it;
  \<^item> \<open>TCas\<close>: in \<open>pthread_mutex_trylock\<close>, at the compare-exchange;
  \<^item> \<open>UDec\<close>, \<open>UStore\<close>, \<open>UWake\<close>: in \<open>pthread_mutex_unlock\<close>, at the fetch-sub, the store, and
    the call of \<open>futex_wake\<close>.
\<close>

section \<open>The model\<close>

datatype mpc = MOut i32 | MHeld i32 | LCas | LXchg | LWait | LSleep | TCas | UDec | UStore | UWake

record 't mutex_state =
  mword :: i32
  mpcs :: "'t \<Rightarrow> mpc"

definition pthread_mutex_init :: "addr \<Rightarrow> addr \<Rightarrow> i32 \<Rightarrow> i32 \<times> i32" where
  "pthread_mutex_init m attr w =
     (if m = 0 then (- EINVAL, w) else if attr \<noteq> 0 then (- EINVAL, w) else (0, 0))"

definition pthread_mutex_destroy :: "addr \<Rightarrow> i32" where
  "pthread_mutex_destroy m = (if m = 0 then - EINVAL else 0)"

text \<open>Where a call starts: each function first rejects a null pointer.\<close>

definition pthread_mutex_trylock :: "addr \<Rightarrow> mpc" where
  "pthread_mutex_trylock m = (if m = 0 then MOut (- EINVAL) else TCas)"

definition pthread_mutex_lock :: "addr \<Rightarrow> mpc" where
  "pthread_mutex_lock m = (if m = 0 then MOut (- EINVAL) else LCas)"

definition pthread_mutex_unlock :: "addr \<Rightarrow> mpc" where
  "pthread_mutex_unlock m = (if m = 0 then MHeld (- EINVAL) else UDec)"

text \<open>
  The atomic operations on the word, one per program counter: from the counter and the word to
  the next counter and the new word. In \<open>LCas\<close> a failed compare-exchange leaves the word's value
  in \<open>c\<close>; the exchange that follows is skipped when \<open>c\<close> is already 2. In \<open>UDec\<close> the value before
  the subtraction decides whether a wake is due.
\<close>

fun mutex_atomic :: "mpc \<Rightarrow> i32 \<Rightarrow> (mpc \<times> i32) option" where
  "mutex_atomic TCas w = Some (if w = 0 then (MHeld 0, 1) else (MOut (- EBUSY), w))"
| "mutex_atomic LCas w =
     Some (if w = 0 then (MHeld 0, 1) else if w \<noteq> 2 then (LXchg, w) else (LWait, w))"
| "mutex_atomic LXchg w = Some (if w \<noteq> 0 then LWait else MHeld 0, 2)"
| "mutex_atomic UDec w = Some (if w \<noteq> 1 then UStore else MOut 0, w - 1)"
| "mutex_atomic UStore w = Some (UWake, 0)"
| "mutex_atomic _ w = None"

definition msleepers :: "'t mutex_state \<Rightarrow> 't set" where
  "msleepers s = {t. mpcs s t = LSleep}"

inductive mutex_step :: "'t futex_kernel \<Rightarrow> 't mutex_state \<Rightarrow> 't mutex_state \<Rightarrow> bool"
  for K :: "'t futex_kernel" where
  call_lock: "mpcs s t = MOut r \<Longrightarrow>
     mutex_step K s (s\<lparr>mpcs := (mpcs s)(t := pthread_mutex_lock m)\<rparr>)"
| call_trylock: "mpcs s t = MOut r \<Longrightarrow>
     mutex_step K s (s\<lparr>mpcs := (mpcs s)(t := pthread_mutex_trylock m)\<rparr>)"
| call_unlock: "mpcs s t = MHeld r \<Longrightarrow>
     mutex_step K s (s\<lparr>mpcs := (mpcs s)(t := pthread_mutex_unlock m)\<rparr>)"
| atomic: "mutex_atomic (mpcs s t) (mword s) = Some (pc', w') \<Longrightarrow>
     mutex_step K s (s\<lparr>mword := w', mpcs := (mpcs s)(t := pc')\<rparr>)"
| sleep: "mpcs s t = LWait \<Longrightarrow> may_sleep K (mword s) 2 \<Longrightarrow>
     mutex_step K s (s\<lparr>mpcs := (mpcs s)(t := LSleep)\<rparr>)"
| wait_returns: "mpcs s t = LWait \<Longrightarrow> mutex_step K s (s\<lparr>mpcs := (mpcs s)(t := LXchg)\<rparr>)"
| spurious: "mpcs s t = LSleep \<Longrightarrow> mutex_step K s (s\<lparr>mpcs := (mpcs s)(t := LXchg)\<rparr>)"
| wake: "mpcs s t = UWake \<Longrightarrow> may_wake K (msleepers s) 1 W \<Longrightarrow>
     mutex_step K s (s\<lparr>mpcs := (\<lambda>u. if u = t then MOut 0
                                     else if u \<in> W \<and> u \<in> msleepers s then LXchg else mpcs s u)\<rparr>)"

definition mutex_initial :: "'t mutex_state \<Rightarrow> bool" where
  "mutex_initial s \<longleftrightarrow> mword s = 0 \<and> (\<forall>t. \<exists>r. mpcs s t = MOut r)"

section \<open>Mutual exclusion\<close>

text \<open>
  A thread owns the mutex from the operation that acquired it up to the one that gives it up,
  the successful \<open>fetch_sub\<close> from 1 or the store of 0.
\<close>

definition owns :: "mpc \<Rightarrow> bool" where
  "owns pc \<longleftrightarrow> (\<exists>r. pc = MHeld r) \<or> pc = UDec \<or> pc = UStore"

lemma owns_simps [simp]:
  "\<not> owns (MOut r)" "owns (MHeld r)" "\<not> owns LCas" "\<not> owns LXchg" "\<not> owns LWait" "\<not> owns LSleep"
  "\<not> owns TCas" "owns UDec" "owns UStore" "\<not> owns UWake"
  "\<not> owns (pthread_mutex_lock m)" "\<not> owns (pthread_mutex_trylock m)"
  "owns (pthread_mutex_unlock m)"
  by (auto simp: owns_def pthread_mutex_lock_def pthread_mutex_trylock_def
      pthread_mutex_unlock_def)

definition owners :: "'t mutex_state \<Rightarrow> 't set" where
  "owners s = {t. owns (mpcs s t)}"

lemma owners_upd [simp]:
  "owners (s\<lparr>mword := w, mpcs := (mpcs s)(t := pc)\<rparr>) =
     (if owns pc then insert t (owners s) else owners s - {t})"
  "owners (s\<lparr>mpcs := (mpcs s)(t := pc)\<rparr>) =
     (if owns pc then insert t (owners s) else owners s - {t})"
  by (auto simp: owners_def)

lemma owners_wake:
  "mpcs s t = UWake \<Longrightarrow>
     owners (s\<lparr>mpcs := (\<lambda>u. if u = t then MOut 0
                            else if u \<in> W \<and> u \<in> msleepers s then LXchg else mpcs s u)\<rparr>) = owners s"
  by (auto simp: owners_def msleepers_def)

definition mutex_inv :: "'t mutex_state \<Rightarrow> bool" where
  "mutex_inv s \<longleftrightarrow>
     (mword s = 0 \<and> owners s = {}) \<or> (mword s \<in> {1, 2} \<and> (\<exists>t. owners s = {t}))"

lemma mutex_inv_cases:
  assumes "mutex_inv s"
  obtains (free) "mword s = 0" and "owners s = {}"
    | (locked1) u where "mword s = 1" and "owners s = {u}"
    | (locked2) u where "mword s = 2" and "owners s = {u}"
  using assms by (auto simp: mutex_inv_def)

lemma mutex_atomic_inv:
  assumes inv: "mutex_inv s" and at: "mutex_atomic (mpcs s t) (mword s) = Some (pc', w')"
  shows "mutex_inv (s\<lparr>mword := w', mpcs := (mpcs s)(t := pc')\<rparr>)"
proof -
  have mem: "t \<in> owners s \<longleftrightarrow> owns (mpcs s t)" by (simp add: owners_def)
  from inv show ?thesis
  proof (cases rule: mutex_inv_cases)
    case free
    with at mem show ?thesis
      by (cases "mpcs s t") (auto simp: mutex_inv_def)
  next
    case (locked1 u)
    show ?thesis
    proof (cases "mpcs s t = TCas")
      case True
      with at locked1 have "pc' = MOut (- EBUSY)" "w' = 1" by auto
      with locked1 mem True show ?thesis by (simp add: mutex_inv_def)
    next
      case False
      with at mem locked1 show ?thesis
        by (cases "mpcs s t") (simp_all add: mutex_inv_def split: if_splits, auto)
    qed
  next
    case (locked2 u)
    show ?thesis
    proof (cases "mpcs s t = TCas")
      case True
      with at locked2 have "pc' = MOut (- EBUSY)" "w' = 2" by auto
      with locked2 mem True show ?thesis by (simp add: mutex_inv_def)
    next
      case False
      with at mem locked2 show ?thesis
        by (cases "mpcs s t") (simp_all add: mutex_inv_def split: if_splits)
    qed
  qed
qed

lemma mutex_inv_pc:
  assumes "mutex_inv s" and "owns pc \<longleftrightarrow> owns (mpcs s t)"
  shows "mutex_inv (s\<lparr>mpcs := (mpcs s)(t := pc)\<rparr>)"
proof -
  have "owners (s\<lparr>mpcs := (mpcs s)(t := pc)\<rparr>) = owners s"
    using assms(2) by (auto simp: owners_def)
  with assms(1) show ?thesis by (simp add: mutex_inv_def)
qed

lemma mutex_step_inv:
  assumes "mutex_inv s" and "mutex_step K s s'"
  shows "mutex_inv s'"
  using assms(2)
proof cases
  case (wake t W)
  from owners_wake [OF wake(2)] show ?thesis
    using assms(1) by (simp add: wake(1) mutex_inv_def)
qed (use assms(1) in \<open>auto intro!: mutex_inv_pc mutex_atomic_inv\<close>)

lemma mutex_inv_initial: "mutex_initial s \<Longrightarrow> mutex_inv s"
  unfolding mutex_initial_def mutex_inv_def owners_def by (metis Collect_empty_eq owns_simps(1))

interpretation mutex_excl: invariant_system mutex_initial "mutex_step K" mutex_inv for K
  by unfold_locales (auto intro: mutex_inv_initial mutex_step_inv)

section \<open>No lost wakeup\<close>

text \<open>
  A thread that is about to exchange, to wait, to store or to wake will look at the word again
  or make another thread do so.
\<close>

definition retrying :: "mpc \<Rightarrow> bool" where
  "retrying pc \<longleftrightarrow> pc = LXchg \<or> pc = LWait \<or> pc = UStore \<or> pc = UWake"

definition mutex_cover :: "'t mutex_state \<Rightarrow> bool" where
  "mutex_cover s \<longleftrightarrow> msleepers s = {} \<or> mword s = 2 \<or> (\<exists>t. retrying (mpcs s t))"

lemma retrying_simps [simp]:
  "\<not> retrying (MOut r)" "\<not> retrying (MHeld r)" "\<not> retrying LCas" "retrying LXchg"
  "retrying LWait" "\<not> retrying LSleep" "\<not> retrying TCas" "\<not> retrying UDec" "retrying UStore"
  "retrying UWake"
  by (auto simp: retrying_def)

lemma mutex_cover_keeps:
  assumes "mutex_cover s" and "\<not> retrying (mpcs s t)" and "pc \<noteq> LSleep"
    and "mword s = 2 \<Longrightarrow> w = 2"
  shows "mutex_cover (s\<lparr>mword := w, mpcs := (mpcs s)(t := pc)\<rparr>)"
  using assms unfolding mutex_cover_def msleepers_def by auto metis+

lemma mutex_cover_pc:
  assumes "mutex_cover s" and "\<not> retrying (mpcs s t)" and "pc \<noteq> LSleep"
  shows "mutex_cover (s\<lparr>mpcs := (mpcs s)(t := pc)\<rparr>)"
  using mutex_cover_keeps [OF assms, of "mword s"] by (simp add: mutex_cover_def msleepers_def)

lemma mutex_cover_retrying:
  "retrying pc \<Longrightarrow> mutex_cover (s\<lparr>mword := w, mpcs := (mpcs s)(t := pc)\<rparr>)"
  "retrying pc \<Longrightarrow> mutex_cover (s\<lparr>mpcs := (mpcs s)(t := pc)\<rparr>)"
  by (auto simp: mutex_cover_def)

lemma mutex_atomic_cover:
  assumes cov: "mutex_cover s" and at: "mutex_atomic (mpcs s t) (mword s) = Some (pc', w')"
  shows "mutex_cover (s\<lparr>mword := w', mpcs := (mpcs s)(t := pc')\<rparr>)"
proof (cases "retrying pc' \<or> w' = 2")
  case True
  then show ?thesis using mutex_cover_retrying(1) by (auto simp: mutex_cover_def)
next
  case False
  with at have "\<not> retrying (mpcs s t) \<and> pc' \<noteq> LSleep \<and> (mword s = 2 \<longrightarrow> w' = 2)"
    by (cases "mpcs s t") (auto split: if_splits)
  with cov show ?thesis by (simp add: mutex_cover_keeps)
qed

lemma mutex_wake_cover:
  fixes s :: "'t::finite mutex_state"
  assumes K: "futex_documented K" "may_wake K (msleepers s) 1 W" and t: "mpcs s t = UWake"
  shows "mutex_cover (s\<lparr>mpcs := (\<lambda>u. if u = t then MOut 0
           else if u \<in> W \<and> u \<in> msleepers s then LXchg else mpcs s u)\<rparr>)" (is "mutex_cover ?s'")
proof (cases "msleepers s = {}")
  case True
  with t have "msleepers ?s' = {}" by (auto simp: msleepers_def)
  then show ?thesis by (simp add: mutex_cover_def)
next
  case False
  from futex_wake_one [OF K False] obtain u where u: "u \<in> W" "u \<in> msleepers s" by auto
  moreover from u t have "u \<noteq> t" by (auto simp: msleepers_def)
  ultimately have "retrying (mpcs ?s' u)" by simp
  then show ?thesis unfolding mutex_cover_def by blast
qed

lemma mutex_step_cover:
  fixes s :: "'t::finite mutex_state"
  assumes K: "futex_documented K" and cov: "mutex_cover s" and step: "mutex_step K s s'"
  shows "mutex_cover s'"
  using step
proof cases
  case (atomic t pc' w')
  with cov show ?thesis by (simp add: mutex_atomic_cover)
next
  case (sleep t)
  from futex_sleepD [OF K sleep(3)] show ?thesis by (simp add: sleep(1) mutex_cover_def)
next
  case (wake t W)
  from mutex_wake_cover [OF K wake(3,2)] show ?thesis by (simp add: wake(1))
qed (use cov in \<open>simp_all add: mutex_cover_pc mutex_cover_retrying(2)
      pthread_mutex_lock_def pthread_mutex_trylock_def pthread_mutex_unlock_def\<close>)

lemma mutex_cover_initial: "mutex_initial s \<Longrightarrow> mutex_cover s"
  unfolding mutex_initial_def mutex_cover_def msleepers_def
  by (metis (mono_tags, lifting) empty_Collect_eq mpc.distinct(9))

interpretation mutex_wakes: invariant_system mutex_initial
    "\<lambda>(s :: 't::finite mutex_state) s'. futex_documented K \<and> mutex_step K s s'"
    "\<lambda>s. mutex_inv s \<and> mutex_cover s" for K
  by unfold_locales
    (auto intro: mutex_inv_initial mutex_step_inv mutex_cover_initial mutex_step_cover)

section \<open>The abstract lock\<close>

text \<open>
  What a mutex promises: a holder, taken when there is none and given up by the holder. Every
  other step of the implementation is invisible.
\<close>

inductive lock_spec :: "'t option \<Rightarrow> 't option \<Rightarrow> bool" where
  lock_stutter: "lock_spec h h"
| lock_acquire: "lock_spec None (Some t)"
| lock_release: "lock_spec (Some t) None"

definition holder :: "'t mutex_state \<Rightarrow> 't option" where
  "holder s = (if owners s = {} then None else Some (the_elem (owners s)))"

lemma holder_simps:
  "owners s = {} \<Longrightarrow> holder s = None"
  "owners s = {t} \<Longrightarrow> holder s = Some t"
  by (auto simp: holder_def)

lemma mutex_step_one_owner_moves:
  assumes "mutex_step K s s'"
  shows "\<exists>t. owners s' - {t} = owners s - {t}"
  using assms
proof cases
  case (wake t W)
  then show ?thesis using owners_wake [OF wake(2)] by auto
next
  case (atomic t pc' w')
  then show ?thesis by (intro exI [of _ t]) auto
qed (simp_all, blast+)

lemma mutex_step_lock_spec:
  assumes inv: "mutex_inv s" and step: "mutex_step K s s'"
  shows "lock_spec (holder s) (holder s')"
proof -
  from mutex_step_one_owner_moves [OF step] obtain t
    where t: "owners s' - {t} = owners s - {t}" by blast
  have some: "owners x = {} \<or> (\<exists>u. owners x = {u})" if "mutex_inv x" for x :: "'a mutex_state"
    using that by (auto simp: mutex_inv_def)
  from some [OF inv] show ?thesis
  proof (elim disjE exE)
    fix u assume u: "owners s = {u}"
    have "v = u" if "owners s' = {v}" for v
      using t u that by (cases "t = u") (auto simp: set_eq_iff)
    then have "owners s' = {} \<or> owners s' = {u}"
      using some [OF mutex_step_inv [OF inv step]] by blast
    with u show ?thesis by (auto simp: holder_simps intro: lock_spec.intros)
  qed (use some [OF mutex_step_inv [OF inv step]] in
        \<open>auto simp: holder_simps intro: lock_spec.intros\<close>)
qed

section \<open>Concrete runs\<close>

definition run_held :: "bool mutex_state" where
  "run_held = \<lparr>mword = 1, mpcs = (\<lambda>t. if t then MOut 0 else MHeld 0)\<rparr>"

definition run_asleep :: "bool mutex_state" where
  "run_asleep = \<lparr>mword = 2, mpcs = (\<lambda>t. if t then LSleep else MHeld 0)\<rparr>"

lemma mutex_step_atomicI:
  "mutex_atomic (p t) w = Some (pc', w') \<Longrightarrow>
     mutex_step K \<lparr>mword = w, mpcs = p\<rparr> \<lparr>mword = w', mpcs = p(t := pc')\<rparr>"
  using mutex_step.atomic [of "\<lparr>mword = w, mpcs = p\<rparr>" t pc' w' K] by simp

lemma mutex_step_lockI:
  "p t = MOut r \<Longrightarrow>
     mutex_step K \<lparr>mword = w, mpcs = p\<rparr> \<lparr>mword = w, mpcs = p(t := LCas)\<rparr>"
  using mutex_step.call_lock [of "\<lparr>mword = w, mpcs = p\<rparr>" t r K 1]
  by (simp add: pthread_mutex_lock_def)

lemma reachable_run_held: "reachable mutex_initial (mutex_step K) run_held"
proof -
  have "mutex_initial \<lparr>mword = 0, mpcs = (\<lambda>t. if t then MOut 0 else MOut 0)\<rparr>"
    by (simp add: mutex_initial_def)
  then have "reachable mutex_initial (mutex_step K)
      \<lparr>mword = 0, mpcs = (\<lambda>t. if t then MOut 0 else MOut 0)\<rparr>" by (rule reach_init)
  from reach_step [OF this mutex_step_lockI [of _ False 0]]
  have "reachable mutex_initial (mutex_step K)
      \<lparr>mword = 0, mpcs = (\<lambda>t. if t then MOut 0 else LCas)\<rparr>"
    by (simp only: bool_fun_upd if_True if_False refl simp_thms)
  from reach_step [OF this mutex_step_atomicI [of _ False _ "MHeld 0" 1]]
  show ?thesis by (simp add: bool_fun_upd run_held_def)
qed

lemma reachable_run_asleep: "reachable mutex_initial (mutex_step exact_futex) run_asleep"
proof -
  let ?s = "\<lambda>w pc. \<lparr>mword = w, mpcs = (\<lambda>t. if t then pc else MHeld 0)\<rparr>"
  let ?R = "reachable mutex_initial (mutex_step exact_futex)"
  have "?R (?s 1 (MOut 0))" using reachable_run_held by (simp add: run_held_def)
  from reach_step [OF this mutex_step_lockI [of _ True 0]]
  have "?R (?s 1 LCas)" by (simp add: bool_fun_upd)
  from reach_step [OF this mutex_step_atomicI [of _ True _ LXchg 1]]
  have "?R (?s 1 LXchg)" by (simp add: bool_fun_upd)
  from reach_step [OF this mutex_step_atomicI [of _ True _ LWait 2]]
  have "?R (?s 2 LWait)" by (simp add: bool_fun_upd)
  from reach_step [OF this mutex_step.sleep [of _ True]]
  show ?thesis by (simp add: bool_fun_upd run_asleep_def exact_futex_def)
qed

section \<open>Properties\<close>

text \<open>
  C1. Mutual exclusion. In every state that any interleaving of \<open>lock\<close>, \<open>trylock\<close> and \<open>unlock\<close>
  calls reaches, under any behaviour of the kernel's futex whatever (early returns, refused
  sleeps, wakes of anybody), at most one thread holds the mutex, and the word is 0 exactly when
  nobody does.
\<close>

theorem mutex_mutual_exclusion:
  assumes "reachable mutex_initial (mutex_step K) s"
  shows "(\<forall>t u. owns (mpcs s t) \<and> owns (mpcs s u) \<longrightarrow> t = u) \<and>
         (mword s = 0 \<longleftrightarrow> (\<forall>t. \<not> owns (mpcs s t)))"
  using mutex_excl.reachable_inv [OF assms]
  by (cases rule: mutex_inv_cases) (auto simp: owners_def set_eq_iff)

theorem mutex_mutual_exclusion_witness:
  "owns (mpcs run_held False) \<and> \<not> owns (mpcs run_held True) \<and> mword run_held \<noteq> 0"
  using mutex_mutual_exclusion [OF reachable_run_held] by (auto simp: run_held_def)

text \<open>
  C5. No lost wakeup. With a futex that keeps its documented promises, a thread is asleep in
  \<open>pthread_mutex_lock\<close> only while the mutex is held with the word at 2, so that the unlock will
  wake, or while some other thread is at an operation that looks at the word again or issues the
  wake. In particular nobody is left asleep once every other thread is outside the mutex code
  without the lock.
\<close>

theorem mutex_no_lost_wakeup:
  fixes s :: "'t::finite mutex_state"
  assumes "futex_documented K" and "reachable mutex_initial (mutex_step K) s"
    and "mpcs s t = LSleep"
  shows "(mword s = 2 \<and> (\<exists>u. owns (mpcs s u))) \<or> (\<exists>u. u \<noteq> t \<and> retrying (mpcs s u))"
proof -
  from reachable_mono [OF assms(2), of "\<lambda>s s'. futex_documented K \<and> mutex_step K s s'"] assms(1)
  have "mutex_inv s \<and> mutex_cover s" by (intro mutex_wakes.reachable_inv) blast
  moreover from assms(3) have "t \<in> msleepers s" by (simp add: msleepers_def)
  moreover have "u \<noteq> t" if "retrying (mpcs s u)" for u using that assms(3) by auto
  ultimately show ?thesis
    by (auto simp: mutex_cover_def elim!: mutex_inv_cases) (auto simp: owners_def)
qed

theorem mutex_no_lost_wakeup_witness:
  "mpcs run_asleep True = LSleep \<and> mword run_asleep = 2 \<and> owns (mpcs run_asleep False)"
  using mutex_no_lost_wakeup [OF exact_futex_documented reachable_run_asleep, of True]
  by (auto simp: run_asleep_def split: if_splits)

text \<open>
  C12. Refinement. Through the view that shows only the holder, every step of the implementation
  is a step of the abstract lock: it takes a free lock, releases the lock of its holder, or does
  nothing visible; the lock never passes from one thread to another in one step.
\<close>

theorem mutex_refines_lock:
  assumes "reachable mutex_initial (mutex_step K) s" and "mutex_step K s s'"
  shows "lock_spec (holder s) (holder s')"
  by (rule mutex_step_lock_spec [OF mutex_excl.reachable_inv [OF assms(1)] assms(2)])

theorem mutex_refines_lock_witness:
  "lock_spec (holder run_held) (holder (run_held\<lparr>mpcs := (mpcs run_held)(False := UDec)\<rparr>))"
proof (rule mutex_refines_lock [OF reachable_run_held])
  show "mutex_step exact_futex run_held (run_held\<lparr>mpcs := (mpcs run_held)(False := UDec)\<rparr>)"
    using mutex_step.call_unlock [of run_held False 0 exact_futex 1]
    by (simp add: run_held_def pthread_mutex_unlock_def)
qed

end
