(* ===== verification/Neo_Cond.thy ===== *)
theory Neo_Cond
  imports Neo_Mutex
begin

text \<open>
  Condition variables (\<open>src/pthread.c\<close>). Any number of threads share one condition variable and one
  mutex, and are interleaved at every access to the sequence number, every futex call and every
  mutex operation. The mutex is the abstract lock that \<open>pthread_mutex_lock\<close> and
  \<open>pthread_mutex_unlock\<close> refine (\<open>Neo_Mutex\<close>): \<open>chold\<close> is its holder, taking it waits until there is
  none. \<open>Neo_Monitor\<close> puts the mutex's own code in its place. The futex is the parameter of \<open>Neo_Futex\<close>.

  A thread's program counter names what it does next:
  \<^item> \<open>CIdle h r\<close>: in the caller's code, with the mutex iff \<open>h\<close>, after a condition-variable call that
    returned \<open>r\<close>;
  \<^item> \<open>WLoad\<close>, \<open>WUnlock\<close>, \<open>WWait\<close>, \<open>WSleep\<close>, \<open>WLock\<close>: in \<open>cond_wait_common\<close>, at the load of the sequence
    number, at the unlock, at the futex call, asleep in it, and at the lock after it; the first
    argument of the middle three tells whether a timeout was given, the second is the number loaded;
  \<^item> \<open>SAdd h n\<close>, \<open>SWake h n\<close>: in \<open>pthread_cond_signal\<close> (\<open>n = 1\<close>) or \<open>pthread_cond_broadcast\<close>
    (\<open>n = 0x7FFFFFFF\<close>), at the increment and at the wake; \<open>h\<close> tells whether the caller has the mutex.
\<close>

section \<open>The model\<close>

datatype cpc = CIdle bool i32 | WLoad bool | WUnlock bool i32 | WWait bool i32 | WSleep bool i32
  | WLock i32 | SAdd bool i32 | SWake bool i32

text \<open>
  The sequence number and the program counters are the program's; the other four fields of
  \<open>cond_vars\<close> record its history. \<open>history\<close> lists the wake
  counts of the increments in their order, so increment \<open>j\<close> took the sequence number from \<open>j\<close> to
  \<open>j + 1\<close> (modulo \<open>2 ^ 32\<close>); \<open>loaded t\<close> is the length of the history when \<open>t\<close> loaded the number,
  \<open>bumped t\<close> the index of \<open>t\<close>'s last increment, and \<open>woke\<close> the indices whose wake ended a sleep.
\<close>

record 't cond_vars =
  cseq :: i32
  cpcs :: "'t \<Rightarrow> cpc"
  history :: "i32 list"
  loaded :: "'t \<Rightarrow> nat"
  bumped :: "'t \<Rightarrow> nat"
  woke :: "nat set"

record 't cond_state = "'t cond_vars" +
  chold :: "'t option"

definition pthread_cond_init :: "addr \<Rightarrow> addr \<Rightarrow> i32 \<Rightarrow> i32 \<times> i32" where
  "pthread_cond_init c attr w =
     (if c = 0 then (- EINVAL, w) else if attr \<noteq> 0 then (- EINVAL, w) else (0, 0))"

definition pthread_cond_destroy :: "addr \<Rightarrow> i32" where
  "pthread_cond_destroy c = (if c = 0 then - EINVAL else 0)"

text \<open>Where a call starts. A wait is only called with the mutex held.\<close>

definition cond_wait_common :: "addr \<Rightarrow> addr \<Rightarrow> bool \<Rightarrow> cpc" where
  "cond_wait_common c m rel = (if c = 0 \<or> m = 0 then CIdle True (- EINVAL) else WLoad rel)"

definition pthread_cond_wait :: "addr \<Rightarrow> addr \<Rightarrow> cpc" where
  "pthread_cond_wait c m = cond_wait_common c m False"

definition pthread_cond_timedwait_relative :: "addr \<Rightarrow> addr \<Rightarrow> addr \<Rightarrow> cpc" where
  "pthread_cond_timedwait_relative c m rel =
     (if rel = 0 then CIdle True (- EINVAL) else cond_wait_common c m True)"

definition pthread_cond_signal :: "bool \<Rightarrow> addr \<Rightarrow> cpc" where
  "pthread_cond_signal h c = (if c = 0 then CIdle h (- EINVAL) else SAdd h 1)"

definition pthread_cond_broadcast :: "bool \<Rightarrow> addr \<Rightarrow> cpc" where
  "pthread_cond_broadcast h c = (if c = 0 then CIdle h (- EINVAL) else SAdd h 0x7FFFFFFF)"

text \<open>What \<open>cond_wait_common\<close> returns for the answer of the futex call.\<close>

definition cond_result :: "i32 \<Rightarrow> i32" where
  "cond_result rc = (if rc = - ETIMEDOUT then - ETIMEDOUT else 0)"

definition csleepers :: "('t, 'z) cond_vars_scheme \<Rightarrow> 't set" where
  "csleepers s = {t. \<exists>rel q. cpcs s t = WSleep rel q}"

inductive cond_step :: "'t futex_kernel \<Rightarrow> 't cond_state \<Rightarrow> 't cond_state \<Rightarrow> bool"
  for K :: "'t futex_kernel" where
  locks: "cpcs s t = CIdle False r \<Longrightarrow> chold s = None \<Longrightarrow>
     cond_step K s (s\<lparr>chold := Some t, cpcs := (cpcs s)(t := CIdle True r)\<rparr>)"
| unlocks: "cpcs s t = CIdle True r \<Longrightarrow>
     cond_step K s (s\<lparr>chold := None, cpcs := (cpcs s)(t := CIdle False r)\<rparr>)"
| calls_wait: "cpcs s t = CIdle True r \<Longrightarrow>
     cond_step K s (s\<lparr>cpcs := (cpcs s)(t := pthread_cond_wait c m)\<rparr>)"
| calls_timedwait: "cpcs s t = CIdle True r \<Longrightarrow>
     cond_step K s (s\<lparr>cpcs := (cpcs s)(t := pthread_cond_timedwait_relative c m rel)\<rparr>)"
| calls_signal: "cpcs s t = CIdle h r \<Longrightarrow>
     cond_step K s (s\<lparr>cpcs := (cpcs s)(t := pthread_cond_signal h c)\<rparr>)"
| calls_broadcast: "cpcs s t = CIdle h r \<Longrightarrow>
     cond_step K s (s\<lparr>cpcs := (cpcs s)(t := pthread_cond_broadcast h c)\<rparr>)"
| loads: "cpcs s t = WLoad rel \<Longrightarrow>
     cond_step K s (s\<lparr>cpcs := (cpcs s)(t := WUnlock rel (cseq s)),
                      loaded := (loaded s)(t := length (history s))\<rparr>)"
| releases: "cpcs s t = WUnlock rel q \<Longrightarrow>
     cond_step K s (s\<lparr>chold := None, cpcs := (cpcs s)(t := WWait rel q)\<rparr>)"
| sleeps: "cpcs s t = WWait rel q \<Longrightarrow> may_sleep K (cseq s) q \<Longrightarrow>
     cond_step K s (s\<lparr>cpcs := (cpcs s)(t := WSleep rel q)\<rparr>)"
| wait_returns: "cpcs s t = WWait rel q \<Longrightarrow>
     cond_step K s (s\<lparr>cpcs := (cpcs s)(t := WLock rc)\<rparr>)"
| sleep_ends: "cpcs s t = WSleep rel q \<Longrightarrow>
     cond_step K s (s\<lparr>cpcs := (cpcs s)(t := WLock rc)\<rparr>)"
| relocks: "cpcs s t = WLock rc \<Longrightarrow> chold s = None \<Longrightarrow>
     cond_step K s (s\<lparr>chold := Some t, cpcs := (cpcs s)(t := CIdle True (cond_result rc))\<rparr>)"
| bumps: "cpcs s t = SAdd h n \<Longrightarrow>
     cond_step K s (s\<lparr>cseq := cseq s + 1, cpcs := (cpcs s)(t := SWake h n),
                      history := history s @ [n], bumped := (bumped s)(t := length (history s))\<rparr>)"
| wakes: "cpcs s t = SWake h n \<Longrightarrow> may_wake K (csleepers s) n W \<Longrightarrow>
     cond_step K s (s\<lparr>cpcs := (\<lambda>u. if u = t then CIdle h 0
                                      else if u \<in> W \<and> u \<in> csleepers s then WLock 0 else cpcs s u),
                      woke := (if W \<inter> csleepers s = {} then woke s else insert (bumped s t) (woke s))\<rparr>)"

definition cond_initial :: "'t cond_state \<Rightarrow> bool" where
  "cond_initial s \<longleftrightarrow> cseq s = 0 \<and> chold s = None \<and> (\<forall>t. \<exists>r. cpcs s t = CIdle False r) \<and>
     history s = [] \<and> woke s = {}"

section \<open>What a thread at a program counter relies on\<close>

text \<open>The mutex is held by the thread whose program counter says so.\<close>

fun pc_holds :: "cpc \<Rightarrow> bool" where
  "pc_holds (CIdle h r) \<longleftrightarrow> h"
| "pc_holds (WLoad rel) \<longleftrightarrow> True"
| "pc_holds (WUnlock rel q) \<longleftrightarrow> True"
| "pc_holds (SAdd h n) \<longleftrightarrow> h"
| "pc_holds (SWake h n) \<longleftrightarrow> h"
| "pc_holds _ \<longleftrightarrow> False"

definition mutex_agrees :: "'t cond_state \<Rightarrow> bool" where
  "mutex_agrees s \<longleftrightarrow> (\<forall>t. chold s = Some t \<longleftrightarrow> pc_holds (cpcs s t))"

fun pc_fits :: "i32 list \<Rightarrow> nat \<Rightarrow> nat \<Rightarrow> cpc \<Rightarrow> bool" where
  "pc_fits H l b (WUnlock rel q) \<longleftrightarrow> q = of_nat l \<and> l \<le> length H"
| "pc_fits H l b (WWait rel q) \<longleftrightarrow> q = of_nat l \<and> l \<le> length H"
| "pc_fits H l b (WSleep rel q) \<longleftrightarrow> q = of_nat l \<and> l \<le> length H"
| "pc_fits H l b (SAdd h n) \<longleftrightarrow> n \<in> {1, 0x7FFFFFFF}"
| "pc_fits H l b (SWake h n) \<longleftrightarrow> n \<in> {1, 0x7FFFFFFF} \<and> b < length H \<and> H ! b = n"
| "pc_fits H l b _ \<longleftrightarrow> True"

lemma pc_fits_append: "pc_fits H l b pc \<Longrightarrow> pc_fits (H @ [n]) l b pc"
  by (cases pc) (auto simp: nth_append)

lemmas cond_calls = pthread_cond_wait_def pthread_cond_timedwait_relative_def cond_wait_common_def
  pthread_cond_signal_def pthread_cond_broadcast_def

lemma mutex_agrees_step:
  assumes "mutex_agrees s" and "cond_step K s s'"
  shows "mutex_agrees s'"
  using assms(2)
proof cases
  case (wakes t h n W)
  then show ?thesis using assms(1) by (auto simp: mutex_agrees_def csleepers_def)
qed (use assms(1) in \<open>auto simp: mutex_agrees_def cond_calls\<close>,
    metis option.inject pc_holds.simps(1), metis option.inject pc_holds.simps(3))

definition cond_ok :: "'t cond_state \<Rightarrow> bool" where
  "cond_ok s \<longleftrightarrow> cseq s = of_nat (length (history s)) \<and>
     (\<forall>t. pc_fits (history s) (loaded s t) (bumped s t) (cpcs s t))"

lemma cond_ok_pc:
  assumes "cond_ok s" and "pc_fits (history s) (loaded s t) (bumped s t) pc"
  shows "cond_ok (s\<lparr>cpcs := (cpcs s)(t := pc)\<rparr>)" and "cond_ok (s\<lparr>chold := h, cpcs := (cpcs s)(t := pc)\<rparr>)"
  using assms by (auto simp: cond_ok_def)

lemma cond_ok_at: "cond_ok s \<Longrightarrow> cpcs s t = pc \<Longrightarrow> pc_fits (history s) (loaded s t) (bumped s t) pc"
  by (auto simp: cond_ok_def)

lemma cond_ok_step:
  assumes ok: "cond_ok s" and "cond_step K s s'"
  shows "cond_ok s'"
  using assms(2)
proof cases
  case (loads t rel)
  then show ?thesis using ok by (auto simp: cond_ok_def)
next
  case (bumps t h n)
  then show ?thesis using ok cond_ok_at [OF ok bumps(2)] pc_fits_append
    by (auto simp: cond_ok_def add.commute)
next
  case (wakes t h n W)
  then show ?thesis using ok by (auto simp: cond_ok_def)
qed (use cond_ok_at [OF ok] in \<open>auto simp: cond_calls dest: cond_ok_at [OF ok] intro!: cond_ok_pc [OF ok]\<close>)

section \<open>No missed wakeup\<close>

text \<open>
  Increment \<open>j\<close> is answered for when its wake is still to come, or it was a signal and its wake did
  end a sleep. The invariant: every increment since a sleeping thread loaded the number is answered
  for. It holds while the number has not gone round.
\<close>

definition answered :: "'t cond_state \<Rightarrow> nat \<Rightarrow> bool" where
  "answered s j \<longleftrightarrow> (\<exists>u h n. cpcs s u = SWake h n \<and> bumped s u = j) \<or> (history s ! j = 1 \<and> j \<in> woke s)"

definition cond_cover :: "'t cond_state \<Rightarrow> bool" where
  "cond_cover s \<longleftrightarrow> (length (history s) < 2 ^ 32 \<longrightarrow>
     (\<forall>t\<in>csleepers s. \<forall>j. loaded s t \<le> j \<and> j < length (history s) \<longrightarrow> answered s j))"

lemma answered_mono:
  assumes "answered s j"
    and "\<And>u h n. cpcs s u = SWake h n \<Longrightarrow> bumped s u = j \<Longrightarrow>
          cpcs s' u = SWake h n \<and> bumped s' u = j \<or> history s' ! j = 1 \<and> j \<in> woke s'"
    and "history s ! j = 1 \<Longrightarrow> j \<in> woke s \<Longrightarrow> history s' ! j = 1 \<and> j \<in> woke s'"
  shows "answered s' j"
  using assms unfolding answered_def by blast

lemma cond_cover_mono:
  assumes "cond_cover s" and "csleepers s' \<subseteq> csleepers s" and "loaded s' = loaded s"
    and "history s' = history s" and "\<And>j. answered s j \<Longrightarrow> answered s' j"
  shows "cond_cover s'"
  using assms unfolding cond_cover_def by (metis subsetD)

lemma cond_cover_pc:
  assumes "cond_cover s" and "\<And>h n. cpcs s t \<noteq> SWake h n" and "\<And>rel q. pc \<noteq> WSleep rel q"
  shows "cond_cover (s\<lparr>cpcs := (cpcs s)(t := pc)\<rparr>)"
    and "cond_cover (s\<lparr>chold := x, cpcs := (cpcs s)(t := pc)\<rparr>)"
    and "cond_cover (s\<lparr>cpcs := (cpcs s)(t := pc), loaded := (loaded s)(t := l)\<rparr>)"
proof -
  have a: "answered (s\<lparr>cpcs := (cpcs s)(t := pc)\<rparr>) j" "answered (s\<lparr>chold := x, cpcs := (cpcs s)(t := pc)\<rparr>) j"
    "answered (s\<lparr>cpcs := (cpcs s)(t := pc), loaded := (loaded s)(t := l)\<rparr>) j" if "answered s j" for j
    using that by (rule answered_mono; use assms(2) in auto)+
  have c: "csleepers (s\<lparr>cpcs := (cpcs s)(t := pc)\<rparr>) = csleepers s - {t}"
    "csleepers (s\<lparr>chold := x, cpcs := (cpcs s)(t := pc)\<rparr>) = csleepers s - {t}"
    "csleepers (s\<lparr>cpcs := (cpcs s)(t := pc), loaded := (loaded s)(t := l)\<rparr>) = csleepers s - {t}"
    using assms(3) by (auto simp: csleepers_def)
  show "cond_cover (s\<lparr>cpcs := (cpcs s)(t := pc)\<rparr>)"
    "cond_cover (s\<lparr>chold := x, cpcs := (cpcs s)(t := pc)\<rparr>)"
    "cond_cover (s\<lparr>cpcs := (cpcs s)(t := pc), loaded := (loaded s)(t := l)\<rparr>)"
    using assms(1) a unfolding cond_cover_def c by auto
qed

lemma of_nat_i32_inj: "of_nat m = (of_nat n :: i32) \<Longrightarrow> m < 2 ^ 32 \<Longrightarrow> n < 2 ^ 32 \<Longrightarrow> m = n"
  by (drule arg_cong [of _ _ unat]) (simp add: unsigned_of_nat take_bit_nat_eq_self)

lemma cond_sleep_cover:
  assumes K: "futex_documented K" and ok: "cond_ok s" and cov: "cond_cover s"
    and t: "cpcs s t = WWait rel q" and sl: "may_sleep K (cseq s) q"
  shows "cond_cover (s\<lparr>cpcs := (cpcs s)(t := WSleep rel q)\<rparr>)" (is "cond_cover ?s'")
  unfolding cond_cover_def
proof (intro impI ballI allI)
  fix u j
  assume len: "length (history ?s') < 2 ^ 32" and u: "u \<in> csleepers ?s'"
    and j: "loaded ?s' u \<le> j \<and> j < length (history ?s')"
  from cond_ok_at [OF ok t] have q: "q = of_nat (loaded s t)" and le: "loaded s t \<le> length (history s)"
    unfolding pc_fits.simps by blast+
  have "of_nat (length (history s)) = q"
    using futex_sleepD [OF K sl] ok unfolding cond_ok_def by metis
  with q have eq: "of_nat (length (history s)) = (of_nat (loaded s t) :: i32)" by metis
  from len have len': "length (history s) < 2 ^ 32" by simp
  have "length (history s) = loaded s t"
    using of_nat_i32_inj [OF eq len'] le len' by linarith
  with j have "u \<noteq> t" by auto
  with u have "u \<in> csleepers s" by (auto simp: csleepers_def)
  with j len' cov have "answered s j" unfolding cond_cover_def by simp
  then show "answered ?s' j" by (rule answered_mono) (use t in auto)
qed

lemma cond_wake_cover:
  fixes s :: "'t::finite cond_state"
  assumes K: "futex_documented K" and fin: "card (UNIV :: 't set) < 2 ^ 31" and ok: "cond_ok s"
    and cov: "cond_cover s" and t: "cpcs s t = SWake h n" and W: "may_wake K (csleepers s) n W"
  shows "cond_cover (s\<lparr>cpcs := (\<lambda>u. if u = t then CIdle h 0
             else if u \<in> W \<and> u \<in> csleepers s then WLock 0 else cpcs s u),
           woke := (if W \<inter> csleepers s = {} then woke s else insert (bumped s t) (woke s))\<rparr>)"
    (is "cond_cover ?s'")
proof -
  have sub: "csleepers ?s' = csleepers s - W" using t by (auto simp: csleepers_def)
  have n: "n = 1 \<or> n = 0x7FFFFFFF" "history s ! bumped s t = n" using cond_ok_at [OF ok t] by auto
  show ?thesis
  proof (cases "n = 1 \<and> csleepers s \<noteq> {}")
    case False
    have "card (csleepers s) \<le> card (UNIV :: 't set)" by (intro card_mono) auto
    with False n fin futex_wake_all [OF K W] futex_wake_subset [OF K W] have "W = csleepers s" by auto
    then show ?thesis unfolding cond_cover_def sub by simp
  next
    case True
    with futex_wake_one [OF K] W have ne: "W \<inter> csleepers s \<noteq> {}" by blast
    have "answered ?s' j" if "answered s j" for j
      by (intro answered_mono [OF that]) (use t True n ne in \<open>auto simp: csleepers_def\<close>)
    then show ?thesis by (intro cond_cover_mono [OF cov]) (simp_all only: sub, auto)
  qed
qed

lemma cond_bump_cover:
  assumes cov: "cond_cover s" and t: "cpcs s t = SAdd h n"
  shows "cond_cover (s\<lparr>cseq := cseq s + 1, cpcs := (cpcs s)(t := SWake h n),
           history := history s @ [n], bumped := (bumped s)(t := length (history s))\<rparr>)" (is "cond_cover ?s'")
  unfolding cond_cover_def
proof (intro impI ballI allI)
  fix u j
  assume len: "length (history ?s') < 2 ^ 32" and u: "u \<in> csleepers ?s'"
    and j: "loaded ?s' u \<le> j \<and> j < length (history ?s')"
  show "answered ?s' j"
  proof (cases "j = length (history s)")
    case True
    then show ?thesis by (auto simp: answered_def)
  next
    case False
    with u j len cov t have "answered s j" by (auto simp: cond_cover_def csleepers_def split: if_splits)
    then show ?thesis by (rule answered_mono) (use t False j in \<open>auto simp: nth_append\<close>)
  qed
qed

lemma cond_step_cover:
  fixes s :: "'t::finite cond_state"
  assumes K: "futex_documented K" "card (UNIV :: 't set) < 2 ^ 31" and inv: "cond_ok s" "cond_cover s"
    and step: "cond_step K s s'"
  shows "cond_cover s'"
  using step
proof cases
  case (sleeps t rel q)
  with cond_sleep_cover [OF K(1) inv] show ?thesis by simp
next
  case (bumps t h n)
  with cond_bump_cover [OF inv(2)] show ?thesis by simp
next
  case (wakes t h n W)
  with cond_wake_cover [OF K inv] show ?thesis by simp
qed (auto simp: cond_calls intro!: cond_cover_pc [OF inv(2)])

definition cond_inv :: "'t cond_state \<Rightarrow> bool" where
  "cond_inv s \<longleftrightarrow> mutex_agrees s \<and> cond_ok s \<and> cond_cover s"

lemma cond_inv_initial:
  assumes "cond_initial s"
  shows "cond_inv s"
proof -
  have "\<not> pc_holds (cpcs s t) \<and> pc_fits (history s) (loaded s t) (bumped s t) (cpcs s t)" for t
    using assms unfolding cond_initial_def by (metis pc_fits.simps(6) pc_holds.simps(1))
  with assms show ?thesis
    by (simp add: cond_inv_def cond_initial_def mutex_agrees_def cond_ok_def cond_cover_def)
qed

interpretation cond_wakes: invariant_system cond_initial
    "\<lambda>(s :: 't::finite cond_state) s'. futex_documented K \<and> card (UNIV :: 't set) < 2 ^ 31 \<and> cond_step K s s'"
    cond_inv for K
  by unfold_locales
    (auto intro: cond_inv_initial mutex_agrees_step cond_ok_step cond_step_cover simp: cond_inv_def
      dest: cond_inv_initial [unfolded cond_inv_def])

lemma reachable_cond_inv:
  fixes s :: "'t::finite cond_state"
  assumes "futex_documented K" and "card (UNIV :: 't set) < 2 ^ 31"
    and "reachable cond_initial (cond_step K) s"
  shows "cond_inv s"
  using cond_wakes.reachable_inv [OF reachable_mono [OF assms(3)]] assms(1,2) by blast

section \<open>Properties\<close>

text \<open>
  No missed signal. Take any futex that keeps its promises, fewer than \<open>2 ^ 31\<close> threads and fewer
  than \<open>2 ^ 32\<close> signals and broadcasts so far. If a thread is asleep in \<open>pthread_cond_wait\<close> and signal
  or broadcast number \<open>j\<close> came after the thread loaded the sequence number (which it does before it
  gives up the mutex), then either the wake of number \<open>j\<close> is still to be issued, or \<open>j\<close> was a signal,
  and its wake did end a thread's sleep.
\<close>

lemma cond_no_missed_signal:
  fixes s :: "'t::finite cond_state"
  assumes "futex_documented K" and "card (UNIV :: 't set) < 2 ^ 31"
    and "reachable cond_initial (cond_step K) s" and "length (history s) < 2 ^ 32"
    and "cpcs s t = WSleep rel q" and "loaded s t \<le> j" and "j < length (history s)"
  shows "(\<exists>u h n. cpcs s u = SWake h n \<and> bumped s u = j) \<or> (history s ! j = 1 \<and> j \<in> woke s)"
proof -
  have "cond_cover s" using reachable_cond_inv [OF assms(1-3)] by (simp add: cond_inv_def)
  moreover have "t \<in> csleepers s" using assms(5) by (auto simp: csleepers_def)
  ultimately show ?thesis using assms(4,6,7) by (simp add: cond_cover_def answered_def)
qed

text \<open>
  A broadcast wakes everybody: under the same hypotheses, a thread that loaded the sequence
  number before a broadcast incremented it is not asleep any more once the broadcast has issued its
  wake, that is, once no thread has the wake of this broadcast still before it.
\<close>

lemma cond_broadcast_wakes_all:
  fixes s :: "'t::finite cond_state"
  assumes "futex_documented K" and "card (UNIV :: 't set) < 2 ^ 31"
    and "reachable cond_initial (cond_step K) s" and "length (history s) < 2 ^ 32"
    and "loaded s t \<le> j" and "j < length (history s)" and "history s ! j = 0x7FFFFFFF"
    and "\<forall>u h n. cpcs s u = SWake h n \<longrightarrow> bumped s u \<noteq> j"
  shows "cpcs s t \<noteq> WSleep rel q"
proof
  assume asleep: "cpcs s t = WSleep rel q"
  have "cond_cover s" using reachable_cond_inv [OF assms(1-3)] by (simp add: cond_inv_def)
  moreover have "t \<in> csleepers s" using asleep by (auto simp: csleepers_def)
  ultimately have "answered s j" using assms(4-6) by (simp add: cond_cover_def)
  with assms(7,8) show False by (auto simp: answered_def)
qed

text \<open>
  The mutex around a wait: in every reachable state the mutex is held exactly by the thread whose
  program counter says so. So a thread that comes back from \<open>pthread_cond_wait\<close> has the mutex, also
  when the wait timed out, it does not have it while it waits, and nobody else has it with it.
\<close>

lemma cond_wait_returns_locked:
  assumes "reachable cond_initial (cond_step K) s"
  shows "pc_holds (cpcs s t) \<longleftrightarrow> chold s = Some t"
proof -
  have "mutex_agrees s"
    using assms
  proof induction
    case (reach_init s)
    then show ?case
      unfolding cond_initial_def mutex_agrees_def by (metis option.distinct(1) pc_holds.simps(1))
  qed (rule mutex_agrees_step)
  then show ?thesis by (simp add: mutex_agrees_def)
qed

end
