(* ===== verification/Neo_Monitor.thy ===== *)
theory Neo_Monitor
  imports Neo_Cond
begin

text \<open>
  A condition variable with its mutex (\<open>src/pthread.c\<close>), both as the code has them: where \<open>Neo_Cond\<close>
  takes and releases an abstract lock, the threads here run \<open>pthread_mutex_lock\<close> and
  \<open>pthread_mutex_unlock\<close> of \<open>Neo_Mutex\<close>, one atomic operation or futex call at a time. A thread has two
  program counters, one in the condition variable's code (or its caller) and one in the mutex's. The two
  futexes are the two words; the kernel's rules for them are the one parameter.

  Shown: the composition refines both components, so what was proved of each alone holds of the two
  together.
\<close>

section \<open>The model\<close>

record 't mon_state = "'t cond_vars" +
  mon_mutex :: "'t mutex_state"

definition mon_goto :: "'t \<Rightarrow> cpc \<Rightarrow> 't mon_state \<Rightarrow> 't mon_state" where
  "mon_goto t pc s = s\<lparr>cpcs := (cpcs s)(t := pc)\<rparr>"

definition mon_enter :: "'t \<Rightarrow> mpc \<Rightarrow> 't mon_state \<Rightarrow> 't mon_state" where
  "mon_enter t pc s = s\<lparr>mon_mutex := (mon_mutex s)\<lparr>mpcs := (mpcs (mon_mutex s))(t := pc)\<rparr>\<rparr>"

text \<open>Outside the code of the mutex, without and with it.\<close>

definition mon_free :: "'t mon_state \<Rightarrow> 't \<Rightarrow> bool" where
  "mon_free s t \<longleftrightarrow> (\<exists>r. mpcs (mon_mutex s) t = MOut r)"

definition mon_held :: "'t mon_state \<Rightarrow> 't \<Rightarrow> bool" where
  "mon_held s t \<longleftrightarrow> (\<exists>r. mpcs (mon_mutex s) t = MHeld r)"

inductive mon_step :: "'t futex_kernel \<Rightarrow> 't mon_state \<Rightarrow> 't mon_state \<Rightarrow> bool"
  for K :: "'t futex_kernel" where
  user_lock: "cpcs s t = CIdle h r \<Longrightarrow> mon_free s t \<Longrightarrow>
     mon_step K s (mon_enter t (pthread_mutex_lock m) s)"
| user_trylock: "cpcs s t = CIdle h r \<Longrightarrow> mon_free s t \<Longrightarrow>
     mon_step K s (mon_enter t (pthread_mutex_trylock m) s)"
| user_unlock: "cpcs s t = CIdle h r \<Longrightarrow> mon_held s t \<Longrightarrow>
     mon_step K s (mon_enter t (pthread_mutex_unlock m) s)"
| in_mutex: "mutex_step K (mon_mutex s) m' \<Longrightarrow>
     (\<And>t. mon_free s t \<or> mon_held s t \<Longrightarrow> mpcs m' t = mpcs (mon_mutex s) t) \<Longrightarrow>
     mon_step K s (s\<lparr>mon_mutex := m'\<rparr>)"
| user_wait: "cpcs s t = CIdle h r \<Longrightarrow> mon_held s t \<Longrightarrow>
     mon_step K s (mon_goto t (pthread_cond_wait c m) s)"
| user_timedwait: "cpcs s t = CIdle h r \<Longrightarrow> mon_held s t \<Longrightarrow>
     mon_step K s (mon_goto t (pthread_cond_timedwait_relative c m rel) s)"
| user_signal: "cpcs s t = CIdle h r \<Longrightarrow> mon_free s t \<or> mon_held s t \<Longrightarrow>
     mon_step K s (mon_goto t (pthread_cond_signal (mon_held s t) c) s)"
| user_broadcast: "cpcs s t = CIdle h r \<Longrightarrow> mon_free s t \<or> mon_held s t \<Longrightarrow>
     mon_step K s (mon_goto t (pthread_cond_broadcast (mon_held s t) c) s)"
| loads: "cpcs s t = WLoad rel \<Longrightarrow>
     mon_step K s ((mon_goto t (WUnlock rel (cseq s)) s)\<lparr>loaded := (loaded s)(t := length (history s))\<rparr>)"
| wait_unlocks: "cpcs s t = WUnlock rel q \<Longrightarrow> mon_held s t \<Longrightarrow> m \<noteq> 0 \<Longrightarrow>
     mon_step K s (mon_enter t (pthread_mutex_unlock m) s)"
| unlock_returns: "cpcs s t = WUnlock rel q \<Longrightarrow> mon_free s t \<Longrightarrow>
     mon_step K s (mon_goto t (WWait rel q) s)"
| sleeps: "cpcs s t = WWait rel q \<Longrightarrow> may_sleep K (cseq s) q \<Longrightarrow>
     mon_step K s (mon_goto t (WSleep rel q) s)"
| wait_returns: "cpcs s t = WWait rel q \<Longrightarrow> mon_step K s (mon_goto t (WLock rc) s)"
| sleep_ends: "cpcs s t = WSleep rel q \<Longrightarrow> mon_step K s (mon_goto t (WLock rc) s)"
| wait_locks: "cpcs s t = WLock rc \<Longrightarrow> mon_free s t \<Longrightarrow> m \<noteq> 0 \<Longrightarrow>
     mon_step K s (mon_enter t (pthread_mutex_lock m) s)"
| lock_returns: "cpcs s t = WLock rc \<Longrightarrow> mon_held s t \<Longrightarrow>
     mon_step K s (mon_goto t (CIdle True (cond_result rc)) s)"
| bumps: "cpcs s t = SAdd h n \<Longrightarrow>
     mon_step K s ((mon_goto t (SWake h n) s)\<lparr>cseq := cseq s + 1, history := history s @ [n],
                      bumped := (bumped s)(t := length (history s))\<rparr>)"
| wakes: "cpcs s t = SWake h n \<Longrightarrow> may_wake K (csleepers s) n W \<Longrightarrow>
     mon_step K s (s\<lparr>cpcs := (\<lambda>u. if u = t then CIdle h 0
                                      else if u \<in> W \<and> u \<in> csleepers s then WLock 0 else cpcs s u),
                      woke := (if W \<inter> csleepers s = {} then woke s else insert (bumped s t) (woke s))\<rparr>)"

definition mon_initial :: "'t mon_state \<Rightarrow> bool" where
  "mon_initial s \<longleftrightarrow> mutex_initial (mon_mutex s) \<and> cseq s = 0 \<and> (\<forall>t. \<exists>r. cpcs s t = CIdle False r) \<and>
     history s = [] \<and> woke s = {}"

section \<open>The two views\<close>

text \<open>
  Seen from the condition variable, a thread has released the mutex as soon as it no longer owns it,
  though it may still be about to wake a sleeper, and it is back from the wait as soon as it owns it.
\<close>

fun view_pc :: "bool \<Rightarrow> cpc \<Rightarrow> cpc" where
  "view_pc h (CIdle _ r) = CIdle h r"
| "view_pc h (WUnlock rel q) = (if h then WUnlock rel q else WWait rel q)"
| "view_pc h (WLock rc) = (if h then CIdle True (cond_result rc) else WLock rc)"
| "view_pc h pc = pc"

definition mon_view :: "'t mon_state \<Rightarrow> 't cond_state" where
  "mon_view s = \<lparr>cseq = cseq s, cpcs = (\<lambda>t. view_pc (owns (mpcs (mon_mutex s) t)) (cpcs s t)),
     history = history s, loaded = loaded s, bumped = bumped s, woke = woke s, chold = holder (mon_mutex s)\<rparr>"

text \<open>Where a thread can be in the mutex's code while it is at a place of the condition variable's.\<close>

fun pcs_fit :: "mpc \<Rightarrow> cpc \<Rightarrow> bool" where
  "pcs_fit m (CIdle h r) \<longleftrightarrow> True"
| "pcs_fit m (WLoad rel) \<longleftrightarrow> (\<exists>r. m = MHeld r)"
| "pcs_fit m (WUnlock rel q) \<longleftrightarrow> (\<exists>r. m = MHeld r \<or> m = MOut r) \<or> m \<in> {UDec, UStore, UWake}"
| "pcs_fit m (WWait rel q) \<longleftrightarrow> (\<exists>r. m = MOut r)"
| "pcs_fit m (WSleep rel q) \<longleftrightarrow> (\<exists>r. m = MOut r)"
| "pcs_fit m (WLock rc) \<longleftrightarrow> (\<exists>r. m = MHeld r \<or> m = MOut r) \<or> m \<in> {LCas, LXchg, LWait, LSleep}"
| "pcs_fit m (SAdd h n) \<longleftrightarrow> (\<exists>r. m = (if h then MHeld r else MOut r))"
| "pcs_fit m (SWake h n) \<longleftrightarrow> (\<exists>r. m = (if h then MHeld r else MOut r))"

definition mon_inv :: "'t mon_state \<Rightarrow> bool" where
  "mon_inv s \<longleftrightarrow> mutex_inv (mon_mutex s) \<and> (\<forall>t. pcs_fit (mpcs (mon_mutex s) t) (cpcs s t))"

lemma mutex_step_unlocking:
  assumes "mutex_step K m m'" and "mpcs m t \<in> {UDec, UStore, UWake}"
  shows "mpcs m' t \<in> {UDec, UStore, UWake} \<or> (\<exists>r. mpcs m' t = MOut r)"
  using assms(1)
proof cases
  case (atomic u pc' w')
  then show ?thesis using assms(2) by (cases "t = u") (auto split: if_splits)
qed (use assms(2) in \<open>auto simp: msleepers_def\<close>)

lemma mutex_step_locking:
  assumes "mutex_step K m m'" and "mpcs m t \<in> {LCas, LXchg, LWait, LSleep}"
  shows "mpcs m' t \<in> {LCas, LXchg, LWait, LSleep} \<or> (\<exists>r. mpcs m' t = MHeld r)"
  using assms(1)
proof cases
  case (atomic u pc' w')
  then show ?thesis using assms(2) by (cases "t = u") (auto split: if_splits)
qed (use assms(2) in \<open>auto simp: msleepers_def\<close>)

lemma pcs_fit_in_mutex:
  assumes step: "mutex_step K m m'" and fit: "pcs_fit (mpcs m t) pc"
    and quiet: "\<And>r. mpcs m t = MOut r \<or> mpcs m t = MHeld r \<Longrightarrow> mpcs m' t = mpcs m t"
  shows "pcs_fit (mpcs m' t) pc"
  using mutex_step_unlocking [OF step, of t] mutex_step_locking [OF step, of t] fit quiet
  by (cases pc) (auto split: if_splits)

lemmas mon_moves = mon_goto_def mon_enter_def mon_free_def mon_held_def

lemma mon_enter_step:
  "mon_free s t \<Longrightarrow> mutex_step K (mon_mutex s) (mon_mutex (mon_enter t (pthread_mutex_lock m) s))"
  "mon_free s t \<Longrightarrow> mutex_step K (mon_mutex s) (mon_mutex (mon_enter t (pthread_mutex_trylock m) s))"
  "mon_held s t \<Longrightarrow> mutex_step K (mon_mutex s) (mon_mutex (mon_enter t (pthread_mutex_unlock m) s))"
  by (auto simp: mon_moves intro: mutex_step.intros)

lemma call_fits:
  "m \<noteq> 0 \<Longrightarrow> pcs_fit (pthread_mutex_unlock m) (WUnlock rel q)" "m \<noteq> 0 \<Longrightarrow> pcs_fit (pthread_mutex_lock m) (WLock rc)"
  "mon_held s t \<Longrightarrow> pcs_fit (mpcs (mon_mutex s) t) (pthread_cond_wait c m')"
  "mon_held s t \<Longrightarrow> pcs_fit (mpcs (mon_mutex s) t) (pthread_cond_timedwait_relative c m' d)"
  "mon_free s t \<or> mon_held s t \<Longrightarrow> pcs_fit (mpcs (mon_mutex s) t) (pthread_cond_signal (mon_held s t) c)"
  "mon_free s t \<or> mon_held s t \<Longrightarrow> pcs_fit (mpcs (mon_mutex s) t) (pthread_cond_broadcast (mon_held s t) c)"
  "mon_held s t \<Longrightarrow> pcs_fit (mpcs (mon_mutex s) t) (pthread_cond_signal True c)"
  "mon_held s t \<Longrightarrow> pcs_fit (mpcs (mon_mutex s) t) (pthread_cond_broadcast True c)"
  "mon_free s t \<Longrightarrow> pcs_fit (mpcs (mon_mutex s) t) (WWait rel q)"
  by (auto simp: cond_calls pthread_mutex_lock_def pthread_mutex_unlock_def mon_free_def mon_held_def)

lemma mon_enter_fields [simp]:
  "cpcs (mon_enter t pc s) = cpcs s" "cseq (mon_enter t pc s) = cseq s" "history (mon_enter t pc s) = history s"
  "loaded (mon_enter t pc s) = loaded s" "bumped (mon_enter t pc s) = bumped s" "woke (mon_enter t pc s) = woke s"
  "mpcs (mon_mutex (mon_enter t pc s)) = (mpcs (mon_mutex s))(t := pc)"
  by (simp_all add: mon_enter_def)

lemma mon_goto_fields [simp]:
  "cpcs (mon_goto t pc s) = (cpcs s)(t := pc)" "cseq (mon_goto t pc s) = cseq s"
  "history (mon_goto t pc s) = history s" "loaded (mon_goto t pc s) = loaded s"
  "bumped (mon_goto t pc s) = bumped s" "woke (mon_goto t pc s) = woke s" "mon_mutex (mon_goto t pc s) = mon_mutex s"
  by (simp_all add: mon_goto_def)

lemma mon_inv_enter:
  assumes "mon_inv s" and "mutex_step K (mon_mutex s) (mon_mutex (mon_enter t pc s))" and "pcs_fit pc (cpcs s t)"
  shows "mon_inv (mon_enter t pc s)"
  using assms mutex_step_inv [OF _ assms(2)] by (simp add: mon_inv_def)

lemma mon_inv_goto:
  assumes "mon_inv s" and "pcs_fit (mpcs (mon_mutex s) t) pc"
  shows "mon_inv (mon_goto t pc s)" and "mon_inv ((mon_goto t pc s)\<lparr>loaded := l\<rparr>)"
    and "mon_inv ((mon_goto t pc s)\<lparr>cseq := q, history := H, bumped := b\<rparr>)"
  using assms by (simp_all add: mon_inv_def)

lemma mon_fit: "mon_inv s \<Longrightarrow> cpcs s t = pc \<Longrightarrow> pcs_fit (mpcs (mon_mutex s) t) pc"
  by (auto simp: mon_inv_def)

lemma mon_inv_step:
  assumes inv: "mon_inv s" and step: "mon_step K s s'"
  shows "mon_inv s'"
  using step
proof cases
  case (in_mutex m')
  then have "pcs_fit (mpcs m' t) (cpcs s t)" for t
    by (intro pcs_fit_in_mutex [OF in_mutex(2) mon_fit [OF inv refl]]) (auto simp: mon_moves)
  moreover have "mutex_inv m'" using inv mutex_step_inv [OF _ in_mutex(2)] by (simp add: mon_inv_def)
  ultimately show ?thesis using in_mutex by (simp add: mon_inv_def)
next
  case (wakes t h n W)
  then show ?thesis using inv by (auto simp: mon_inv_def csleepers_def dest: mon_fit [OF inv])
next
  case (loads t rel)
  then show ?thesis using mon_fit [OF inv loads(2)] by (auto intro!: mon_inv_goto [OF inv])
next
  case (wait_returns t rel q rc)
  then show ?thesis using mon_fit [OF inv wait_returns(2)] by (auto intro!: mon_inv_goto [OF inv])
next
  case (sleep_ends t rel q rc)
  then show ?thesis using mon_fit [OF inv sleep_ends(2)] by (auto intro!: mon_inv_goto [OF inv])
next
  case (sleeps t rel q)
  then show ?thesis using mon_fit [OF inv sleeps(2)] by (auto intro!: mon_inv_goto [OF inv])
next
  case (bumps t h n)
  then show ?thesis using mon_fit [OF inv bumps(2)] by (auto intro!: mon_inv_goto [OF inv])
qed (auto intro!: mon_inv_enter [OF inv] mon_inv_goto [OF inv] mon_enter_step call_fits
      simp del: pcs_fit.simps(2-))

section \<open>Refinement\<close>

lemma mon_step_mutex: "mon_step K s s' \<Longrightarrow> mon_mutex s' = mon_mutex s \<or> mutex_step K (mon_mutex s) (mon_mutex s')"
  by (erule mon_step.cases) (auto intro: mon_enter_step)

text \<open>One owner at most moves in a step of the mutex.\<close>

lemma mutex_step_owns:
  assumes "mutex_inv m" and "mutex_step K m m'"
  obtains (same) "\<And>t. owns (mpcs m' t) = owns (mpcs m t)" and "holder m' = holder m"
    | (acquire) t where "holder m = None" and "holder m' = Some t" and "\<And>u. owns (mpcs m' u) = (u = t)"
        and "\<And>u. \<not> owns (mpcs m u)"
    | (release) t where "holder m = Some t" and "holder m' = None" and "\<And>u. \<not> owns (mpcs m' u)"
        and "\<And>u. owns (mpcs m u) = (u = t)"
proof -
  have o: "owners x = {} \<or> (\<exists>t. owners x = {t})" if "mutex_inv x" for x :: "'a mutex_state"
    using that by (auto simp: mutex_inv_def)
  have none: "holder x = None \<and> (\<forall>u. \<not> owns (mpcs x u))" if "owners x = {}" for x :: "'a mutex_state"
    using that by (auto simp: holder_simps owners_def)
  have one: "holder x = Some t \<and> (\<forall>u. owns (mpcs x u) = (u = t))" if "owners x = {t}" for x :: "'a mutex_state" and t
    using that by (auto simp: holder_simps owners_def set_eq_iff)
  from mutex_step_one_owner_moves [OF assms(2)] obtain v where v: "owners m' - {v} = owners m - {v}" by blast
  from o [OF assms(1)] o [OF mutex_step_inv [OF assms]] show thesis
  proof (elim disjE exE)
    assume "owners m = {}" "owners m' = {}"
    with none [of m] none [of m'] show thesis by (intro same) auto
  next
    fix t assume "owners m = {}" "owners m' = {t}"
    with none [of m] one [of m' t] show thesis by (intro acquire) auto
  next
    fix t assume "owners m = {t}" "owners m' = {}"
    with none [of m'] one [of m t] show thesis by (intro release) auto
  next
    fix t u assume e: "owners m = {t}" "owners m' = {u}"
    with v have "u = t" by (cases "v = t") (auto simp: set_eq_iff)
    with e one [of m t] one [of m' u] show thesis by (intro same) auto
  qed
qed

lemma mutex_step_waking:
  assumes "mutex_step K m m'" and "mpcs m t = UWake"
  shows "\<not> owns (mpcs m' t)"
  using assms(1)
proof cases
  case (atomic u pc' w')
  then show ?thesis using assms(2) by (cases "t = u") auto
qed (use assms(2) in \<open>auto simp: msleepers_def\<close>)

lemma holder_cong: "(\<And>t. owns (mpcs m' t) = owns (mpcs m t)) \<Longrightarrow> holder m' = holder m"
  by (simp add: holder_def owners_def)

lemma mon_view_fields [simp]:
  "cseq (mon_view s) = cseq s" "history (mon_view s) = history s" "loaded (mon_view s) = loaded s"
  "bumped (mon_view s) = bumped s" "woke (mon_view s) = woke s" "chold (mon_view s) = holder (mon_mutex s)"
  "cpcs (mon_view s) t = view_pc (owns (mpcs (mon_mutex s) t)) (cpcs s t)"
  by (simp_all add: mon_view_def)

lemma mon_view_enter: "owns pc = owns (mpcs (mon_mutex s) t) \<Longrightarrow> mon_view (mon_enter t pc s) = mon_view s"
  using holder_cong [of "mon_mutex (mon_enter t pc s)" "mon_mutex s"] by (auto simp: mon_view_def fun_eq_iff)

lemma mon_view_goto:
  "mon_view (mon_goto t pc s) =
     (mon_view s)\<lparr>cpcs := (cpcs (mon_view s))(t := view_pc (owns (mpcs (mon_mutex s) t)) pc)\<rparr>"
  "mon_view ((mon_goto t pc s)\<lparr>loaded := l\<rparr>) =
     (mon_view s)\<lparr>cpcs := (cpcs (mon_view s))(t := view_pc (owns (mpcs (mon_mutex s) t)) pc), loaded := l\<rparr>"
  "mon_view ((mon_goto t pc s)\<lparr>cseq := q, history := H, bumped := b\<rparr>) =
     (mon_view s)\<lparr>cseq := q, cpcs := (cpcs (mon_view s))(t := view_pc (owns (mpcs (mon_mutex s) t)) pc),
        history := H, bumped := b\<rparr>"
  by (auto simp: mon_view_def fun_eq_iff)

lemma mon_view_goto_same:
  "view_pc (owns (mpcs (mon_mutex s) t)) pc = cpcs (mon_view s) t \<Longrightarrow> mon_view (mon_goto t pc s) = mon_view s"
  by (simp add: mon_view_goto(1) fun_upd_idem)

lemma view_sleep [simp]: "view_pc h pc = WSleep rel q \<longleftrightarrow> pc = WSleep rel q"
  by (cases pc) auto

lemma view_wake: "view_pc h pc = SWake h' n \<longleftrightarrow> pc = SWake h' n"
  by (cases pc) auto

lemma csleepers_view [simp]: "csleepers (mon_view s) = csleepers s"
  by (simp add: csleepers_def)

lemma mon_view_in_mutex:
  assumes inv: "mon_inv s" and step: "mutex_step K (mon_mutex s) m'"
    and quiet: "\<And>t. mon_free s t \<or> mon_held s t \<Longrightarrow> mpcs m' t = mpcs (mon_mutex s) t"
  shows "mon_view (s\<lparr>mon_mutex := m'\<rparr>) = mon_view s \<or> cond_step K (mon_view s) (mon_view (s\<lparr>mon_mutex := m'\<rparr>))"
proof -
  have "mutex_inv (mon_mutex s)" using inv by (simp add: mon_inv_def)
  then show ?thesis using step
  proof (cases rule: mutex_step_owns)
    case same
    then show ?thesis by (auto simp: mon_view_def)
  next
    case (acquire t)
    then have pcs: "cpcs (mon_view (s\<lparr>mon_mutex := m'\<rparr>)) = (cpcs (mon_view s))(t := view_pc True (cpcs s t))"
      by (auto simp: fun_eq_iff)
    then have v: "mon_view (s\<lparr>mon_mutex := m'\<rparr>) =
        (mon_view s)\<lparr>chold := Some t, cpcs := (cpcs (mon_view s))(t := view_pc True (cpcs s t))\<rparr>"
      using acquire(2) by (simp add: mon_view_def)
    have "\<not> owns (mpcs (mon_mutex s) t)" "owns (mpcs m' t)" using acquire(3,4) by auto
    with mon_fit [OF inv refl, of t] quiet [of t] mutex_step_waking [OF step, of t]
    have "(\<exists>h r. cpcs s t = CIdle h r) \<or> (\<exists>rc. cpcs s t = WLock rc)"
      by (cases "cpcs s t") (auto simp: mon_free_def mon_held_def split: if_splits)
    then show ?thesis unfolding v using acquire(1,4)
      by (auto intro!: cond_step.locks cond_step.relocks)
  next
    case (release t)
    then have pcs: "cpcs (mon_view (s\<lparr>mon_mutex := m'\<rparr>)) = (cpcs (mon_view s))(t := view_pc False (cpcs s t))"
      by (auto simp: fun_eq_iff)
    then have v: "mon_view (s\<lparr>mon_mutex := m'\<rparr>) =
        (mon_view s)\<lparr>chold := None, cpcs := (cpcs (mon_view s))(t := view_pc False (cpcs s t))\<rparr>"
      using release(2) by (simp add: mon_view_def)
    have own: "owns (mpcs (mon_mutex s) t)" "\<not> owns (mpcs m' t)" using release(3,4) by auto
    with mon_fit [OF inv refl, of t] quiet [of t]
    have "(\<exists>h r. cpcs s t = CIdle h r) \<or> (\<exists>rel q. cpcs s t = WUnlock rel q)"
      by (cases "cpcs s t") (auto simp: mon_free_def mon_held_def split: if_splits)
    then show ?thesis unfolding v using own(1)
      by (auto intro!: cond_step.unlocks cond_step.releases)
  qed
qed

lemma mon_owns: "mon_free s t \<Longrightarrow> \<not> owns (mpcs (mon_mutex s) t)" "mon_held s t \<Longrightarrow> owns (mpcs (mon_mutex s) t)"
  by (auto simp: mon_free_def mon_held_def)

lemma view_calls:
  "view_pc h (pthread_cond_signal h c) = pthread_cond_signal h c"
  "view_pc h (pthread_cond_broadcast h c) = pthread_cond_broadcast h c"
  "view_pc True (pthread_cond_wait c m) = pthread_cond_wait c m"
  "view_pc True (pthread_cond_timedwait_relative c m rel) = pthread_cond_timedwait_relative c m rel"
  by (simp_all add: cond_calls)

lemma mon_view_wakes:
  assumes "mon_inv s" and "cpcs s t = SWake h n"
  shows "mon_view (s\<lparr>cpcs := (\<lambda>u. if u = t then CIdle h 0 else if u \<in> W \<and> u \<in> csleepers s then WLock 0 else cpcs s u),
           woke := w\<rparr>) =
         (mon_view s)\<lparr>cpcs := (\<lambda>u. if u = t then CIdle h 0
             else if u \<in> W \<and> u \<in> csleepers (mon_view s) then WLock 0 else cpcs (mon_view s) u), woke := w\<rparr>"
proof -
  have "owns (mpcs (mon_mutex s) t) = h" using mon_fit [OF assms] by (auto split: if_splits)
  moreover have "\<not> owns (mpcs (mon_mutex s) u)" if "u \<in> csleepers s" for u
    using mon_fit [OF assms(1) refl, of u] that by (auto simp: csleepers_def)
  ultimately show ?thesis by (auto simp: mon_view_def csleepers_def fun_eq_iff)
qed

lemma mon_step_view:
  assumes inv: "mon_inv s" and step: "mon_step K s s'"
  shows "mon_view s' = mon_view s \<or> cond_step K (mon_view s) (mon_view s')"
  using step
proof cases
  case (in_mutex m')
  with mon_view_in_mutex [OF inv in_mutex(2)] show ?thesis by blast
next
  case (wakes t h n W)
  have "cpcs (mon_view s) t = SWake h n" "may_wake K (csleepers (mon_view s)) n W" using wakes by simp_all
  from cond_step.wakes [OF this] show ?thesis
    unfolding wakes(1) mon_view_wakes [OF inv wakes(2)] mon_view_fields csleepers_view by blast
next
  case (loads t rel)
  then show ?thesis using cond_step.loads [of "mon_view s" t rel K] mon_fit [OF inv loads(2)]
    by (auto simp: mon_view_goto)
next
  case (bumps t h n)
  then show ?thesis using cond_step.bumps [of "mon_view s" t h n K] mon_fit [OF inv bumps(2)]
    by (simp add: mon_view_goto)
next
  case (sleeps t rel q)
  then show ?thesis using cond_step.sleeps [of "mon_view s" t rel q K] by (simp add: mon_view_goto)
next
  case (wait_returns t rel q rc)
  then show ?thesis using cond_step.wait_returns [of "mon_view s" t rel q K rc] mon_fit [OF inv wait_returns(2)]
    by (auto simp: mon_view_goto)
next
  case (sleep_ends t rel q rc)
  then show ?thesis using cond_step.sleep_ends [of "mon_view s" t rel q K rc] mon_fit [OF inv sleep_ends(2)]
    by (auto simp: mon_view_goto)
next
  case (user_signal t h r c)
  moreover from this have "mon_held s t = owns (mpcs (mon_mutex s) t)" by (auto dest: mon_owns)
  ultimately show ?thesis using cond_step.calls_signal [of "mon_view s" t "mon_held s t" r K c]
    by (simp add: mon_view_goto view_calls)
next
  case (user_broadcast t h r c)
  moreover from this have "mon_held s t = owns (mpcs (mon_mutex s) t)" by (auto dest: mon_owns)
  ultimately show ?thesis using cond_step.calls_broadcast [of "mon_view s" t "mon_held s t" r K c]
    by (simp add: mon_view_goto view_calls)
next
  case (user_wait t h r c m)
  then show ?thesis using cond_step.calls_wait [of "mon_view s" t r K c m] mon_owns(2) [of s t]
    by (simp add: mon_view_goto view_calls)
next
  case (user_timedwait t h r c m rel)
  then show ?thesis using cond_step.calls_timedwait [of "mon_view s" t r K c m rel] mon_owns(2) [of s t]
    by (simp add: mon_view_goto view_calls)
qed (auto simp: mon_view_enter mon_owns intro!: mon_view_goto_same)

interpretation monitor: invariant_system mon_initial "mon_step K"
    "\<lambda>s. mon_inv s \<and> reachable mutex_initial (mutex_step K) (mon_mutex s) \<and>
      reachable cond_initial (cond_step K) (mon_view s)" for K
proof
  fix s :: "'a mon_state"
  assume i: "mon_initial s"
  have m: "mutex_initial (mon_mutex s)" using i by (simp add: mon_initial_def)
  then have o: "\<not> owns (mpcs (mon_mutex s) t)" for t by (metis mutex_initial_def owns_simps(1))
  then have e: "owners (mon_mutex s) = {}" by (simp add: owners_def)
  have "\<exists>r. view_pc False (cpcs s t) = CIdle False r" for t using i by (metis mon_initial_def view_pc.simps(1))
  then have c: "cond_initial (mon_view s)" using i o e by (simp add: cond_initial_def mon_initial_def holder_simps)
  have "pcs_fit (mpcs (mon_mutex s) t) (cpcs s t)" for t using i by (metis mon_initial_def pcs_fit.simps(1))
  then have "mon_inv s" using m e by (simp add: mon_inv_def mutex_inv_def mutex_initial_def)
  with m c show "mon_inv s \<and> reachable mutex_initial (mutex_step K) (mon_mutex s) \<and>
      reachable cond_initial (cond_step K) (mon_view s)" by (auto intro: reach_init)
next
  fix s t :: "'a mon_state"
  assume "mon_inv s \<and> reachable mutex_initial (mutex_step K) (mon_mutex s) \<and>
      reachable cond_initial (cond_step K) (mon_view s)" and "mon_step K s t"
  then show "mon_inv t \<and> reachable mutex_initial (mutex_step K) (mon_mutex t) \<and>
      reachable cond_initial (cond_step K) (mon_view t)"
    using mon_inv_step [of s K t] mon_step_mutex [of K s t] mon_step_view [of s K t] by (auto intro: reach_step)
qed

section \<open>A concrete run\<close>

text \<open>
  Thread \<open>True\<close> takes the mutex, waits, and falls asleep; then either thread \<open>False\<close> signals, or the sleep
  ends and thread \<open>True\<close> takes the mutex again.
\<close>

definition mon_run :: "i32 \<Rightarrow> i32 list \<Rightarrow> cpc \<Rightarrow> cpc \<Rightarrow> i32 \<Rightarrow> mpc \<Rightarrow> bool mon_state" where
  "mon_run q H a b w m = \<lparr>cseq = q, cpcs = (\<lambda>t. if t then a else b), history = H, loaded = (\<lambda>t. 0),
     bumped = (\<lambda>t. 0), woke = {}, mon_mutex = \<lparr>mword = w, mpcs = (\<lambda>t. if t then m else MOut 0)\<rparr>\<rparr>"

lemma mon_run_moves [simp]:
  "mon_goto True a' (mon_run q H a b w m) = mon_run q H a' b w m"
  "mon_goto False b' (mon_run q H a b w m) = mon_run q H a b' w m"
  "mon_enter True m' (mon_run q H a b w m) = mon_run q H a b w m'"
  "cseq (mon_run q H a b w m) = q" "history (mon_run q H a b w m) = H"
  "cpcs (mon_run q H a b w m) t = (if t then a else b)"
  "mon_free (mon_run q H a b w m) t \<longleftrightarrow> t \<longrightarrow> (\<exists>r. m = MOut r)"
  "mon_held (mon_run q H a b w m) t \<longleftrightarrow> t \<and> (\<exists>r. m = MHeld r)"
  "(mon_run q H a b w m)\<lparr>loaded := (loaded (mon_run q H a b w m))(t := 0)\<rparr> = mon_run q H a b w m"
  by (auto simp: mon_run_def mon_moves bool_fun_upd fun_eq_iff)

lemma mon_run_in_mutex:
  assumes "mutex_atomic m w = Some (m', w')"
  shows "mon_step K (mon_run q H a b w m) (mon_run q H a b w' m')"
proof -
  have "mutex_step K (mon_mutex (mon_run q H a b w m)) (mon_mutex (mon_run q H a b w' m'))"
    using mutex_step.atomic [of "mon_mutex (mon_run q H a b w m)" True m' w' K] assms
    by (simp add: mon_run_def bool_fun_upd)
  moreover have "mpcs (mon_mutex (mon_run q H a b w' m')) t = mpcs (mon_mutex (mon_run q H a b w m)) t"
    if "mon_free (mon_run q H a b w m) t \<or> mon_held (mon_run q H a b w m) t" for t
    using that assms by (auto simp: mon_run_def mon_free_def mon_held_def)
  ultimately have "mon_step K (mon_run q H a b w m)
      ((mon_run q H a b w m)\<lparr>mon_mutex := mon_mutex (mon_run q H a b w' m')\<rparr>)" by (rule mon_step.in_mutex)
  then show ?thesis by (simp add: mon_run_def)
qed

lemma mon_run_asleep:
  "reachable mon_initial (mon_step exact_futex) (mon_run 0 [] (WSleep False 0) (CIdle False 0) 0 (MOut 0))"
proof -
  let ?R = "\<lambda>a w m. reachable mon_initial (mon_step exact_futex) (mon_run 0 [] a (CIdle False 0) w m)"
  have "?R (CIdle False 0) 0 (MOut 0)"
    by (intro reach_init) (simp add: mon_initial_def mutex_initial_def mon_run_def)
  from reach_step [OF this mon_step.user_lock [where t = True and m = 1 and h = False]]
  have "?R (CIdle False 0) 0 LCas" by (simp add: pthread_mutex_lock_def)
  from reach_step [OF this mon_run_in_mutex [where m' = "MHeld 0" and w' = 1]]
  have "?R (CIdle False 0) 1 (MHeld 0)" by simp
  from reach_step [OF this mon_step.user_wait [where t = True and c = 1 and m = 1 and h = False]]
  have "?R (WLoad False) 1 (MHeld 0)" by (simp add: cond_calls)
  from reach_step [OF this mon_step.loads [where t = True and rel = False]]
  have "?R (WUnlock False 0) 1 (MHeld 0)" by (simp add: mon_run_def mon_goto_def bool_fun_upd fun_upd_idem)
  from reach_step [OF this mon_step.wait_unlocks [where t = True and m = 1 and rel = False]]
  have "?R (WUnlock False 0) 1 UDec" by (simp add: pthread_mutex_unlock_def)
  from reach_step [OF this mon_run_in_mutex [where m' = "MOut 0" and w' = 0]]
  have "?R (WUnlock False 0) 0 (MOut 0)" by simp
  from reach_step [OF this mon_step.unlock_returns [where t = True and rel = False]]
  have "?R (WWait False 0) 0 (MOut 0)" by simp
  from reach_step [OF this mon_step.sleeps [where t = True and rel = False]]
  show ?thesis by (simp add: exact_futex_def)
qed

lemma mon_run_signalled:
  "reachable mon_initial (mon_step exact_futex) (mon_run 1 [1] (WSleep False 0) (SWake False 1) 0 (MOut 0))"
proof -
  let ?R = "\<lambda>s. reachable mon_initial (mon_step exact_futex) s"
  from reach_step [OF mon_run_asleep mon_step.user_signal [where t = False and c = 1 and h = False]]
  have "?R (mon_run 0 [] (WSleep False 0) (SAdd False 1) 0 (MOut 0))" by (simp add: cond_calls)
  from reach_step [OF this mon_step.bumps [where t = False and h = False]]
  show ?thesis by (simp add: mon_run_def mon_goto_def bool_fun_upd fun_upd_idem)
qed

lemma mon_run_relocked:
  "reachable mon_initial (mon_step exact_futex) (mon_run 0 [] (WLock 0) (CIdle False 0) 1 (MHeld 0))"
proof -
  let ?R = "\<lambda>w m. reachable mon_initial (mon_step exact_futex) (mon_run 0 [] (WLock 0) (CIdle False 0) w m)"
  from reach_step [OF mon_run_asleep mon_step.sleep_ends [where t = True and rc = 0 and rel = False]]
  have "?R 0 (MOut 0)" by simp
  from reach_step [OF this mon_step.wait_locks [where t = True and m = 1]]
  have "?R 0 LCas" by (simp add: pthread_mutex_lock_def)
  from reach_step [OF this mon_run_in_mutex [where m' = "MHeld 0" and w' = 1]]
  show ?thesis by simp
qed

section \<open>Properties\<close>

text \<open>
  C17. A condition variable over the real mutex refines one over an abstract lock. In every reachable
  state of the composed code, what the mutex's code has done by itself is a run of the mutex alone, and
  the state seen from the condition variable (\<open>mon_view\<close>: the mutex reduced to its holder) is a reachable
  state of the condition variable with the abstract lock.
\<close>

theorem monitor_refines_cond:
  assumes "reachable mon_initial (mon_step K) s"
  shows "reachable mutex_initial (mutex_step K) (mon_mutex s) \<and> reachable cond_initial (cond_step K) (mon_view s)"
  using monitor.reachable_inv [OF assms] by blast

theorem monitor_refines_cond_witness:
  "reachable cond_initial (cond_step exact_futex)
     (mon_view (mon_run 1 [1] (WSleep False 0) (SWake False 1) 0 (MOut 0)))"
  using monitor_refines_cond [OF mon_run_signalled] by blast

text \<open>
  C6. No missed signal, with the code of the mutex and of the condition variable together. Take any
  futex that keeps its promises, fewer than \<open>2 ^ 31\<close> threads and fewer than \<open>2 ^ 32\<close> signals and
  broadcasts so far. If a thread is asleep in \<open>pthread_cond_wait\<close> and signal or broadcast number \<open>j\<close> came
  after the thread loaded the sequence number (which it does while it still has the mutex), then either
  the wake of number \<open>j\<close> is still to be issued, or \<open>j\<close> was a signal, and its wake did end a thread's
  sleep. In particular a broadcast leaves nobody asleep who waited before it.
\<close>

theorem monitor_no_missed_signal:
  fixes s :: "'t::finite mon_state"
  assumes "futex_documented K" and "card (UNIV :: 't set) < 2 ^ 31"
    and "reachable mon_initial (mon_step K) s" and "length (history s) < 2 ^ 32"
    and "cpcs s t = WSleep rel q" and "loaded s t \<le> j" and "j < length (history s)"
  shows "(\<exists>u h n. cpcs s u = SWake h n \<and> bumped s u = j) \<or> (history s ! j = 1 \<and> j \<in> woke s)"
proof -
  have "reachable cond_initial (cond_step K) (mon_view s)" using monitor.reachable_inv [OF assms(3)] by blast
  from cond_no_missed_signal [OF assms(1,2) this, of t rel q j] assms(4-7)
  show ?thesis by (auto simp: view_wake)
qed

theorem monitor_no_missed_signal_witness:
  "\<exists>u h n. cpcs (mon_run 1 [1] (WSleep False 0) (SWake False 1) 0 (MOut 0)) u = SWake h n"
  using monitor_no_missed_signal [OF exact_futex_documented _ mon_run_signalled, where j = 0 and t = True
      and rel = False and q = 0]
  by (auto simp: mon_run_def)

text \<open>
  C21. Back from a wait with the mutex. When a thread leaves \<open>cond_wait_common\<close> after its sleep, also
  after a timeout, it owns the mutex, the word of the mutex says that it is locked, no other thread owns
  it, and the call returns \<open>-ETIMEDOUT\<close> exactly if the futex call did and 0 otherwise. While a thread waits
  on the futex it does not own the mutex.
\<close>

theorem monitor_wait_returns_locked:
  assumes "reachable mon_initial (mon_step K) s" and "cpcs s t = WLock rc" and "mon_step K s s'"
    and "cpcs s' t = CIdle h r"
  shows "r = (if rc = - ETIMEDOUT then - ETIMEDOUT else 0) \<and> mword (mon_mutex s') \<noteq> 0 \<and>
         (\<forall>u. owns (mpcs (mon_mutex s') u) \<longleftrightarrow> u = t) \<and>
         (\<forall>u rel q. cpcs s u = WWait rel q \<or> cpcs s u = WSleep rel q \<longrightarrow> \<not> owns (mpcs (mon_mutex s) u))"
proof -
  have inv: "mon_inv s" and inv': "mon_inv s'"
    using monitor.reachable_inv [OF assms(1)] mon_inv_step assms(3) by blast+
  have "\<not> owns (mpcs (mon_mutex s) u)" if "cpcs s u = WWait rel q \<or> cpcs s u = WSleep rel q" for u rel q
    using that mon_fit [OF inv refl, of u] by auto
  moreover have "r = cond_result rc \<and> owns (mpcs (mon_mutex s') t)"
    using assms(3,2,4) by cases (auto simp: csleepers_def dest: mon_owns split: if_splits)
  moreover from this inv' have "mword (mon_mutex s') \<noteq> 0 \<and> (\<forall>u. owns (mpcs (mon_mutex s') u) \<longleftrightarrow> u = t)"
    unfolding mon_inv_def by (auto elim!: mutex_inv_cases) (auto simp: owners_def set_eq_iff)
  ultimately show ?thesis by (auto simp: cond_result_def)
qed

theorem monitor_wait_returns_locked_witness:
  "owns (mpcs (mon_mutex (mon_run 0 [] (CIdle True 0) (CIdle False 0) 1 (MHeld 0))) True)"
proof -
  have "mon_step exact_futex (mon_run 0 [] (WLock 0) (CIdle False 0) 1 (MHeld 0))
      (mon_run 0 [] (CIdle True 0) (CIdle False 0) 1 (MHeld 0))"
    using mon_step.lock_returns [of "mon_run 0 [] (WLock 0) (CIdle False 0) 1 (MHeld 0)" True 0 exact_futex]
    by (simp add: cond_result_def)
  from monitor_wait_returns_locked [OF mon_run_relocked _ this, of True 0 True 0] show ?thesis by simp
qed

end
