(* ===== verification/Neo_Semaphore.thy ===== *)
theory Neo_Semaphore
  imports Neo_Futex
begin

text \<open>
  The counting semaphore of \<open>src/semaphore.c\<close>, interleaved at every atomic operation like the
  mutex. The shared word is the count, a C \<open>int\<close> that wraps. The program counters:
  \<^item> \<open>SOut r\<close>: in the caller's code, after a call returned \<open>r\<close>;
  \<^item> \<open>STLoad\<close>, \<open>STCas v\<close>: \<open>sem_trywait\<close>, at the load and at the weak compare-exchange with the
    expected value \<open>v\<close>;
  \<^item> \<open>SWLoad b\<close>, \<open>SWCas v b\<close>, \<open>SWWait b\<close>, \<open>SWSleep b\<close>: \<open>sem_wait_common\<close>, at the load, at the
    compare-exchange, at the futex call, and asleep in it; \<open>b\<close> says that a timeout was given;
  \<^item> \<open>SPAdd\<close>, \<open>SPWake\<close>: \<open>sem_post\<close>, at the fetch-add and at the wake.

  The counters \<open>sposts\<close> and \<open>stakes\<close> of completed increments and decrements are not in the code;
  no operation reads them.
\<close>

section \<open>The model\<close>

record sem_t =
  sem_value :: i32
  sem_pshared :: i32

definition sem_init :: "addr \<Rightarrow> i32 \<Rightarrow> u32 \<Rightarrow> sem_t \<Rightarrow> i32 \<times> sem_t" where
  "sem_init sem pshared v s =
     (if sem = 0 then (- EINVAL, s)
      else (0, s\<lparr>sem_pshared := pshared, sem_value := v\<rparr>))"

definition sem_destroy :: "addr \<Rightarrow> i32" where
  "sem_destroy sem = (if sem = 0 then - EINVAL else 0)"

text \<open>Reading the count: the result, and what is stored through the second pointer.\<close>

definition sem_getvalue :: "addr \<Rightarrow> addr \<Rightarrow> i32 \<Rightarrow> i32 \<times> i32 option" where
  "sem_getvalue sem out v = (if sem = 0 \<or> out = 0 then (- EINVAL, None) else (0, Some v))"

datatype spc = SOut i32 | STLoad | STCas i32 | SWLoad bool | SWCas i32 bool | SWWait bool
  | SWSleep bool | SPAdd | SPWake

definition sem_trywait :: "addr \<Rightarrow> spc" where
  "sem_trywait sem = (if sem = 0 then SOut (- EINVAL) else STLoad)"

definition sem_wait_common :: "addr \<Rightarrow> addr \<Rightarrow> spc" where
  "sem_wait_common sem rel = (if sem = 0 then SOut (- EINVAL) else SWLoad (rel \<noteq> 0))"

definition sem_wait :: "addr \<Rightarrow> spc" where
  "sem_wait sem = sem_wait_common sem 0"

definition sem_timedwait_relative :: "addr \<Rightarrow> addr \<Rightarrow> spc" where
  "sem_timedwait_relative sem rel =
     (if rel = 0 then SOut (- EINVAL) else sem_wait_common sem rel)"

definition sem_post :: "addr \<Rightarrow> spc" where
  "sem_post sem = (if sem = 0 then SOut (- EINVAL) else SPAdd)"

text \<open>
  \<open>sem_try_next w\<close> is the loop test of \<open>sem_trywait\<close> on a freshly read count \<open>w\<close>. The weak
  compare-exchange may fail although the count is as expected; that is the argument \<open>weak\<close>.
  A failed exchange leaves the count it saw in \<open>v\<close>.
\<close>

definition sem_try_next :: "i32 \<Rightarrow> spc" where
  "sem_try_next w = (if 0 < sint w then STCas w else SOut (- EAGAIN))"

fun sem_atomic :: "bool \<Rightarrow> spc \<Rightarrow> i32 \<Rightarrow> (spc \<times> i32) option" where
  "sem_atomic weak STLoad w = Some (sem_try_next w, w)"
| "sem_atomic weak (STCas v) w =
     Some (if w = v \<and> \<not> weak then (SOut 0, v - 1) else (sem_try_next w, w))"
| "sem_atomic weak (SWLoad b) w = Some (if 0 < sint w then SWCas w b else SWWait b, w)"
| "sem_atomic weak (SWCas v b) w =
     Some (if w = v \<and> \<not> weak then (SOut 0, v - 1) else (SWLoad b, w))"
| "sem_atomic weak SPAdd w = Some (SPWake, w + 1)"
| "sem_atomic weak _ w = None"

record 't sem_state =
  svalue :: i32
  spcs :: "'t \<Rightarrow> spc"
  sposts :: nat
  stakes :: nat

definition ssleepers :: "'t sem_state \<Rightarrow> 't set" where
  "ssleepers s = {t. \<exists>b. spcs s t = SWSleep b}"

definition sem_ghost :: "spc \<Rightarrow> 't sem_state \<Rightarrow> 't sem_state" where
  "sem_ghost pc' s =
     s\<lparr>sposts := sposts s + of_bool (pc' = SPWake),
       stakes := stakes s + of_bool (pc' = SOut 0)\<rparr>"

text \<open>A woken sleeper returns from the futex call and loops to the load.\<close>

fun sem_woken :: "bool \<Rightarrow> spc \<Rightarrow> spc" where
  "sem_woken woken (SWSleep b) = (if woken then SWLoad b else SWSleep b)"
| "sem_woken woken pc = pc"

inductive sem_step :: "'t futex_kernel \<Rightarrow> 't sem_state \<Rightarrow> 't sem_state \<Rightarrow> bool"
  for K :: "'t futex_kernel" where
  call: "spcs s t = SOut r \<Longrightarrow>
     pc \<in> {sem_trywait sem, sem_wait sem, sem_timedwait_relative sem rel, sem_post sem} \<Longrightarrow>
     sem_step K s (s\<lparr>spcs := (spcs s)(t := pc)\<rparr>)"
| atomic: "sem_atomic weak (spcs s t) (svalue s) = Some (pc', w') \<Longrightarrow>
     sem_step K s (sem_ghost pc' s\<lparr>svalue := w', spcs := (spcs s)(t := pc')\<rparr>)"
| sleep: "spcs s t = SWWait b \<Longrightarrow> may_sleep K (svalue s) 0 \<Longrightarrow>
     sem_step K s (s\<lparr>spcs := (spcs s)(t := SWSleep b)\<rparr>)"
| wait_returns: "spcs s t \<in> {SWWait b, SWSleep b} \<Longrightarrow>
     sem_step K s (s\<lparr>spcs := (spcs s)(t := SWLoad b)\<rparr>)"
| timeout: "spcs s t \<in> {SWWait True, SWSleep True} \<Longrightarrow>
     sem_step K s (s\<lparr>spcs := (spcs s)(t := SOut (- ETIMEDOUT))\<rparr>)"
| wake: "spcs s t = SPWake \<Longrightarrow> may_wake K (ssleepers s) 1 W \<Longrightarrow>
     sem_step K s (s\<lparr>spcs := (\<lambda>u. sem_woken (u \<in> W) (spcs s u))(t := SOut 0)\<rparr>)"

definition sem_initial :: "i32 \<Rightarrow> 't sem_state \<Rightarrow> bool" where
  "sem_initial v s \<longleftrightarrow>
     svalue s = v \<and> sposts s = 0 \<and> stakes s = 0 \<and> (\<forall>t. \<exists>r. spcs s t = SOut r)"

section \<open>The count is never handed out twice\<close>

definition sem_pc_ok :: "spc \<Rightarrow> bool" where
  "sem_pc_ok pc = (case pc of STCas v \<Rightarrow> 0 < sint v | SWCas v b \<Rightarrow> 0 < sint v | _ \<Rightarrow> True)"

lemma sem_pc_ok_simps [simp]:
  "sem_pc_ok (SOut r)" "sem_pc_ok STLoad" "sem_pc_ok (STCas v) \<longleftrightarrow> 0 < sint v" "sem_pc_ok (SWLoad b)"
  "sem_pc_ok (SWCas v b) \<longleftrightarrow> 0 < sint v" "sem_pc_ok (SWWait b)" "sem_pc_ok (SWSleep b)"
  "sem_pc_ok SPAdd" "sem_pc_ok SPWake" "sem_pc_ok (sem_try_next w)"
  by (auto simp: sem_pc_ok_def sem_try_next_def)

lemma sem_pc_ok_woken [simp]: "sem_pc_ok (sem_woken b pc) = sem_pc_ok pc"
  by (cases pc) auto

lemma sem_call_cases:
  assumes "pc \<in> {sem_trywait sem, sem_wait sem, sem_timedwait_relative sem rel, sem_post sem}"
  obtains (einval) "pc = SOut (- EINVAL)" | (trywait) "pc = STLoad" | (wait) b where "pc = SWLoad b"
    | (post) "pc = SPAdd"
  using assms by (auto simp: sem_trywait_def sem_wait_def sem_wait_common_def
      sem_timedwait_relative_def sem_post_def split: if_splits)

definition sem_inv :: "i32 \<Rightarrow> 't sem_state \<Rightarrow> bool" where
  "sem_inv v s \<longleftrightarrow> (\<forall>t. sem_pc_ok (spcs s t)) \<and>
     svalue s = v + of_nat (sposts s) - of_nat (stakes s) \<and>
     (0 \<le> sint v \<and> sint v + int (sposts s) < 2147483648 \<longrightarrow>
        int (stakes s) \<le> sint v + int (sposts s))"

lemma sem_count_exact:
  assumes "w = v + of_nat p - of_nat k" and "0 \<le> sint v" and "sint v + int p < 2147483648"
    and "int k \<le> sint v + int p"
  shows "sint (w :: i32) = sint v + int p - int k"
proof -
  have "w = word_of_int (sint v + int p - int k)"
    by (simp add: assms(1))
  then show ?thesis using sint_word_of_int_i32 [of "sint v + int p - int k"] assms by simp
qed

lemma sem_inv_pcs: "sem_inv v s \<Longrightarrow> (\<And>t. sem_pc_ok (p t)) \<Longrightarrow> sem_inv v (s\<lparr>spcs := p\<rparr>)"
  by (simp add: sem_inv_def)

lemma sem_inv_pc_ok: "sem_inv v s \<Longrightarrow> sem_pc_ok (spcs s t)"
  by (simp add: sem_inv_def)

lemma sem_step_inv:
  assumes inv: "sem_inv v s" and step: "sem_step K s s'"
  shows "sem_inv v s'"
  using step
proof cases
  case (atomic weak t pc' w')
  note pc = sem_inv_pc_ok [OF inv, of t]
  show ?thesis
  proof (cases "pc' = SOut 0")
    case True
    with atomic(2) pc have "0 < sint (svalue s) \<and> w' = svalue s - 1"
      by (cases "spcs s t") (auto simp: sem_try_next_def split: if_splits)
    moreover from this inv have "int (stakes s) < sint v + int (sposts s)"
      if "0 \<le> sint v" "sint v + int (sposts s) < 2147483648"
      using sem_count_exact [of "svalue s" v "sposts s" "stakes s"] that by (simp add: sem_inv_def)
    ultimately show ?thesis using inv True
      by (auto simp: atomic(1) sem_inv_def sem_ghost_def)
  next
    case False
    with atomic(2) have "sem_pc_ok pc' \<and> w' = svalue s + of_bool (pc' = SPWake)"
      by (cases "spcs s t") (auto simp: sem_try_next_def split: if_splits)
    with inv False show ?thesis by (auto simp: atomic(1) sem_inv_def sem_ghost_def)
  qed
next
  case (call t r pc sem rel)
  from call(3) have "sem_pc_ok pc" by (cases rule: sem_call_cases) auto
  with inv show ?thesis by (auto simp: call(1) sem_inv_pc_ok intro!: sem_inv_pcs)
qed (use inv in \<open>auto intro!: sem_inv_pcs simp: sem_inv_pc_ok\<close>)

lemma sem_inv_initial: "sem_initial v s \<Longrightarrow> sem_inv v s"
  unfolding sem_initial_def sem_inv_def using sem_pc_ok_simps(1) by (auto, metis)

interpretation sem_count: invariant_system "sem_initial v" "sem_step K" "sem_inv v" for v K
  by unfold_locales (auto intro: sem_inv_initial sem_step_inv)

section \<open>No lost wakeup\<close>

text \<open>
  A thread is active when it is about to look at the count or to issue a wake. While anybody
  sleeps, the count does not exceed the number of active threads: every unit of the count is
  matched by a thread that will take it or wake a sleeper for it.
\<close>

definition sem_active :: "spc \<Rightarrow> bool" where
  "sem_active pc = (case pc of SWLoad b \<Rightarrow> True | SWCas v b \<Rightarrow> True | SPWake \<Rightarrow> True | _ \<Rightarrow> False)"

lemma sem_active_simps [simp]:
  "\<not> sem_active (SOut r)" "\<not> sem_active STLoad" "\<not> sem_active (STCas v)" "sem_active (SWLoad b)"
  "sem_active (SWCas v b)" "\<not> sem_active (SWWait b)" "\<not> sem_active (SWSleep b)"
  "\<not> sem_active SPAdd" "sem_active SPWake" "\<not> sem_active (sem_try_next w)"
  by (auto simp: sem_active_def sem_try_next_def)

definition sem_actives :: "('t::finite \<Rightarrow> spc) \<Rightarrow> nat" where
  "sem_actives p = card {t. sem_active (p t)}"

definition sem_cover :: "'t::finite sem_state \<Rightarrow> bool" where
  "sem_cover s \<longleftrightarrow> ssleepers s \<noteq> {} \<longrightarrow> sint (svalue s) \<le> int (sem_actives (spcs s))"

lemma sem_actives_upd:
  "int (sem_actives (p(t := pc))) =
     int (sem_actives p) + of_bool (sem_active pc) - of_bool (sem_active (p t))"
  using arg_cong [OF card_pc_update [of sem_active p t pc], of int] unfolding sem_actives_def
  by (simp only: of_nat_add of_nat_of_bool)

lemma sem_cover_upd:
  assumes "sem_cover s" and "ssleepers s = {} \<Longrightarrow> \<not> (\<exists>b. pc = SWSleep b)"
    and "sint w - of_bool (sem_active pc) \<le> sint (svalue s) - of_bool (sem_active (spcs s t)) \<or>
         sint w \<le> 0"
  shows "sem_cover (s\<lparr>svalue := w, spcs := (spcs s)(t := pc)\<rparr>)"
proof -
  have "ssleepers s \<noteq> {}" if "ssleepers (s\<lparr>svalue := w, spcs := (spcs s)(t := pc)\<rparr>) \<noteq> {}"
    using that assms(2) by (auto simp: ssleepers_def split: if_splits)
  with assms(1,3) show ?thesis
    using sem_actives_upd [of "spcs s" t pc] by (fastforce simp: sem_cover_def)
qed

lemma sem_atomic_cover:
  assumes "sem_inv v s" and "sem_cover s"
    and at: "sem_atomic weak (spcs s t) (svalue s) = Some (pc', w')"
  shows "sem_cover (s\<lparr>svalue := w', spcs := (spcs s)(t := pc')\<rparr>)"
proof (rule sem_cover_upd [OF assms(2)])
  from at show "\<not> (\<exists>b. pc' = SWSleep b)"
    by (cases "spcs s t") (auto simp: sem_try_next_def split: if_splits)
  from at show "sint w' - of_bool (sem_active pc')
        \<le> sint (svalue s) - of_bool (sem_active (spcs s t)) \<or> sint w' \<le> 0"
    using sem_inv_pc_ok [OF assms(1), of t] sint_i32_inc_le [of "svalue s"]
    by (cases "spcs s t") (auto simp: sint_i32_dec split: if_splits)
qed

lemma sem_wake_cover:
  fixes s :: "'t::finite sem_state"
  assumes K: "futex_documented K" "may_wake K (ssleepers s) 1 W" and t: "spcs s t = SPWake"
    and cov: "sem_cover s"
  shows "sem_cover (s\<lparr>spcs := (\<lambda>u. sem_woken (u \<in> W) (spcs s u))(t := SOut 0)\<rparr>)"
    (is "sem_cover (s\<lparr>spcs := ?p\<rparr>)")
proof (cases "ssleepers s = {}")
  case True
  have "sem_woken b pc = SWSleep b' \<Longrightarrow> pc = SWSleep b'" for b pc b'
    by (cases pc) (auto split: if_splits)
  with True have "ssleepers (s\<lparr>spcs := ?p\<rparr>) = {}" unfolding ssleepers_def by (auto, metis)
  then show ?thesis by (simp add: sem_cover_def)
next
  case False
  from futex_wake_one [OF K False] obtain x b where x: "W = {x}" "spcs s x = SWSleep b"
    by (auto simp: ssleepers_def)
  have "sem_woken False pc = pc" for pc by (cases pc) auto
  with x t have p: "?p = (spcs s)(x := SWLoad b, t := SOut 0)"
    by (auto simp: fun_eq_iff)
  have "sem_actives ?p = sem_actives (spcs s)"
    unfolding p using sem_actives_upd [of "(spcs s)(x := SWLoad b)" t "SOut 0"]
      sem_actives_upd [of "spcs s" x "SWLoad b"] x t by (simp split: if_splits)
  with cov False show ?thesis by (simp add: sem_cover_def)
qed

lemma sem_step_cover:
  fixes s :: "'t::finite sem_state"
  assumes K: "futex_documented K" and inv: "sem_inv v s" and cov: "sem_cover s"
    and step: "sem_step K s s'"
  shows "sem_cover s'"
  using step
proof cases
  case (call t r pc sem rel)
  from call(3) show ?thesis
    by (cases rule: sem_call_cases)
      (use sem_cover_upd [OF cov, of pc "svalue s" t] call(2) in \<open>auto simp: call(1)\<close>)
next
  case (atomic weak t pc' w')
  from sem_atomic_cover [OF inv cov atomic(2)] show ?thesis
    by (simp add: atomic(1) sem_cover_def ssleepers_def sem_ghost_def)
next
  case (sleep t b)
  from futex_sleepD [OF K sleep(3)] show ?thesis by (simp add: sleep(1) sem_cover_def)
next
  case (wake t W)
  from sem_wake_cover [OF K wake(3,2) cov] show ?thesis by (simp add: wake(1))
qed (use sem_cover_upd [OF cov, of _ "svalue s"] in \<open>auto split: if_splits\<close>)

lemma sem_cover_initial: "sem_initial v s \<Longrightarrow> sem_cover s"
  unfolding sem_initial_def sem_cover_def ssleepers_def
  by (auto, metis spc.distinct(11))

interpretation sem_wakes: invariant_system "sem_initial v"
    "\<lambda>(s :: 't::finite sem_state) s'. futex_documented K \<and> sem_step K s s'"
    "\<lambda>s. sem_inv v s \<and> sem_cover s" for v K
  by unfold_locales (auto intro: sem_inv_initial sem_step_inv sem_cover_initial sem_step_cover)

section \<open>Concrete runs\<close>

definition sem_run :: "i32 \<Rightarrow> nat \<Rightarrow> nat \<Rightarrow> spc \<Rightarrow> spc \<Rightarrow> bool sem_state" where
  "sem_run w p k pc1 pc2 =
     \<lparr>svalue = w, spcs = (\<lambda>t. if t then pc1 else pc2), sposts = p, stakes = k\<rparr>"

lemma reachable_sem_asleep:
  "reachable (sem_initial 0) (sem_step exact_futex) (sem_run 0 0 0 (SWSleep False) (SOut 0))"
proof -
  let ?R = "reachable (sem_initial 0) (sem_step exact_futex)"
  have "?R (sem_run 0 0 0 (SOut 0) (SOut 0))"
    by (rule reach_init) (simp add: sem_run_def sem_initial_def)
  from reach_step [OF this sem_step.call [of _ True 0 "sem_wait 1" 1 0]]
  have "?R (sem_run 0 0 0 (SWLoad False) (SOut 0))"
    by (simp add: sem_run_def bool_fun_upd sem_wait_def sem_wait_common_def)
  from reach_step [OF this sem_step.atomic [of False _ True]]
  have "?R (sem_run 0 0 0 (SWWait False) (SOut 0))"
    by (simp add: sem_run_def bool_fun_upd sem_ghost_def)
  from reach_step [OF this sem_step.sleep [of _ True False]]
  show ?thesis by (simp add: sem_run_def bool_fun_upd exact_futex_def)
qed

lemma reachable_sem_posted:
  "reachable (sem_initial 0) (sem_step exact_futex) (sem_run 1 1 0 (SWSleep False) SPWake)"
proof -
  let ?R = "reachable (sem_initial 0) (sem_step exact_futex)"
  from reach_step [OF reachable_sem_asleep sem_step.call [of _ False 0 "sem_post 1" 1 0]]
  have "?R (sem_run 0 0 0 (SWSleep False) SPAdd)"
    by (simp add: sem_run_def bool_fun_upd sem_post_def)
  from reach_step [OF this sem_step.atomic [of False _ False]]
  show ?thesis by (simp add: sem_run_def bool_fun_upd sem_ghost_def)
qed

section \<open>Properties\<close>

text \<open>
  C22. Accounting. Under any interleaving and any futex behaviour, as long as the initial count
  plus the posts fit an \<open>int\<close>, the count is exactly the initial value plus the posts minus the
  successful waits, and it is never negative: no unit is handed out twice and no wait succeeds
  without one.
\<close>

theorem sem_accounting:
  assumes "reachable (sem_initial v) (sem_step K) s"
    and "0 \<le> sint v" and "sint v + int (sposts s) < 2 ^ 31"
  shows "sint (svalue s) = sint v + int (sposts s) - int (stakes s) \<and> 0 \<le> sint (svalue s)"
  using sem_count.reachable_inv [OF assms(1)] assms(2,3)
    sem_count_exact [of "svalue s" v "sposts s" "stakes s"] by (simp add: sem_inv_def)

theorem sem_accounting_witness:
  "sint (svalue (sem_run 1 1 0 (SWSleep False) SPWake)) = 1"
  using sem_accounting [OF reachable_sem_posted] by (simp add: sem_run_def)

text \<open>
  C23. No lost wakeup. With a futex that keeps its documented promises, while a thread is asleep
  in \<open>sem_wait\<close> (timed or not) the count does not exceed the number of threads that are about to
  read the count again or to issue a wake; so once those are done nobody sleeps on a positive
  count. This holds for any initial value and through the wrap of the count.
\<close>

theorem sem_no_lost_wakeup:
  fixes s :: "'t::finite sem_state"
  assumes "futex_documented K" and "reachable (sem_initial v) (sem_step K) s"
    and "spcs s t = SWSleep b"
  shows "sint (svalue s) \<le> int (card {u. sem_active (spcs s u)})"
proof -
  from reachable_mono [OF assms(2), of "\<lambda>s s'. futex_documented K \<and> sem_step K s s'"] assms(1)
  have "sem_cover s" using sem_wakes.reachable_inv by blast
  moreover from assms(3) have "ssleepers s \<noteq> {}" by (auto simp: ssleepers_def)
  ultimately show ?thesis by (simp add: sem_cover_def sem_actives_def)
qed

theorem sem_no_lost_wakeup_witness:
  "sint (svalue (sem_run 1 1 0 (SWSleep False) SPWake))
     \<le> int (card {u. sem_active (spcs (sem_run 1 1 0 (SWSleep False) SPWake) u)})"
  by (rule sem_no_lost_wakeup [OF exact_futex_documented reachable_sem_posted, of True False])
    (simp add: sem_run_def)

text \<open>
  The bound in the accounting theorem is needed: a post at \<open>INT_MAX\<close> wraps the count to
  \<open>INT_MIN\<close>, after which \<open>sem_trywait\<close> fails, although the header says the count never goes
  negative.
\<close>

lemma sem_post_wraps:
  "sem_atomic weak SPAdd 0x7FFFFFFF = Some (SPWake, 0x80000000) \<and>
   sint (0x80000000 :: i32) = - 2147483648 \<and>
   sem_atomic weak STLoad 0x80000000 = Some (SOut (- EAGAIN), 0x80000000)"
  by (simp add: sem_try_next_def)

end
