(* ===== verification/Neo_Thread.thy ===== *)
theory Neo_Thread
  imports Neo_Syscall
begin

text \<open>
  Threads (\<open>src/thread.c\<close>): \<open>thread_create\<close> with its table of (function, argument) pairs and the
  trampoline every new thread starts in. Any number of threads call \<open>thread_create\<close> at once; they
  are interleaved at every access to the table. The kernel's \<open>thread_create\<close> is a parameter of the
  step relation: it either starts one new thread at the trampoline with the argument it was given
  and returns its number, or starts none and returns a negative code. \<open>__tls_setup_self\<close>
  (\<open>Neo_Start\<close>) touches nothing of the table; it either succeeds or fails.

  A thread's program counter names what it does next:
  \<^item> \<open>TNone\<close>, \<open>TUser r\<close>, \<open>TGone c\<close>: not started, in code outside this file after a \<open>thread_create\<close>
    that returned and stored \<open>r\<close>, exited with code \<open>c\<close>;
  \<^item> \<open>CScan\<close>, \<open>CFn\<close>, \<open>CArg\<close>, \<open>CSys\<close>, \<open>CUndo\<close>: in \<open>thread_create\<close>, at the compare-exchange on a slot, at
    the two stores, at the system call, and at the store that gives the slot back;
  \<^item> \<open>RFn\<close>, \<open>RArg\<close>, \<open>RFree\<close>, \<open>RTls\<close>: in \<open>thread_trampoline\<close>, at the two loads, at the releasing
    store, and at the call of \<open>__tls_setup_self\<close>.
\<close>

section \<open>The model\<close>

abbreviation (input) MAX_THREAD_SLOTS :: nat where "MAX_THREAD_SLOTS \<equiv> 1024"

record thread_start =
  in_use :: i32
  fn :: addr
  arg :: addr

datatype tpc = TNone | TUser "i32 \<times> i32 option" | TGone i32
  | CScan addr addr bool nat | CFn addr addr bool nat | CArg addr addr bool nat
  | CSys addr addr bool nat | CUndo nat i32
  | RFn nat | RArg nat addr | RFree nat addr addr | RTls addr addr

text \<open>
  \<open>called t\<close> is the call \<open>fn(arg)\<close> the trampoline of thread \<open>t\<close> has made. \<open>asked t\<close> is not part of the
  program: it records the arguments of the \<open>thread_create\<close> call that made the kernel start \<open>t\<close>.
\<close>

record 't thread_state =
  tslots :: "thread_start list"
  tpcs :: "'t \<Rightarrow> tpc"
  called :: "'t \<Rightarrow> (addr \<times> addr) option"
  asked :: "'t \<Rightarrow> (addr \<times> addr) option"

definition thread_create :: "addr \<Rightarrow> addr \<Rightarrow> bool \<Rightarrow> tpc" where
  "thread_create f a out = CScan f a out 0"

definition thread_trampoline :: "nat \<Rightarrow> tpc" where
  "thread_trampoline i = RFn i"

definition thread_exit :: "i32 \<Rightarrow> tpc" where
  "thread_exit code = TGone code"

definition thread_join :: "'k kernel \<Rightarrow> i32 \<Rightarrow> addr \<Rightarrow> 'k machine \<Rightarrow> i32 \<times> 'k machine" where
  "thread_join K t exit_code = sys_thread_join K t exit_code"

definition thread_self :: "'k kernel \<Rightarrow> 'k machine \<Rightarrow> i32 \<times> 'k machine" where
  "thread_self K = sys_thread_self K"

text \<open>The accesses to the table, one per program counter.\<close>

fun thread_atomic :: "tpc \<Rightarrow> thread_start list \<Rightarrow> (tpc \<times> thread_start list) option" where
  "thread_atomic (CScan f a out i) sl =
     Some (if \<not> i < MAX_THREAD_SLOTS then (TUser (- EAGAIN, None), sl)
           else if in_use (sl ! i) = 0 then (CFn f a out i, sl[i := (sl ! i)\<lparr>in_use := 1\<rparr>])
           else (CScan f a out (Suc i), sl))"
| "thread_atomic (CFn f a out i) sl = Some (CArg f a out i, sl[i := (sl ! i)\<lparr>fn := f\<rparr>])"
| "thread_atomic (CArg f a out i) sl = Some (CSys f a out i, sl[i := (sl ! i)\<lparr>arg := a\<rparr>])"
| "thread_atomic (CUndo i tid) sl = Some (TUser (tid, None), sl[i := (sl ! i)\<lparr>in_use := 0\<rparr>])"
| "thread_atomic (RFn i) sl = Some (RArg i (fn (sl ! i)), sl)"
| "thread_atomic (RArg i f) sl = Some (RFree i f (arg (sl ! i)), sl)"
| "thread_atomic (RFree i f a) sl = Some (RTls f a, sl[i := (sl ! i)\<lparr>in_use := 0\<rparr>])"
| "thread_atomic _ sl = None"

inductive thread_step :: "'t thread_state \<Rightarrow> 't thread_state \<Rightarrow> bool" where
  calls_create: "tpcs s t = TUser r \<Longrightarrow>
     thread_step s (s\<lparr>tpcs := (tpcs s)(t := thread_create f a out)\<rparr>)"
| calls_exit: "tpcs s t = TUser r \<Longrightarrow>
     thread_step s (s\<lparr>tpcs := (tpcs s)(t := thread_exit code)\<rparr>)"
| fn_returns: "tpcs s t = TUser r \<Longrightarrow> called s t = Some x \<Longrightarrow>
     thread_step s (s\<lparr>tpcs := (tpcs s)(t := thread_exit 0)\<rparr>)"
| accesses: "thread_atomic (tpcs s t) (tslots s) = Some (pc', sl') \<Longrightarrow>
     thread_step s (s\<lparr>tslots := sl', tpcs := (tpcs s)(t := pc')\<rparr>)"
| starts: "tpcs s t = CSys f a out i \<Longrightarrow> tpcs s u = TNone \<Longrightarrow> 0 \<le> sint tid \<Longrightarrow>
     thread_step s (s\<lparr>tpcs := (tpcs s)(t := TUser (0, if out then Some tid else None),
                                      u := thread_trampoline i),
                     asked := (asked s)(u := Some (f, a))\<rparr>)"
| refused: "tpcs s t = CSys f a out i \<Longrightarrow> sint tid < 0 \<Longrightarrow>
     thread_step s (s\<lparr>tpcs := (tpcs s)(t := CUndo i tid)\<rparr>)"
| tls_ready: "tpcs s t = RTls f a \<Longrightarrow>
     thread_step s (s\<lparr>tpcs := (tpcs s)(t := TUser (0, None)), called := (called s)(t := Some (f, a))\<rparr>)"
| tls_fails: "tpcs s t = RTls f a \<Longrightarrow>
     thread_step s (s\<lparr>tpcs := (tpcs s)(t := thread_exit 127)\<rparr>)"

definition thread_initial :: "'t thread_state \<Rightarrow> bool" where
  "thread_initial s \<longleftrightarrow> length (tslots s) = MAX_THREAD_SLOTS \<and> (\<forall>x\<in>set (tslots s). in_use x = 0) \<and>
     (\<forall>t. tpcs s t = TNone \<or> (\<exists>r. tpcs s t = TUser r)) \<and> asked s = (\<lambda>_. None) \<and> called s = (\<lambda>_. None)"

section \<open>Slot ownership\<close>

text \<open>
  A thread holds a slot from its claim in \<open>thread_create\<close> until the call fails, or until the kernel
  has started the new thread, which then holds it until the trampoline has copied it.
\<close>

fun holds_slot :: "tpc \<Rightarrow> nat option" where
  "holds_slot (CFn f a out i) = Some i"
| "holds_slot (CArg f a out i) = Some i"
| "holds_slot (CSys f a out i) = Some i"
| "holds_slot (CUndo i tid) = Some i"
| "holds_slot (RFn i) = Some i"
| "holds_slot (RArg i f) = Some i"
| "holds_slot (RFree i f a) = Some i"
| "holds_slot _ = None"

text \<open>What the holder of a slot may rely on, and what a new thread was asked to run.\<close>

fun slot_fits :: "thread_start list \<Rightarrow> (addr \<times> addr) option \<Rightarrow> tpc \<Rightarrow> bool" where
  "slot_fits sl q (CArg f a out i) \<longleftrightarrow> fn (sl ! i) = f"
| "slot_fits sl q (CSys f a out i) \<longleftrightarrow> fn (sl ! i) = f \<and> arg (sl ! i) = a"
| "slot_fits sl q (RFn i) \<longleftrightarrow> q = Some (fn (sl ! i), arg (sl ! i))"
| "slot_fits sl q (RArg i f) \<longleftrightarrow> q = Some (f, arg (sl ! i))"
| "slot_fits sl q (RFree i f a) \<longleftrightarrow> q = Some (f, a)"
| "slot_fits sl q (RTls f a) \<longleftrightarrow> q = Some (f, a)"
| "slot_fits sl q pc \<longleftrightarrow> True"

lemma slot_fits_cong:
  "(\<And>i. holds_slot pc = Some i \<Longrightarrow> sl' ! i = sl ! i) \<Longrightarrow> slot_fits sl' q pc = slot_fits sl q pc"
  by (cases pc) auto

definition used_starts :: "thread_start list \<Rightarrow> nat set" where
  "used_starts sl = {i. i < length sl \<and> in_use (sl ! i) \<noteq> 0}"

lemma used_starts_upd:
  "i < length sl \<Longrightarrow> used_starts (sl[i := x]) =
     (if in_use x \<noteq> 0 then insert i (used_starts sl) else used_starts sl - {i})"
  by (auto simp: used_starts_def nth_list_update)

definition holders :: "'t thread_state \<Rightarrow> 't \<Rightarrow> nat option" where
  "holders s t = holds_slot (tpcs s t)"

definition thread_inv :: "'t thread_state \<Rightarrow> bool" where
  "thread_inv s \<longleftrightarrow> length (tslots s) = MAX_THREAD_SLOTS \<and>
     exclusively_owned (used_starts (tslots s)) (holders s) \<and>
     (\<forall>t. slot_fits (tslots s) (asked s t) (tpcs s t)) \<and>
     (\<forall>t x. called s t = Some x \<longrightarrow> asked s t = Some x) \<and>
     (\<forall>t. tpcs s t = TNone \<longrightarrow> called s t = None)"

lemma holders_upd [simp]:
  "holders (s\<lparr>tpcs := (tpcs s)(t := pc)\<rparr>) = (holders s)(t := holds_slot pc)"
  "holders (s\<lparr>tslots := sl, tpcs := (tpcs s)(t := pc)\<rparr>) = (holders s)(t := holds_slot pc)"
  by (auto simp: holders_def)

lemma slot_held:
  assumes "thread_inv s" and "holds_slot (tpcs s t) = Some i"
  shows "i < length (tslots s)" and "in_use (tslots s ! i) \<noteq> 0"
  using assms owned_in [of "used_starts (tslots s)" "holders s" t i]
  by (auto simp: thread_inv_def holders_def used_starts_def)

text \<open>A thread may change the slot it holds, or one that nobody holds, without disturbing the others.\<close>

lemma others_fit:
  assumes inv: "thread_inv s" and i: "holds_slot (tpcs s t) = Some i \<or> i \<notin> used_starts (tslots s)"
    and "u \<noteq> t"
  shows "slot_fits ((tslots s)[i := x]) (asked s u) (tpcs s u)"
proof -
  have "holds_slot (tpcs s u) \<noteq> Some i"
    using inv i owned_unique [of "used_starts (tslots s)" "holders s" t i u] \<open>u \<noteq> t\<close>
      owned_in [of "used_starts (tslots s)" "holders s" u i]
    by (auto simp: thread_inv_def holders_def)
  then have "slot_fits ((tslots s)[i := x]) (asked s u) (tpcs s u) =
      slot_fits (tslots s) (asked s u) (tpcs s u)"
    by (intro slot_fits_cong) auto
  with inv show ?thesis by (simp add: thread_inv_def)
qed

lemma thread_inv_write:
  assumes inv: "thread_inv s" and i: "holds_slot (tpcs s t) = Some i \<or> i \<notin> used_starts (tslots s)"
    and own: "exclusively_owned (used_starts ((tslots s)[i := x])) ((holders s)(t := holds_slot pc))"
    and fit: "slot_fits ((tslots s)[i := x]) (asked s t) pc" and pc: "pc \<noteq> TNone"
  shows "thread_inv (s\<lparr>tslots := (tslots s)[i := x], tpcs := (tpcs s)(t := pc)\<rparr>)"
  using inv own fit pc others_fit [OF inv i] by (auto simp: thread_inv_def)

lemma thread_inv_pc:
  assumes inv: "thread_inv s" and own: "holds_slot pc = holds_slot (tpcs s t)"
    and fit: "slot_fits (tslots s) (asked s t) pc" and pc: "pc \<noteq> TNone"
  shows "thread_inv (s\<lparr>tpcs := (tpcs s)(t := pc)\<rparr>)"
proof -
  have "(holders s)(t := holds_slot pc) = holders s" using own by (auto simp: holders_def)
  with inv fit pc show ?thesis by (auto simp: thread_inv_def)
qed

lemma thread_inv_keep:
  assumes inv: "thread_inv s" and h: "holds_slot (tpcs s t) = Some i" "holds_slot pc = Some i"
    and x: "in_use x = in_use (tslots s ! i)"
    and fit: "slot_fits ((tslots s)[i := x]) (asked s t) pc" and pc: "pc \<noteq> TNone"
  shows "thread_inv (s\<lparr>tslots := (tslots s)[i := x], tpcs := (tpcs s)(t := pc)\<rparr>)"
proof (rule thread_inv_write [OF inv _ _ fit pc])
  have "used_starts ((tslots s)[i := x]) = used_starts (tslots s)"
    using slot_held [OF inv h(1)] x by (simp add: used_starts_upd) (simp add: used_starts_def insert_absorb)
  moreover have "(holders s)(t := holds_slot pc) = holders s" using h by (auto simp: holders_def)
  ultimately show "exclusively_owned (used_starts ((tslots s)[i := x])) ((holders s)(t := holds_slot pc))"
    using inv by (simp add: thread_inv_def)
qed (use h in simp)

lemma thread_inv_free:
  assumes inv: "thread_inv s" and h: "holds_slot (tpcs s t) = Some i" "holds_slot pc = None"
    and x: "in_use x = 0" and fit: "slot_fits ((tslots s)[i := x]) (asked s t) pc" and pc: "pc \<noteq> TNone"
  shows "thread_inv (s\<lparr>tslots := (tslots s)[i := x], tpcs := (tpcs s)(t := pc)\<rparr>)"
proof (rule thread_inv_write [OF inv _ _ fit pc])
  show "exclusively_owned (used_starts ((tslots s)[i := x])) ((holders s)(t := holds_slot pc))"
    using owned_release [of "used_starts (tslots s)" "holders s" t i] slot_held [OF inv h(1)] x h inv
    by (simp add: used_starts_upd thread_inv_def holders_def)
qed (use h in simp)

lemma thread_atomic_inv:
  assumes inv: "thread_inv s" and at: "thread_atomic (tpcs s t) (tslots s) = Some (pc', sl')"
  shows "thread_inv (s\<lparr>tslots := sl', tpcs := (tpcs s)(t := pc')\<rparr>)"
proof -
  have fit: "slot_fits (tslots s) (asked s t) (tpcs s t)" and len: "length (tslots s) = MAX_THREAD_SLOTS"
    using inv by (simp_all add: thread_inv_def)
  have same: "s\<lparr>tslots := tslots s, tpcs := p\<rparr> = s\<lparr>tpcs := p\<rparr>" for p by simp
  note held = slot_held(1) [OF inv, of t]
  show ?thesis
  proof (cases "tpcs s t")
    case (CScan f a out i)
    show ?thesis
    proof (cases "i < MAX_THREAD_SLOTS \<and> in_use (tslots s ! i) = 0")
      case True
      with at CScan have eq: "pc' = CFn f a out i" "sl' = (tslots s)[i := (tslots s ! i)\<lparr>in_use := 1\<rparr>]"
        by auto
      have "i \<notin> used_starts (tslots s)" using True by (simp add: used_starts_def)
      with inv CScan True len have "exclusively_owned (used_starts sl') ((holders s)(t := Some i))"
        by (simp add: eq used_starts_upd owned_claim thread_inv_def holders_def)
      with \<open>i \<notin> used_starts (tslots s)\<close> show ?thesis
        unfolding eq by (intro thread_inv_write [OF inv]) (simp_all add: eq)
    next
      case False
      with at CScan show ?thesis
        by (auto simp: same intro!: thread_inv_pc [OF inv] split: if_splits)
    qed
  next
    case (CFn f a out i)
    with at held show ?thesis by (auto intro!: thread_inv_keep [OF inv])
  next
    case (CArg f a out i)
    with at held fit show ?thesis by (auto intro!: thread_inv_keep [OF inv])
  qed (use at fit held in \<open>auto simp: same intro!: thread_inv_pc [OF inv] thread_inv_free [OF inv]\<close>)
qed

lemma thread_starts_inv:
  assumes inv: "thread_inv s" and t: "tpcs s t = CSys f a out i" and u: "tpcs s u = TNone"
  shows "thread_inv (s\<lparr>tpcs := (tpcs s)(t := TUser r, u := thread_trampoline i),
                      asked := (asked s)(u := Some (f, a))\<rparr>)" (is "thread_inv ?s'")
proof -
  from t u have ne: "t \<noteq> u" by auto
  have "holders ?s' = (holders s)(t := None, u := Some i)"
    by (auto simp: holders_def thread_trampoline_def)
  moreover have "exclusively_owned (used_starts (tslots s)) ((holders s)(t := None, u := Some i))"
    using inv t u by (intro owned_transfer) (auto simp: thread_inv_def holders_def)
  moreover have "slot_fits (tslots s) (asked s t) (tpcs s t)" using inv by (simp add: thread_inv_def)
  ultimately show ?thesis
    using inv t u ne by (auto simp: thread_inv_def thread_trampoline_def)
qed

lemma thread_step_inv:
  assumes inv: "thread_inv s" and step: "thread_step s s'"
  shows "thread_inv s'"
  using step
proof cases
  case (accesses t pc' sl')
  with thread_atomic_inv [OF inv] show ?thesis by simp
next
  case (starts t f a out i u tid)
  with thread_starts_inv [OF inv] show ?thesis by simp
next
  case (tls_ready t f a)
  have "thread_inv (s\<lparr>tpcs := (tpcs s)(t := TUser (0, None))\<rparr>)"
    using tls_ready by (intro thread_inv_pc [OF inv]) auto
  moreover have "asked s t = Some (f, a)" using inv tls_ready by (auto simp: thread_inv_def) (metis slot_fits.simps(6))
  ultimately show ?thesis by (simp add: tls_ready(1) thread_inv_def holders_def [abs_def])
qed (auto simp: thread_create_def thread_exit_def intro!: thread_inv_pc [OF inv])

lemma thread_inv_initial:
  assumes "thread_initial s"
  shows "thread_inv s"
proof -
  have "holds_slot (tpcs s t) = None \<and> slot_fits (tslots s) (asked s t) (tpcs s t)" for t
    using assms unfolding thread_initial_def by (metis holds_slot.simps(8,9) slot_fits.simps(7,8))
  moreover have "used_starts (tslots s) = {}" using assms by (auto simp: thread_initial_def used_starts_def)
  ultimately show ?thesis
    using assms by (simp add: thread_inv_def thread_initial_def holders_def [abs_def] owned_empty)
qed

interpretation thread_table: invariant_system thread_initial thread_step thread_inv
  by unfold_locales (auto intro: thread_inv_initial thread_step_inv)

section \<open>A concrete run\<close>

text \<open>One thread creates another, which is started and calls the function.\<close>

abbreviation empty_start :: thread_start where
  "empty_start \<equiv> \<lparr>in_use = 0, fn = 0, arg = 0\<rparr>"

definition run_state ::
  "thread_start \<Rightarrow> tpc \<Rightarrow> tpc \<Rightarrow> (addr \<times> addr) option \<Rightarrow> (addr \<times> addr) option \<Rightarrow> bool thread_state" where
  "run_state x main new c q = \<lparr>tslots = x # replicate 1023 empty_start,
     tpcs = (\<lambda>t. if t then new else main), called = (\<lambda>t. if t then c else None),
     asked = (\<lambda>t. if t then q else None)\<rparr>"

lemma run_access:
  "thread_atomic main (x # replicate 1023 empty_start) = Some (main', x' # replicate 1023 empty_start) \<Longrightarrow>
     reachable thread_initial thread_step (run_state x main new c q) \<Longrightarrow>
     reachable thread_initial thread_step (run_state x' main' new c q)"
  "thread_atomic new (x # replicate 1023 empty_start) = Some (new', x' # replicate 1023 empty_start) \<Longrightarrow>
     reachable thread_initial thread_step (run_state x main new c q) \<Longrightarrow>
     reachable thread_initial thread_step (run_state x' main new' c q)"
  using reach_step [of thread_initial thread_step "run_state x main new c q",
      OF _ thread_step.accesses [where t = False]]
    reach_step [of thread_initial thread_step "run_state x main new c q",
      OF _ thread_step.accesses [where t = True]]
  by (simp_all add: run_state_def bool_fun_upd)

abbreviation full_start :: thread_start where
  "full_start \<equiv> \<lparr>in_use = 1, fn = 0x400, arg = 7\<rparr>"

lemma run_claimed:
  "reachable thread_initial thread_step
     (run_state (empty_start\<lparr>in_use := 1\<rparr>) (CFn 0x400 7 True 0) TNone None None)"
proof -
  let ?R = "\<lambda>x p. reachable thread_initial thread_step (run_state x p TNone None None)"
  have "?R empty_start (TUser (0, None))"
    by (intro reach_init) (simp add: thread_initial_def run_state_def)
  from reach_step [OF this thread_step.calls_create [where t = False and f = "0x400" and a = 7 and out = True]]
  have "?R empty_start (thread_create 0x400 7 True)" by (simp add: run_state_def bool_fun_upd)
  then show ?thesis by (rule run_access(1) [rotated]) (simp add: thread_create_def)
qed

lemma run_started:
  "reachable thread_initial thread_step
     (run_state full_start (TUser (0, Some 2)) (RFn 0) None (Some (0x400, 7)))"
proof -
  let ?R = "\<lambda>x p. reachable thread_initial thread_step (run_state x p TNone None None)"
  have "?R \<lparr>in_use = 1, fn = 0x400, arg = 0\<rparr> (CArg 0x400 7 True 0)"
    using run_claimed by (rule run_access(1) [rotated]) simp
  then have "?R full_start (CSys 0x400 7 True 0)" by (rule run_access(1) [rotated]) simp
  from reach_step [OF this thread_step.starts [where t = False and u = True and tid = 2
        and f = "0x400" and a = 7 and out = True and i = 0]]
  show ?thesis by (simp add: run_state_def bool_fun_upd thread_trampoline_def)
qed

lemma run_called:
  "reachable thread_initial thread_step (run_state (full_start\<lparr>in_use := 0\<rparr>)
     (TUser (0, Some 2)) (TUser (0, None)) (Some (0x400, 7)) (Some (0x400, 7)))"
proof -
  let ?R = "\<lambda>x p. reachable thread_initial thread_step
      (run_state x (TUser (0, Some 2)) p None (Some (0x400, 7)))"
  have "?R full_start (RArg 0 0x400)" using run_started by (rule run_access(2) [rotated]) simp
  then have "?R full_start (RFree 0 0x400 7)" by (rule run_access(2) [rotated]) simp
  then have "?R (full_start\<lparr>in_use := 0\<rparr>) (RTls 0x400 7)" by (rule run_access(2) [rotated]) simp
  from reach_step [OF this thread_step.tls_ready [where t = True and f = "0x400" and a = 7]]
  show ?thesis by (simp add: run_state_def bool_fun_upd)
qed

section \<open>Properties\<close>

text \<open>
  C19. A new thread runs what its creator asked for. However many threads call \<open>thread_create\<close> at
  once, when the trampoline of a thread calls a function, the function and its argument are those
  of the very \<open>thread_create\<close> call for which the kernel started that thread.
\<close>

theorem thread_runs_what_was_asked:
  assumes "reachable thread_initial thread_step s" and "called s t = Some (f, a)"
  shows "asked s t = Some (f, a)"
  using thread_table.reachable_inv [OF assms(1)] assms(2) by (simp add: thread_inv_def)

theorem thread_runs_what_was_asked_witness:
  "asked (run_state (full_start\<lparr>in_use := 0\<rparr>) (TUser (0, Some 2)) (TUser (0, None))
     (Some (0x400, 7)) (Some (0x400, 7))) True = Some (0x400, 7)"
  by (rule thread_runs_what_was_asked [OF run_called]) (simp add: run_state_def)

text \<open>
  No slot is shared and none is lost: in every reachable state a slot is marked in use exactly
  when one thread, and only one, is between claiming it and giving it back. So once no thread is in
  \<open>thread_create\<close> or at the beginning of the trampoline, the whole table is free again, whatever
  calls failed before.
\<close>

lemma thread_slots_exclusive:
  assumes "reachable thread_initial thread_step s" and "i < MAX_THREAD_SLOTS"
  shows "in_use (tslots s ! i) \<noteq> 0 \<longleftrightarrow> (\<exists>!t. holds_slot (tpcs s t) = Some i)"
proof -
  have inv: "thread_inv s" by (rule thread_table.reachable_inv [OF assms(1)])
  then have "i \<in> used_starts (tslots s) \<longleftrightarrow> (\<exists>!t. holders s t = Some i)"
    by (intro owned_ex1) (simp add: thread_inv_def)
  with inv assms(2) show ?thesis by (simp add: used_starts_def holders_def thread_inv_def)
qed

end
