(* ===== verification/Neo_Pthread.thy ===== *)
theory Neo_Pthread
  imports Neo_Cond Neo_Thread
begin

text \<open>
  POSIX threads (the last part of \<open>src/pthread.c\<close>): the table that carries \<open>void *\<close> results from a
  thread to its joiner. Threads are interleaved at every critical section on \<open>pt_lock\<close>, every access
  of the trampoline to its slot, which takes no lock, and every system call. A critical section is
  one step, which is what the mutual exclusion of \<open>Neo_Mutex\<close> gives for sections on one mutex.

  The kernel decides which number a new thread gets: \<open>K U n\<close> says that it may give \<open>n\<close> when the
  numbers in \<open>U\<close> are in use, which are those of the threads that have not been joined or whose join has not returned yet. A
  number is free again when \<open>pthread_join\<close> or \<open>thread_join\<close> has returned. \<open>thread_create\<close> and its trampoline are those of \<open>Neo_Thread\<close>:
  they start \<open>pthread_trampoline\<close> with the slot it was given, or exit before it is entered. A program
  may also call \<open>thread_create\<close> itself; such a thread has no slot (\<open>raw_spawns\<close>), and may be joined with \<open>thread_join\<close>
  (\<open>raw_joins\<close>) as well as with \<open>pthread_join\<close>.

  A thread's program counter names what it does next:
  \<^item> \<open>PNone\<close>, \<open>PUser rc tid ret\<close>, \<open>PGone\<close>, \<open>PReaped\<close>: not started; in the program's own code after a call
    that returned \<open>rc\<close> and stored \<open>tid\<close> or \<open>ret\<close>; exited; exited and joined;
  \<^item> \<open>PSpawn\<close>, \<open>PUndo\<close>: in \<open>pthread_create\<close>, at \<open>thread_create\<close>, and at giving the slot back;
  \<^item> \<open>PTid\<close>, \<open>PStart\<close>, \<open>PRet r\<close>, \<open>PFin\<close>: in \<open>pthread_trampoline\<close>, at its three stores and its call;
  \<^item> \<open>PJoin n\<close>, \<open>PTake n\<close>: in \<open>pthread_join\<close>, at \<open>thread_join\<close>, and at the critical section;
  \<^item> \<open>PExit r\<close>: in \<open>pthread_exit\<close>, at the critical section.
\<close>

section \<open>The table\<close>

abbreviation (input) PTHREAD_MAX :: nat where "PTHREAD_MAX \<equiv> 16"

record pthread_slot =
  p_in_use :: i32
  p_tid :: i32
  p_finished :: i32
  p_start :: addr
  p_arg :: addr
  p_retval :: addr

definition slot_for_tid :: "i32 \<Rightarrow> pthread_slot list \<Rightarrow> nat option" where
  "slot_for_tid tid sl = find (\<lambda>i. p_in_use (sl ! i) \<noteq> 0 \<and> p_tid (sl ! i) = tid) [0..<PTHREAD_MAX]"

definition pt_claim :: "addr \<Rightarrow> addr \<Rightarrow> pthread_slot list \<Rightarrow> (nat \<times> pthread_slot list) option" where
  "pt_claim start ar sl =
     map_option (\<lambda>i. (i, sl[i := \<lparr>p_in_use = 1, p_tid = 0, p_finished = 0, p_start = start, p_arg = ar,
                                  p_retval = 0\<rparr>]))
       (find (\<lambda>i. p_in_use (sl ! i) = 0) [0..<PTHREAD_MAX])"

definition pt_free :: "nat \<Rightarrow> pthread_slot list \<Rightarrow> pthread_slot list" where
  "pt_free i sl = sl[i := (sl ! i)\<lparr>p_in_use := 0\<rparr>]"

section \<open>The operations\<close>

datatype ppc = PNone | PUser i32 "i32 option" "addr option" | PGone | PReaped
  | PSpawn bool addr addr nat | PUndo nat i32
  | PTid | PStart | PRet addr | PFin
  | PJoin i32 bool | PTake i32 bool | PExit addr

text \<open>Each takes the table as it is at its critical section.\<close>

definition pthread_create ::
  "bool \<Rightarrow> addr \<Rightarrow> addr \<Rightarrow> addr \<Rightarrow> pthread_slot list \<Rightarrow> ppc \<times> pthread_slot list" where
  "pthread_create out attr start ar sl =
     (if start = 0 then (PUser (- EINVAL) None None, sl)
      else if attr \<noteq> 0 then (PUser (- EINVAL) None None, sl)
      else case pt_claim start ar sl of
             None \<Rightarrow> (PUser (- EAGAIN) None None, sl)
           | Some (i, sl) \<Rightarrow> (PSpawn out start ar i, sl))"

definition pthread_join_take :: "i32 \<Rightarrow> bool \<Rightarrow> pthread_slot list \<Rightarrow> ppc \<times> pthread_slot list" where
  "pthread_join_take tid out sl =
     (case slot_for_tid tid sl of
        Some i \<Rightarrow> (PUser 0 None (if out then Some (p_retval (sl ! i)) else None), pt_free i sl)
      | None \<Rightarrow> (PUser 0 None (if out then Some 0 else None), sl))"

definition pthread_join :: "i32 \<Rightarrow> bool \<Rightarrow> ppc" where
  "pthread_join tid out = PJoin tid out"

definition pthread_exit_store :: "i32 \<Rightarrow> addr \<Rightarrow> pthread_slot list \<Rightarrow> pthread_slot list" where
  "pthread_exit_store self retval sl =
     (case slot_for_tid self sl of
        Some i \<Rightarrow> sl[i := (sl ! i)\<lparr>p_retval := retval, p_finished := 1\<rparr>]
      | None \<Rightarrow> sl)"

definition pthread_exit :: "addr \<Rightarrow> ppc" where
  "pthread_exit retval = PExit retval"

definition pthread_self :: "'k kernel \<Rightarrow> 'k machine \<Rightarrow> i32 \<times> 'k machine" where
  "pthread_self K = thread_self K"

definition pthread_equal :: "i32 \<Rightarrow> i32 \<Rightarrow> i32" where
  "pthread_equal a b = of_bool (a = b)"

text \<open>
  \<open>pthread_trampoline\<close> on its slot \<open>i\<close>, one store per program counter; the call of \<open>start(arg)\<close> is
  between the first and the second.
\<close>

fun trampoline_store :: "i32 \<Rightarrow> nat \<Rightarrow> ppc \<Rightarrow> pthread_slot list \<Rightarrow> (ppc \<times> pthread_slot list) option" where
  "trampoline_store self i PTid sl = Some (PStart, sl[i := (sl ! i)\<lparr>p_tid := self\<rparr>])"
| "trampoline_store self i (PRet r) sl = Some (PFin, sl[i := (sl ! i)\<lparr>p_retval := r\<rparr>])"
| "trampoline_store self i PFin sl = Some (PGone, sl[i := (sl ! i)\<lparr>p_finished := 1\<rparr>])"
| "trampoline_store _ _ _ sl = None"

section \<open>The state and its steps\<close>

text \<open>
  Of a thread: where it is, its number, the slot its \<open>pthread_trampoline\<close> was started with, and the
  call \<open>start(arg)\<close> it has made. The rest is not part of the program but records its history: what
  its creator asked it to run, the value it returned or gave to \<open>pthread_exit\<close>, whether it has stored
  its number, whether its slot was given back, and whom it is joining.
\<close>

record 't pthr =
  ppc :: ppc
  ptid :: i32
  frame :: "nat option"
  ran :: "(addr \<times> addr) option"
  want :: "(addr \<times> addr) option"
  outcome :: "addr option"
  entered :: bool
  given_back :: bool
  joining :: "'t option"

record 't pt_state =
  pt_slots :: "pthread_slot list"
  thr :: "'t \<Rightarrow> 't pthr"
  tids :: "i32 set"

inductive pt_step :: "(i32 set \<Rightarrow> i32 \<Rightarrow> bool) \<Rightarrow> 't pt_state \<Rightarrow> 't pt_state \<Rightarrow> bool"
  for K :: "i32 set \<Rightarrow> i32 \<Rightarrow> bool" where
  creates: "ppc (thr s t) = PUser rc x y \<Longrightarrow> pthread_create out attr start ar (pt_slots s) = (pc', sl') \<Longrightarrow>
     pt_step K s (s\<lparr>pt_slots := sl', thr := (thr s)(t := (thr s t)\<lparr>ppc := pc'\<rparr>)\<rparr>)"
| spawns: "ppc (thr s t) = PSpawn out st ar i \<Longrightarrow> ppc (thr s u) = PNone \<Longrightarrow> K (tids s) n \<Longrightarrow>
     pt_step K s (s\<lparr>thr := (thr s)(t := (thr s t)\<lparr>ppc := PUser 0 (if out then Some n else None) None\<rparr>,
                                  u := (thr s u)\<lparr>ppc := PTid, ptid := n, frame := Some i, want := Some (st, ar)\<rparr>),
                    tids := insert n (tids s)\<rparr>)"
| raw_spawns: "ppc (thr s t) = PUser rc x y \<Longrightarrow> ppc (thr s u) = PNone \<Longrightarrow> K (tids s) n \<Longrightarrow>
     pt_step K s (s\<lparr>thr := (thr s)(u := (thr s u)\<lparr>ppc := PUser 0 None None, ptid := n\<rparr>), tids := insert n (tids s)\<rparr>)"
| spawn_fails: "ppc (thr s t) = PSpawn out st ar i \<Longrightarrow> rc \<noteq> 0 \<Longrightarrow>
     pt_step K s (s\<lparr>thr := (thr s)(t := (thr s t)\<lparr>ppc := PUndo i rc\<rparr>)\<rparr>)"
| undoes: "ppc (thr s t) = PUndo i rc \<Longrightarrow>
     pt_step K s (s\<lparr>pt_slots := pt_free i (pt_slots s), thr := (thr s)(t := (thr s t)\<lparr>ppc := PUser rc None None\<rparr>)\<rparr>)"
| dies_early: "ppc (thr s t) = PTid \<Longrightarrow>
     pt_step K s (s\<lparr>thr := (thr s)(t := (thr s t)\<lparr>ppc := PGone\<rparr>)\<rparr>)"
| stores: "frame (thr s t) = Some i \<Longrightarrow>
     trampoline_store (ptid (thr s t)) i (ppc (thr s t)) (pt_slots s) = Some (pc', sl') \<Longrightarrow>
     pt_step K s (s\<lparr>pt_slots := sl', thr := (thr s)(t := (thr s t)\<lparr>ppc := pc', entered := True\<rparr>)\<rparr>)"
| starts_routine: "ppc (thr s t) = PStart \<Longrightarrow> frame (thr s t) = Some i \<Longrightarrow>
     pt_step K s (s\<lparr>thr := (thr s)(t := (thr s t)\<lparr>ppc := PUser 0 None None,
                      ran := Some (p_start (pt_slots s ! i), p_arg (pt_slots s ! i))\<rparr>)\<rparr>)"
| routine_returns: "ppc (thr s t) = PUser rc x y \<Longrightarrow> frame (thr s t) = Some i \<Longrightarrow>
     pt_step K s (s\<lparr>thr := (thr s)(t := (thr s t)\<lparr>ppc := PRet r, outcome := Some r\<rparr>)\<rparr>)"
| calls_exit: "ppc (thr s t) = PUser rc x y \<Longrightarrow>
     pt_step K s (s\<lparr>thr := (thr s)(t := (thr s t)\<lparr>ppc := pthread_exit r, outcome := Some r\<rparr>)\<rparr>)"
| exit_stores: "ppc (thr s t) = PExit r \<Longrightarrow>
     pt_step K s (s\<lparr>pt_slots := pthread_exit_store (ptid (thr s t)) r (pt_slots s),
                    thr := (thr s)(t := (thr s t)\<lparr>ppc := PGone\<rparr>)\<rparr>)"
| exits_plainly: "ppc (thr s t) = PUser rc x y \<Longrightarrow>
     pt_step K s (s\<lparr>thr := (thr s)(t := (thr s t)\<lparr>ppc := PGone\<rparr>)\<rparr>)"
| calls_join: "ppc (thr s t) = PUser rc x y \<Longrightarrow>
     pt_step K s (s\<lparr>thr := (thr s)(t := (thr s t)\<lparr>ppc := pthread_join n out\<rparr>)\<rparr>)"
| join_fails: "ppc (thr s t) = PJoin n out \<Longrightarrow> rc \<noteq> 0 \<Longrightarrow>
     pt_step K s (s\<lparr>thr := (thr s)(t := (thr s t)\<lparr>ppc := PUser rc None None\<rparr>)\<rparr>)"
| reaps: "ppc (thr s t) = PJoin n out \<Longrightarrow> ppc (thr s v) = PGone \<Longrightarrow> ptid (thr s v) = n \<Longrightarrow>
     pt_step K s (s\<lparr>thr := (thr s)(t := (thr s t)\<lparr>ppc := PTake n out, joining := Some v\<rparr>,
                                  v := (thr s v)\<lparr>ppc := PReaped\<rparr>)\<rparr>)"
| takes: "ppc (thr s t) = PTake n out \<Longrightarrow> joining (thr s t) = Some v \<Longrightarrow>
     pthread_join_take n out (pt_slots s) = (pc', sl') \<Longrightarrow>
     pt_step K s (s\<lparr>pt_slots := sl',
                    thr := (thr s)(t := (thr s t)\<lparr>ppc := pc', joining := None\<rparr>,
                                   v := (thr s v)\<lparr>given_back := slot_for_tid n (pt_slots s) \<noteq> None\<rparr>),
                    tids := tids s - {n}\<rparr>)"
| raw_joins: "ppc (thr s t) = PUser rc x y \<Longrightarrow> ppc (thr s v) = PGone \<Longrightarrow> frame (thr s v) = None \<Longrightarrow>
     pt_step K s (s\<lparr>thr := (thr s)(v := (thr s v)\<lparr>ppc := PReaped\<rparr>), tids := tids s - {ptid (thr s v)}\<rparr>)"

definition pt_initial :: "'t pt_state \<Rightarrow> bool" where
  "pt_initial s \<longleftrightarrow> length (pt_slots s) = PTHREAD_MAX \<and> (\<forall>x\<in>set (pt_slots s). p_in_use x = 0) \<and>
     (\<forall>t. (ppc (thr s t) = PNone \<or> (\<exists>rc. ppc (thr s t) = PUser rc None None \<and>
            ptid (thr s t) \<in> tids s \<and> 0 < sint (ptid (thr s t)))) \<and>
          frame (thr s t) = None \<and> ran (thr s t) = None \<and> outcome (thr s t) = None \<and>
          \<not> entered (thr s t) \<and> \<not> given_back (thr s t) \<and> joining (thr s t) = None) \<and>
     (\<forall>t u. ppc (thr s t) \<noteq> PNone \<and> ppc (thr s u) \<noteq> PNone \<and> ptid (thr s t) = ptid (thr s u) \<longrightarrow> t = u)"

text \<open>
  What the table relies on. A thread's number is positive: \<open>pthread.c\<close> uses 0 for "not started". And it is the thread's own until
  the join of it has returned, as in POSIX, whose semantics \<open>pthread.h\<close> claims: the number of a thread
  that has not been joined names that thread (\<open>thread_join\<close> finds it by its number, \<open>thread.h\<close>), and the kernel does not give
  it out again between the \<open>thread_join\<close> inside \<open>pthread_join\<close> and the critical section that follows. (If it did,
  the join could be led to the slot of the new thread: \<open>reused_number_misleads_join\<close> below.) Afterwards it may be given
  out again.
\<close>

definition tids_last :: "(i32 set \<Rightarrow> i32 \<Rightarrow> bool) \<Rightarrow> bool" where
  "tids_last K \<longleftrightarrow> (\<forall>U n. K U n \<longrightarrow> n \<notin> U \<and> 0 < sint n)"

section \<open>The table as a slot table\<close>

definition pt_used :: "pthread_slot list \<Rightarrow> nat set" where
  "pt_used sl = {i. i < length sl \<and> p_in_use (sl ! i) \<noteq> 0}"

lemma pt_used_upd:
  "i < length sl \<Longrightarrow> pt_used (sl[i := x]) =
     (if p_in_use x \<noteq> 0 then insert i (pt_used sl) else pt_used sl - {i})"
  by (auto simp: pt_used_def nth_list_update)

lemma pt_claim_Some:
  assumes "pt_claim st ar sl = Some (i, sl')" and "length sl = PTHREAD_MAX"
  shows "i < length sl" and "i \<notin> pt_used sl"
    and "sl' = sl[i := \<lparr>p_in_use = 1, p_tid = 0, p_finished = 0, p_start = st, p_arg = ar, p_retval = 0\<rparr>]"
  using assms by (auto simp: pt_claim_def pt_used_def find_Some_iff)

interpretation pt_table: slot_table pt_used "pt_claim st ar" pt_free PTHREAD_MAX "\<lambda>sl. length sl = PTHREAD_MAX"
  for st ar
proof
  fix sl i sl'
  assume len: "length sl = PTHREAD_MAX" and c: "pt_claim st ar sl = Some (i, sl')"
  from pt_claim_Some [OF c len] len
  show "length sl' = PTHREAD_MAX \<and> i < PTHREAD_MAX \<and> i \<notin> pt_used sl \<and> pt_used sl' = insert i (pt_used sl)"
    by (simp add: pt_used_upd)
next
  fix sl
  assume "length sl = PTHREAD_MAX" and "pt_claim st ar sl = None"
  then show "pt_used sl = {..<PTHREAD_MAX}" by (auto simp: pt_claim_def pt_used_def find_None_iff)
next
  fix sl :: "pthread_slot list" and i
  assume "length sl = PTHREAD_MAX" and "i < PTHREAD_MAX"
  then show "length (pt_free i sl) = PTHREAD_MAX \<and> pt_used (pt_free i sl) = pt_used sl - {i}"
    by (simp add: pt_free_def pt_used_upd)
qed (auto simp: pt_used_def)

section \<open>The invariant\<close>

text \<open>
  A slot belongs to the thread that is creating another one, and then to the new thread until a
  join gives it back. \<open>hold\<close> tells both apart: \<open>Inl t\<close> is \<open>t\<close> as a creator, \<open>Inr t\<close> as the created.
\<close>

fun creator_slot :: "ppc \<Rightarrow> nat option" where
  "creator_slot (PSpawn out st ar i) = Some i"
| "creator_slot (PUndo i rc) = Some i"
| "creator_slot _ = None"

definition own_slot :: "'t pthr \<Rightarrow> nat option" where
  "own_slot x = (if given_back x then None else frame x)"

definition hold :: "('t \<Rightarrow> 't pthr) \<Rightarrow> 't + 't \<Rightarrow> nat option" where
  "hold f z = (case z of Inl t \<Rightarrow> creator_slot (ppc (f t)) | Inr t \<Rightarrow> own_slot (f t))"

fun creator_ok :: "pthread_slot list \<Rightarrow> ppc \<Rightarrow> bool" where
  "creator_ok sl (PSpawn out st ar i) \<longleftrightarrow> p_tid (sl ! i) = 0 \<and> p_start (sl ! i) = st \<and> p_arg (sl ! i) = ar"
| "creator_ok sl (PUndo i rc) \<longleftrightarrow> p_tid (sl ! i) = 0"
| "creator_ok sl _ \<longleftrightarrow> True"

text \<open>The stages of a thread's life: which have a slot, have stored their number, have an outcome.\<close>

fun life :: "ppc \<Rightarrow> bool \<Rightarrow> bool \<Rightarrow> addr option \<Rightarrow> bool" where
  "life PNone f e r \<longleftrightarrow> \<not> f \<and> \<not> e \<and> r = None"
| "life PTid f e r \<longleftrightarrow> f \<and> \<not> e \<and> r = None"
| "life PStart f e r \<longleftrightarrow> f \<and> e \<and> r = None"
| "life (PRet v) f e r \<longleftrightarrow> f \<and> e \<and> r = Some v"
| "life PFin f e r \<longleftrightarrow> f \<and> e \<and> r \<noteq> None"
| "life (PExit v) f e r \<longleftrightarrow> f = e \<and> r = Some v"
| "life PGone f e r \<longleftrightarrow> (e \<longrightarrow> f) \<and> (f \<and> \<not> e \<longrightarrow> r = None)"
| "life PReaped f e r \<longleftrightarrow> (e \<longrightarrow> f) \<and> (f \<and> \<not> e \<longrightarrow> r = None)"
| "life _ f e r \<longleftrightarrow> f = e \<and> r = None"

lemma life_entered: "life pc f e r \<Longrightarrow> e \<Longrightarrow> f"
  by (cases pc) auto

definition settled :: "ppc \<Rightarrow> bool" where
  "settled pc \<longleftrightarrow> pc = PFin \<or> pc = PGone \<or> pc = PReaped"

definition owner_ok :: "pthread_slot list \<Rightarrow> 't pthr \<Rightarrow> bool" where
  "owner_ok sl x \<longleftrightarrow> (\<forall>i. own_slot x = Some i \<longrightarrow>
     p_tid (sl ! i) = (if entered x then ptid x else 0) \<and>
     want x = Some (p_start (sl ! i), p_arg (sl ! i)) \<and>
     (\<forall>r. settled (ppc x) \<and> outcome x = Some r \<longrightarrow> p_retval (sl ! i) = r))"

definition thr_ok :: "pthread_slot list \<Rightarrow> 't pthr \<Rightarrow> bool" where
  "thr_ok sl x \<longleftrightarrow> life (ppc x) (frame x \<noteq> None) (entered x) (outcome x) \<and>
     creator_ok sl (ppc x) \<and> owner_ok sl x \<and> (ppc x \<noteq> PNone \<longrightarrow> 0 < sint (ptid x)) \<and>
     (given_back x \<longrightarrow> ppc x = PReaped) \<and> (ppc x = PNone \<longrightarrow> ran x = None) \<and>
     (\<forall>y. ran x = Some y \<longrightarrow> want x = Some y) \<and> (entered x \<and> ppc x \<noteq> PStart \<longrightarrow> ran x \<noteq> None)"

text \<open>The threads whose number is in use.\<close>

definition busy :: "('t \<Rightarrow> 't pthr) \<Rightarrow> 't \<Rightarrow> bool" where
  "busy f t \<longleftrightarrow> ppc (f t) \<noteq> PNone \<and> (ppc (f t) = PReaped \<longrightarrow> (\<exists>u. joining (f u) = Some t))"

definition tids_ok :: "'t pt_state \<Rightarrow> bool" where
  "tids_ok s \<longleftrightarrow> (\<forall>t. busy (thr s) t \<longrightarrow> ptid (thr s t) \<in> tids s) \<and>
     (\<forall>t u. busy (thr s) t \<and> busy (thr s) u \<and> ptid (thr s t) = ptid (thr s u) \<longrightarrow> t = u) \<and>
     (\<forall>t. ppc (thr s t) = PReaped \<and> entered (thr s t) \<and> \<not> given_back (thr s t) \<longrightarrow> busy (thr s) t)"

definition joins_ok :: "('t \<Rightarrow> 't pthr) \<Rightarrow> bool" where
  "joins_ok f \<longleftrightarrow>
     (\<forall>t n out. ppc (f t) = PTake n out \<longrightarrow> joining (f t) \<noteq> None) \<and>
     (\<forall>t v. joining (f t) = Some v \<longrightarrow> (\<exists>n out. ppc (f t) = PTake n out \<and> ptid (f v) = n) \<and>
        ppc (f v) = PReaped \<and> \<not> given_back (f v)) \<and>
     (\<forall>t u v. joining (f t) = Some v \<and> joining (f u) = Some v \<longrightarrow> t = u)"

definition pt_inv :: "'t pt_state \<Rightarrow> bool" where
  "pt_inv s \<longleftrightarrow> length (pt_slots s) = PTHREAD_MAX \<and>
     exclusively_owned (pt_used (pt_slots s)) (hold (thr s)) \<and>
     (\<forall>t. thr_ok (pt_slots s) (thr s t)) \<and> tids_ok s \<and> joins_ok (thr s)"

lemma pt_invD:
  assumes "pt_inv s"
  shows "length (pt_slots s) = PTHREAD_MAX" and "exclusively_owned (pt_used (pt_slots s)) (hold (thr s))"
    and "thr_ok (pt_slots s) (thr s t)" and "tids_ok s" and "joins_ok (thr s)"
  using assms by (simp_all add: pt_inv_def)

lemma hold_simps [simp]: "hold f (Inl t) = creator_slot (ppc (f t))" "hold f (Inr t) = own_slot (f t)"
  by (simp_all add: hold_def)

lemma hold_upd: "hold (f(t := x)) = (hold f)(Inl t := creator_slot (ppc x), Inr t := own_slot x)"
  by (auto simp: hold_def fun_eq_iff split: sum.splits)

lemma held_lt: "pt_inv s \<Longrightarrow> hold (thr s) z = Some i \<Longrightarrow> i < length (pt_slots s) \<and> p_in_use (pt_slots s ! i) \<noteq> 0"
  using owned_in [OF pt_invD(2), of s z i] by (auto simp: pt_used_def)

lemma thr_ok_cong:
  assumes "\<And>i. creator_slot (ppc x) = Some i \<Longrightarrow> sl' ! i = sl ! i"
    and "\<And>i. own_slot x = Some i \<Longrightarrow> sl' ! i = sl ! i"
  shows "thr_ok sl' x = thr_ok sl x"
proof -
  have "creator_ok sl' (ppc x) = creator_ok sl (ppc x)" using assms(1) by (cases "ppc x") auto
  with assms(2) show ?thesis by (simp add: thr_ok_def owner_ok_def)
qed

text \<open>The number of a thread leads to its own slot, and to no other.\<close>

lemma slot_tid_owner:
  assumes inv: "pt_inv s" and v: "busy (thr s) v" and i: "i < length (pt_slots s)"
    and "p_in_use (pt_slots s ! i) \<noteq> 0" and tid: "p_tid (pt_slots s ! i) = ptid (thr s v)"
  shows "own_slot (thr s v) = Some i \<and> entered (thr s v)"
proof -
  from assms(3,4) have "i \<in> pt_used (pt_slots s)" by (simp add: pt_used_def)
  with pt_invD(2) [OF inv] obtain z where z: "hold (thr s) z = Some i"
    unfolding exclusively_owned_def by blast
  have pos: "p_tid (pt_slots s ! i) \<noteq> 0" using pt_invD(3) [OF inv, of v] v tid by (auto simp: thr_ok_def busy_def)
  show ?thesis
  proof (cases z)
    case (Inl t)
    with z pt_invD(3) [OF inv, of t] pos show ?thesis by (cases "ppc (thr s t)") (auto simp: thr_ok_def)
  next
    case (Inr w)
    with z pt_invD(3) [OF inv, of w] pos tid
    have w: "entered (thr s w)" "ptid (thr s w) = ptid (thr s v)" "own_slot (thr s w) = Some i"
      by (auto simp: thr_ok_def owner_ok_def split: if_splits)
    have "busy (thr s) w"
    proof (cases "ppc (thr s w) = PReaped")
      case True
      moreover have "\<not> given_back (thr s w)" using w(3) by (auto simp: own_slot_def)
      ultimately show ?thesis using w(1) pt_invD(4) [OF inv] by (auto simp: tids_ok_def)
    qed (use pt_invD(3) [OF inv, of w] w(1) in \<open>auto simp: thr_ok_def busy_def\<close>)
    with v w(2) pt_invD(4) [OF inv] have "w = v" unfolding tids_ok_def by blast
    with w show ?thesis by simp
  qed
qed

lemma slot_for_tid_self:
  assumes inv: "pt_inv s" and v: "busy (thr s) v"
  shows "slot_for_tid (ptid (thr s v)) (pt_slots s) =
           (if entered (thr s v) then own_slot (thr s v) else None)"
proof -
  let ?P = "\<lambda>i. p_in_use (pt_slots s ! i) \<noteq> 0 \<and> p_tid (pt_slots s ! i) = ptid (thr s v)"
  have only: "own_slot (thr s v) = Some j \<and> entered (thr s v)" if "j < PTHREAD_MAX" "?P j" for j
    using slot_tid_owner [OF inv v, of j] that pt_invD(1) [OF inv] by simp
  have own: "i < PTHREAD_MAX \<and> ?P i" if "own_slot (thr s v) = Some i" "entered (thr s v)" for i
    using held_lt [OF inv, of "Inr v" i] pt_invD(1) [OF inv] pt_invD(3) [OF inv, of v] that
    by (simp add: thr_ok_def owner_ok_def)
  show ?thesis
  proof (cases "find ?P [0..<PTHREAD_MAX]")
    case None
    with own show ?thesis by (cases "own_slot (thr s v)") (auto simp: slot_for_tid_def find_None_iff)
  next
    case (Some i)
    then have "i < PTHREAD_MAX" "?P i" by (auto simp: find_Some_iff)
    with only Some show ?thesis by (simp add: slot_for_tid_def)
  qed
qed

section \<open>Every step keeps the invariant\<close>

text \<open>Most steps change one thread, which is not being joined or joining, and at most a slot of its own.\<close>

definition active :: "ppc \<Rightarrow> bool" where
  "active pc \<longleftrightarrow> pc \<noteq> PNone \<and> pc \<noteq> PReaped \<and> (\<forall>n out. pc \<noteq> PTake n out)"

lemma active_simps [simp]:
  "active (PUser rc x y)" "active PGone" "active (PSpawn b st ar i)" "active (PUndo i rc)" "active PTid"
  "active PStart" "active (PRet r)" "active PFin" "active (PJoin n b)" "active (PExit r)"
  "\<not> active PNone" "\<not> active PReaped" "\<not> active (PTake n b)"
  by (auto simp: active_def)

definition unjoined :: "ppc \<Rightarrow> bool" where
  "unjoined pc \<longleftrightarrow> pc \<noteq> PReaped \<and> (\<forall>n out. pc \<noteq> PTake n out)"

lemma active_unjoined: "active pc \<Longrightarrow> unjoined pc"
  by (simp add: active_def unjoined_def)

lemma joining_None: "joins_ok f \<Longrightarrow> (\<And>n out. ppc (f t) \<noteq> PTake n out) \<Longrightarrow> joining (f t) = None"
  unfolding joins_ok_def by (metis not_None_eq)

lemma joined_reaped: "joins_ok f \<Longrightarrow> joining (f t) = Some v \<Longrightarrow> ppc (f v) = PReaped \<and> \<not> given_back (f v)"
  unfolding joins_ok_def by blast

lemma joins_ok_upd:
  assumes "joins_ok f" and "unjoined (ppc (f t))" and "unjoined (ppc x)" and "joining x = joining (f t)"
  shows "joins_ok (f(t := x))"
proof -
  have none: "joining (f t) = None" using assms(2) by (intro joining_None [OF assms(1)]) (simp add: unjoined_def)
  have "v \<noteq> t" if "joining (f u) = Some v" for u v
    using that assms(1,2) by (auto simp: joins_ok_def unjoined_def)
  with none assms show ?thesis unfolding joins_ok_def by (auto simp: unjoined_def)
qed

lemma tids_ok_mono:
  assumes "tids_ok s" and "\<And>w. busy (thr s') w \<Longrightarrow> busy (thr s) w \<and> ptid (thr s' w) = ptid (thr s w)"
    and "\<And>w. busy (thr s') w \<Longrightarrow> ptid (thr s w) \<in> tids s \<Longrightarrow> ptid (thr s w) \<in> tids s'"
    and "\<And>w. ppc (thr s' w) = PReaped \<Longrightarrow> entered (thr s' w) \<Longrightarrow> \<not> given_back (thr s' w) \<Longrightarrow> busy (thr s') w"
  shows "tids_ok s'"
  using assms unfolding tids_ok_def by metis

lemma busy_upd:
  assumes "joining x = joining (f t)" and "ppc (f t) \<noteq> PReaped" and "ppc x \<noteq> PReaped" and "ppc (f t) = PNone \<longleftrightarrow> ppc x = PNone"
  shows "busy (f(t := x)) w = busy f w"
proof -
  have "joining ((f(t := x)) u) = joining (f u)" for u using assms(1) by simp
  with assms(2-4) show ?thesis unfolding busy_def by (cases "w = t") simp_all
qed

lemma tids_ok_upd:
  assumes "tids_ok s" and "joining x = joining (thr s t)" and "ppc (thr s t) \<noteq> PReaped" and "ppc x \<noteq> PReaped"
    and "ppc (thr s t) \<noteq> PNone" and "ppc x \<noteq> PNone" and "ptid x = ptid (thr s t)"
  shows "tids_ok (s\<lparr>pt_slots := sl, thr := (thr s)(t := x)\<rparr>)"
proof (rule tids_ok_mono [OF assms(1)])
  fix w
  note b = busy_upd [of x "thr s" t w, OF assms(2-4)]
  show "busy (thr s) w \<and> ptid (thr (s\<lparr>pt_slots := sl, thr := (thr s)(t := x)\<rparr>) w) = ptid (thr s w)"
    if "busy (thr (s\<lparr>pt_slots := sl, thr := (thr s)(t := x)\<rparr>)) w" using that b assms(5-7) by simp
  show "busy (thr (s\<lparr>pt_slots := sl, thr := (thr s)(t := x)\<rparr>)) w"
    if "ppc (thr (s\<lparr>pt_slots := sl, thr := (thr s)(t := x)\<rparr>) w) = PReaped"
      "entered (thr (s\<lparr>pt_slots := sl, thr := (thr s)(t := x)\<rparr>) w)"
      "\<not> given_back (thr (s\<lparr>pt_slots := sl, thr := (thr s)(t := x)\<rparr>) w)"
    using that b assms(1,4-6) by (auto simp: tids_ok_def split: if_splits)
qed simp

lemma tids_ok_new:
  assumes "tids_ok s" and "n \<notin> tids s" and "ptid y = n" and "ppc y \<noteq> PNone" and "ppc y \<noteq> PReaped"
    and "joining y = joining (thr s u)" and "ppc (thr s u) = PNone"
  shows "tids_ok (s\<lparr>thr := (thr s)(u := y), tids := insert n (tids s)\<rparr>)"
proof -
  have j: "joining (((thr s)(u := y)) w) = joining (thr s w)" for w using assms(6) by simp
  have b: "busy ((thr s)(u := y)) w \<longleftrightarrow> w = u \<or> busy (thr s) w" for w
    unfolding busy_def j using assms(4,5,7) by (cases "w = u") simp_all
  have "\<not> busy (thr s) u" using assms(7) by (simp add: busy_def)
  with assms(1-3,5) show ?thesis unfolding tids_ok_def by (auto simp: b split: if_splits)
qed

lemma pt_inv_one:
  assumes inv: "pt_inv s" and act: "active (ppc (thr s t))" "active (ppc x)"
    and same: "ptid x = ptid (thr s t)" "joining x = joining (thr s t)"
    and len: "length sl = PTHREAD_MAX"
    and others: "\<And>z i. z \<noteq> Inl t \<Longrightarrow> z \<noteq> Inr t \<Longrightarrow> hold (thr s) z = Some i \<Longrightarrow> sl ! i = pt_slots s ! i"
    and own: "exclusively_owned (pt_used sl) ((hold (thr s))(Inl t := creator_slot (ppc x), Inr t := own_slot x))"
    and ok: "thr_ok sl x"
  shows "pt_inv (s\<lparr>pt_slots := sl, thr := (thr s)(t := x)\<rparr>)"
proof -
  have "thr_ok sl (thr s u)" if "u \<noteq> t" for u
  proof -
    have "thr_ok sl (thr s u) = thr_ok (pt_slots s) (thr s u)"
      by (rule thr_ok_cong) (use others [of "Inl u"] others [of "Inr u"] that in auto)
    with pt_invD(3) [OF inv] show ?thesis by simp
  qed
  moreover have "joins_ok ((thr s)(t := x))"
    using joins_ok_upd [OF pt_invD(5) [OF inv] act [THEN active_unjoined] same(2)] .
  moreover have "tids_ok (s\<lparr>pt_slots := sl, thr := (thr s)(t := x)\<rparr>)"
    by (rule tids_ok_upd [OF pt_invD(4) [OF inv] same(2)]) (use act same(1) in \<open>auto simp: active_def\<close>)
  ultimately show ?thesis using len own ok by (simp add: pt_inv_def hold_upd)
qed

lemma pt_inv_pc:
  assumes inv: "pt_inv s" and act: "active (ppc (thr s t))" "active (ppc x)"
    and same: "ptid x = ptid (thr s t)" "joining x = joining (thr s t)"
    and held: "creator_slot (ppc x) = creator_slot (ppc (thr s t))" "own_slot x = own_slot (thr s t)"
    and ok: "thr_ok (pt_slots s) x"
  shows "pt_inv (s\<lparr>thr := (thr s)(t := x)\<rparr>)"
proof -
  have "(hold (thr s))(Inl t := creator_slot (ppc x), Inr t := own_slot x) = hold (thr s)"
    using held by (auto simp: fun_eq_iff)
  then have "pt_inv (s\<lparr>pt_slots := pt_slots s, thr := (thr s)(t := x)\<rparr>)"
    using pt_invD [OF inv] by (intro pt_inv_one [OF inv act same _ _ _ ok]) auto
  then show ?thesis by simp
qed

lemma pt_inv_slot:
  assumes inv: "pt_inv s" and i: "own_slot (thr s t) = Some i" "own_slot x = Some i"
    and act: "active (ppc (thr s t))" "active (ppc x)"
    and same: "ptid x = ptid (thr s t)" "joining x = joining (thr s t)"
    and held: "creator_slot (ppc x) = creator_slot (ppc (thr s t))"
    and y: "p_in_use y = p_in_use (pt_slots s ! i)" and ok: "thr_ok ((pt_slots s)[i := y]) x"
  shows "pt_inv (s\<lparr>pt_slots := (pt_slots s)[i := y], thr := (thr s)(t := x)\<rparr>)"
proof (rule pt_inv_one [OF inv act same _ _ _ ok])
  have lt: "i < length (pt_slots s)" "p_in_use (pt_slots s ! i) \<noteq> 0" using held_lt [OF inv, of "Inr t" i] i by auto
  then have "pt_used ((pt_slots s)[i := y]) = pt_used (pt_slots s)"
    using y by (simp add: pt_used_upd) (simp add: pt_used_def insert_absorb)
  moreover have "(hold (thr s))(Inl t := creator_slot (ppc x), Inr t := own_slot x) = hold (thr s)"
    using held i by (auto simp: fun_eq_iff)
  ultimately show "exclusively_owned (pt_used ((pt_slots s)[i := y]))
      ((hold (thr s))(Inl t := creator_slot (ppc x), Inr t := own_slot x))"
    using pt_invD(2) [OF inv] by simp
  fix z j
  assume "z \<noteq> Inl t" "z \<noteq> Inr t" "hold (thr s) z = Some j"
  moreover from this have "j \<noteq> i" using owned_unique [OF pt_invD(2) [OF inv], of z i "Inr t"] i by auto
  ultimately show "(pt_slots s)[i := y] ! j = pt_slots s ! j" by simp
qed (use pt_invD(1) [OF inv] in simp)

lemma pt_creates_inv:
  assumes inv: "pt_inv s" and t: "ppc (thr s t) = PUser rc x y"
    and c: "pthread_create out attr st ar (pt_slots s) = (pc', sl')"
  shows "pt_inv (s\<lparr>pt_slots := sl', thr := (thr s)(t := (thr s t)\<lparr>ppc := pc'\<rparr>)\<rparr>)"
proof (cases "\<exists>i. pt_claim st ar (pt_slots s) = Some (i, sl') \<and> pc' = PSpawn out st ar i")
  case False
  with c have "sl' = pt_slots s \<and> (\<exists>e. pc' = PUser e None None)"
    by (auto simp: pthread_create_def split: if_splits option.splits)
  then show ?thesis using t pt_invD(3) [OF inv, of t]
    by (auto intro!: pt_inv_pc [OF inv] simp: own_slot_def thr_ok_def owner_ok_def settled_def)
next
  case True
  then obtain i where "pt_claim st ar (pt_slots s) = Some (i, sl')" and pc: "pc' = PSpawn out st ar i" by auto
  note cl = pt_claim_Some [OF this(1) pt_invD(1) [OF inv]]
  let ?x = "(thr s t)\<lparr>ppc := pc'\<rparr>"
  have own: "own_slot ?x = own_slot (thr s t)" by (simp add: own_slot_def)
  have ne: "j \<noteq> i" if "hold (thr s) z = Some j" for z j
    using owned_in [OF pt_invD(2) [OF inv] that] cl(2) by auto
  have "exclusively_owned (insert i (pt_used (pt_slots s))) ((hold (thr s))(Inl t := Some i))"
    using pt_invD(2) [OF inv] cl(2) t by (intro owned_claim) auto
  moreover have "(hold (thr s))(Inl t := Some i, Inr t := own_slot ?x) = (hold (thr s))(Inl t := Some i)"
    using own by (auto simp: fun_eq_iff)
  moreover have "thr_ok sl' ?x"
    using pt_invD(3) [OF inv, of t] t cl(1,3) ne [of "Inr t"] own
    by (auto simp: thr_ok_def owner_ok_def pc settled_def)
  ultimately show ?thesis
    using t pc cl(1) pt_invD(1) [OF inv]
    by (intro pt_inv_one [OF inv]) (auto simp: cl(3) pt_used_upd nth_list_update dest: ne)
qed

lemma pt_undoes_inv:
  assumes inv: "pt_inv s" and t: "ppc (thr s t) = PUndo i rc"
  shows "pt_inv (s\<lparr>pt_slots := pt_free i (pt_slots s), thr := (thr s)(t := (thr s t)\<lparr>ppc := PUser rc None None\<rparr>)\<rparr>)"
proof -
  let ?x = "(thr s t)\<lparr>ppc := PUser rc None None\<rparr>"
  have lt: "i < length (pt_slots s)" using held_lt [OF inv, of "Inl t" i] t by simp
  have own: "own_slot ?x = own_slot (thr s t)" by (simp add: own_slot_def)
  have ne: "j \<noteq> i" if "hold (thr s) z = Some j" "z \<noteq> Inl t" for z j
    using owned_unique [OF pt_invD(2) [OF inv], of z i "Inl t"] that t by auto
  have "exclusively_owned (pt_used (pt_slots s) - {i}) ((hold (thr s))(Inl t := None))"
    using pt_invD(2) [OF inv] t by (intro owned_release) auto
  moreover have "(hold (thr s))(Inl t := None, Inr t := own_slot ?x) = (hold (thr s))(Inl t := None)"
    using own by (auto simp: fun_eq_iff)
  moreover have "thr_ok (pt_free i (pt_slots s)) ?x"
    using pt_invD(3) [OF inv, of t] t ne [of "Inr t"] own
    by (auto simp: thr_ok_def owner_ok_def settled_def pt_free_def)
  ultimately show ?thesis
    using t lt pt_invD(1) [OF inv]
    by (intro pt_inv_one [OF inv]) (auto simp: pt_free_def pt_used_upd nth_list_update dest: ne)
qed

lemma not_given_back: "pt_inv s \<Longrightarrow> ppc (thr s t) \<noteq> PReaped \<Longrightarrow> own_slot (thr s t) = frame (thr s t)"
  using pt_invD(3) [of s t] by (auto simp: thr_ok_def own_slot_def)

lemma pt_stores_inv:
  assumes inv: "pt_inv s" and i: "frame (thr s t) = Some i"
    and st: "trampoline_store (ptid (thr s t)) i (ppc (thr s t)) (pt_slots s) = Some (pc', sl')"
  shows "pt_inv (s\<lparr>pt_slots := sl', thr := (thr s)(t := (thr s t)\<lparr>ppc := pc', entered := True\<rparr>)\<rparr>)"
proof -
  let ?x = "(thr s t)\<lparr>ppc := pc', entered := True\<rparr>"
  have own: "own_slot (thr s t) = Some i"
    using st i not_given_back [OF inv, of t] by (cases "ppc (thr s t)") auto
  then have own': "own_slot ?x = Some i" by (simp add: own_slot_def split: if_splits)
  have lt: "i < length (pt_slots s)" using held_lt [OF inv, of "Inr t" i] own by simp
  have ok: "thr_ok (pt_slots s) (thr s t)" by (rule pt_invD(3) [OF inv])
  show ?thesis
    using st ok own own' lt
    by (cases "ppc (thr s t)") (auto intro!: pt_inv_slot [OF inv] simp: thr_ok_def owner_ok_def settled_def i)
qed

lemma pt_exit_stores_inv:
  assumes inv: "pt_inv s" and t: "ppc (thr s t) = PExit r"
  shows "pt_inv (s\<lparr>pt_slots := pthread_exit_store (ptid (thr s t)) r (pt_slots s),
                   thr := (thr s)(t := (thr s t)\<lparr>ppc := PGone\<rparr>)\<rparr>)"
proof -
  let ?x = "(thr s t)\<lparr>ppc := PGone\<rparr>"
  have ok: "thr_ok (pt_slots s) (thr s t)" by (rule pt_invD(3) [OF inv])
  have own: "own_slot ?x = own_slot (thr s t)" by (simp add: own_slot_def)
  have f: "slot_for_tid (ptid (thr s t)) (pt_slots s) = own_slot (thr s t)"
    using slot_for_tid_self [OF inv, of t] ok t not_given_back [OF inv, of t] by (auto simp: thr_ok_def busy_def)
  show ?thesis
  proof (cases "own_slot (thr s t)")
    case None
    with ok own t f show ?thesis
      by (auto simp: pthread_exit_store_def thr_ok_def owner_ok_def intro!: pt_inv_pc [OF inv])
  next
    case (Some i)
    then have lt: "i < length (pt_slots s)" using held_lt [OF inv, of "Inr t" i] by simp
    from Some ok own t f lt show ?thesis
      by (auto simp: pthread_exit_store_def thr_ok_def owner_ok_def intro!: pt_inv_slot [OF inv])
  qed
qed

lemma pt_spawns_inv:
  assumes inv: "pt_inv s" and t: "ppc (thr s t) = PSpawn out st ar i" and u: "ppc (thr s u) = PNone"
    and n: "n \<notin> tids s" "0 < sint n"
  shows "pt_inv (s\<lparr>thr := (thr s)(t := (thr s t)\<lparr>ppc := PUser 0 b None\<rparr>,
                     u := (thr s u)\<lparr>ppc := PTid, ptid := n, frame := Some i, want := Some (st, ar)\<rparr>),
                   tids := insert n (tids s)\<rparr>)" (is "pt_inv (s\<lparr>thr := (thr s)(t := ?x, u := ?y), tids := _\<rparr>)")
proof -
  have ok: "thr_ok (pt_slots s) (thr s t)" "thr_ok (pt_slots s) (thr s u)" using pt_invD(3) [OF inv] by blast+
  have u': "\<not> given_back (thr s u)" "frame (thr s u) = None" "\<not> entered (thr s u)" "outcome (thr s u) = None"
    "ran (thr s u) = None" using ok(2) u by (auto simp: thr_ok_def)
  have "hold ((thr s)(t := ?x, u := ?y)) = (hold (thr s))(Inl t := None, Inr u := Some i)"
    using t u u' by (auto simp: hold_def own_slot_def fun_eq_iff split: sum.splits)
  moreover have "exclusively_owned (pt_used (pt_slots s)) ((hold (thr s))(Inl t := None, Inr u := Some i))"
    using pt_invD(2) [OF inv] t u' by (intro owned_transfer) (auto simp: own_slot_def)
  moreover have "thr_ok (pt_slots s) ?x" "thr_ok (pt_slots s) ?y"
    using ok t u' n(2) by (auto simp: thr_ok_def owner_ok_def own_slot_def settled_def)
  moreover have "joins_ok ((thr s)(t := ?x, u := ?y))"
    using t u by (intro joins_ok_upd pt_invD(5) [OF inv]) (auto simp: unjoined_def)
  moreover have "tids_ok (s\<lparr>thr := (thr s)(t := ?x, u := ?y), tids := insert n (tids s)\<rparr>)"
  proof -
    have "t \<noteq> u" using t u by auto
    have "tids_ok (s\<lparr>pt_slots := pt_slots s, thr := (thr s)(t := ?x)\<rparr>)"
      by (rule tids_ok_upd [OF pt_invD(4) [OF inv]]) (use t in simp_all)
    from tids_ok_new [OF this, of n ?y u] n(1) u \<open>t \<noteq> u\<close> show ?thesis by simp
  qed
  ultimately show ?thesis using pt_invD(1,3) [OF inv] by (simp add: pt_inv_def)
qed

lemma pt_raw_spawns_inv:
  assumes inv: "pt_inv s" and u: "ppc (thr s u) = PNone" and n: "n \<notin> tids s" "0 < sint n"
  shows "pt_inv (s\<lparr>thr := (thr s)(u := (thr s u)\<lparr>ppc := PUser 0 None None, ptid := n\<rparr>), tids := insert n (tids s)\<rparr>)"
    (is "pt_inv (s\<lparr>thr := (thr s)(u := ?y), tids := _\<rparr>)")
proof -
  have ok: "thr_ok (pt_slots s) (thr s u)" using pt_invD(3) [OF inv] .
  then have u': "frame (thr s u) = None" "\<not> given_back (thr s u)" using u by (auto simp: thr_ok_def)
  have "hold ((thr s)(u := ?y)) = hold (thr s)"
    using u u' by (auto simp: hold_def own_slot_def fun_eq_iff split: sum.splits)
  moreover have "thr_ok (pt_slots s) ?y" using ok u u' n(2) by (auto simp: thr_ok_def owner_ok_def own_slot_def)
  moreover have "joins_ok ((thr s)(u := ?y))"
    using u by (intro joins_ok_upd pt_invD(5) [OF inv]) (auto simp: unjoined_def)
  moreover have "tids_ok (s\<lparr>thr := (thr s)(u := ?y), tids := insert n (tids s)\<rparr>)"
    using tids_ok_new [OF pt_invD(4) [OF inv] n(1), of ?y u] u by simp
  ultimately show ?thesis using pt_invD(1-3) [OF inv] by (simp add: pt_inv_def)
qed

lemma thr_ok_join_moves:
  "thr_ok sl x \<Longrightarrow> ppc x = PJoin n out \<Longrightarrow> thr_ok sl (x\<lparr>ppc := PTake n out, joining := j\<rparr>)"
  "thr_ok sl x \<Longrightarrow> ppc x = PGone \<Longrightarrow> thr_ok sl (x\<lparr>ppc := PReaped\<rparr>)"
  "thr_ok sl x \<Longrightarrow> ppc x = PTake n out \<Longrightarrow> thr_ok sl (x\<lparr>ppc := PUser a b c, joining := j\<rparr>)"
  "thr_ok sl x \<Longrightarrow> ppc x = PReaped \<Longrightarrow> \<not> given_back x \<Longrightarrow> thr_ok sl (x\<lparr>given_back := g\<rparr>)"
  by (simp_all add: thr_ok_def owner_ok_def own_slot_def settled_def)

lemma pt_reaps_inv:
  assumes inv: "pt_inv s" and t: "ppc (thr s t) = PJoin n out" and v: "ppc (thr s v) = PGone" "ptid (thr s v) = n"
  shows "pt_inv (s\<lparr>thr := (thr s)(t := (thr s t)\<lparr>ppc := PTake n out, joining := Some v\<rparr>,
                                  v := (thr s v)\<lparr>ppc := PReaped\<rparr>)\<rparr>)" (is "pt_inv (s\<lparr>thr := ?f\<rparr>)")
proof -
  have ne: "t \<noteq> v" using t v by auto
  have "hold ?f = hold (thr s)"
    using t v by (auto simp: hold_def own_slot_def fun_eq_iff split: sum.splits)
  moreover have "thr_ok (pt_slots s) (?f w)" for w
    using pt_invD(3) [OF inv, of w] t v by (auto simp: thr_ok_join_moves)
  moreover have "tids_ok (s\<lparr>thr := ?f\<rparr>)"
  proof -
    have none: "joining (thr s t) = None" using joining_None [OF pt_invD(5) [OF inv]] t by simp
    have "joining (?f u) = (if u = t then Some v else joining (thr s u))" for u using ne by simp
    then have j: "(\<exists>u. joining (?f u) = Some w) \<longleftrightarrow> w = v \<or> (\<exists>u. joining (thr s u) = Some w)" for w
      using none by (metis option.distinct(1) option.inject)
    have b: "busy ?f w = busy (thr s) w" for w
      unfolding busy_def j using t v ne by (cases "w = t"; cases "w = v") simp_all
    have "busy (thr s) v" using v(1) by (simp add: busy_def)
    then show ?thesis
      by (intro tids_ok_mono [OF pt_invD(4) [OF inv]])
        (use pt_invD(4) [OF inv] t ne in \<open>auto simp: b tids_ok_def split: if_splits\<close>)
  qed
  moreover have "joins_ok ?f"
  proof -
    have "joining (thr s w) \<noteq> Some v \<and> joining (thr s w) \<noteq> Some t" for w
      using joined_reaped [OF pt_invD(5) [OF inv]] t v by fastforce
    moreover have "joining (thr s v) = None" "joining (thr s t) = None"
      using joining_None [OF pt_invD(5) [OF inv]] t v by simp_all
    moreover have "\<not> given_back (thr s v)" using pt_invD(3) [OF inv, of v] v by (simp add: thr_ok_def)
    ultimately show ?thesis
      using pt_invD(5) [OF inv] t v ne unfolding joins_ok_def by auto
  qed
  ultimately show ?thesis using pt_invD(1,2) [OF inv] by (simp add: pt_inv_def)
qed

lemma joining_tid:
  assumes inv: "pt_inv s" and t: "ppc (thr s t) = PTake n out" "joining (thr s t) = Some v"
  shows "ptid (thr s v) = n" and "ppc (thr s v) = PReaped" and "\<not> given_back (thr s v)" and "t \<noteq> v"
proof -
  have "(\<exists>n out. ppc (thr s t) = PTake n out \<and> ptid (thr s v) = n) \<and> ppc (thr s v) = PReaped \<and>
      \<not> given_back (thr s v)" using pt_invD(5) [OF inv] t(2) by (simp add: joins_ok_def)
  with t show "ptid (thr s v) = n" "ppc (thr s v) = PReaped" "\<not> given_back (thr s v)" "t \<noteq> v" by auto
qed

lemma joined_busy: "ppc (f v) = PReaped \<Longrightarrow> joining (f t) = Some v \<Longrightarrow> busy f v"
  by (auto simp: busy_def)

lemma joined_slot:
  assumes inv: "pt_inv s" and t: "ppc (thr s t) = PTake n out" "joining (thr s t) = Some v"
  shows "slot_for_tid n (pt_slots s) = (if entered (thr s v) then frame (thr s v) else None)"
  using slot_for_tid_self [OF inv joined_busy [OF joining_tid(2) [OF inv t] t(2)]] joining_tid [OF inv t] by (simp add: own_slot_def)

lemma joins_ok_done:
  assumes "joins_ok f" and "joining (f t) = Some v" and "t \<noteq> v"
    and "\<exists>a b c. ppc x = PUser a b c" and "joining x = None" and "ppc y = ppc (f v)" and "joining y = joining (f v)"
    and "ppc (f t) \<noteq> PReaped" and "ptid y = ptid (f v)"
  shows "joins_ok (f(t := x, v := y))"
proof -
  have "w = t" if "joining (f w) = Some v" for w using that assms(1,2) unfolding joins_ok_def by blast
  moreover have "joining (f w) \<noteq> Some t" for w using assms(8) joined_reaped [OF assms(1), of w t] by blast
  moreover have "joining (f v) = None" using joining_None [OF assms(1), of v] joined_reaped [OF assms(1,2)] by simp
  ultimately show ?thesis using assms unfolding joins_ok_def by (auto split: if_splits)
qed

text \<open>A join that returns frees the number of the thread it joined.\<close>

lemma tids_ok_done:
  assumes inv: "pt_inv s" and t: "ppc (thr s t) = PTake n out" "joining (thr s t) = Some v" and pc: "\<exists>a b c. pc' = PUser a b c"
  shows "tids_ok (s\<lparr>pt_slots := sl', thr := (thr s)(t := (thr s t)\<lparr>ppc := pc', joining := None\<rparr>,
           v := (thr s v)\<lparr>given_back := slot_for_tid n (pt_slots s) \<noteq> None\<rparr>), tids := tids s - {n}\<rparr>)"
    (is "tids_ok (s\<lparr>pt_slots := _, thr := ?f, tids := _\<rparr>)")
proof -
  note v = joining_tid [OF inv t] and ok = pt_invD(4) [OF inv]
  have vb: "busy (thr s) v" by (rule joined_busy [OF v(2) t(2)])
  have "u = t" if "joining (thr s u) = Some v" for u using pt_invD(5) [OF inv] t(2) that unfolding joins_ok_def by blast
  moreover have "joining (?f u) = (if u = t then None else joining (thr s u))" for u using v(4) by simp
  ultimately have j: "(\<exists>u. joining (?f u) = Some w) \<longleftrightarrow> w \<noteq> v \<and> (\<exists>u. joining (thr s u) = Some w)" for w
    using t(2) by (metis option.distinct(1) option.inject)
  have b: "busy ?f w \<longleftrightarrow> w \<noteq> v \<and> busy (thr s) w" for w
    unfolding busy_def j using t(1) v(2,4) pc by (cases "w = t"; cases "w = v") auto
  have n: "ptid (thr s w) \<noteq> n" if "busy (thr s) w" "w \<noteq> v" for w
    using ok vb that v(1) unfolding tids_ok_def by blast
  have g: "slot_for_tid n (pt_slots s) \<noteq> None" if "entered (thr s v)"
    using joined_slot [OF inv t] that life_entered pt_invD(3) [OF inv, of v] by (auto simp: thr_ok_def)
  define f where "f = ?f"
  have f: "ptid (f w) = ptid (thr s w)" "entered (f w) = entered (thr s w)" "ppc (f w) = PReaped \<Longrightarrow> ppc (thr s w) = PReaped"
    "w \<noteq> v \<Longrightarrow> given_back (f w) = given_back (thr s w)" "given_back (f v) = (slot_for_tid n (pt_slots s) \<noteq> None)" for w
    using pc v(4) by (auto simp: f_def split: if_splits)
  have "tids_ok (s\<lparr>pt_slots := sl', thr := f, tids := tids s - {n}\<rparr>)"
  proof (rule tids_ok_mono [OF ok])
    fix w
    show "busy (thr (s\<lparr>pt_slots := sl', thr := f, tids := tids s - {n}\<rparr>)) w"
      if "ppc (thr (s\<lparr>pt_slots := sl', thr := f, tids := tids s - {n}\<rparr>) w) = PReaped"
        "entered (thr (s\<lparr>pt_slots := sl', thr := f, tids := tids s - {n}\<rparr>) w)"
        "\<not> given_back (thr (s\<lparr>pt_slots := sl', thr := f, tids := tids s - {n}\<rparr>) w)"
      using that f(1-4) [of w] f(5) g ok b [of w, folded f_def] by (cases "w = v") (simp_all add: tids_ok_def)
  qed (use f(1) b [folded f_def] n in simp_all)
  then show ?thesis unfolding f_def .
qed

lemma pt_raw_joins_inv:
  assumes inv: "pt_inv s" and v: "ppc (thr s v) = PGone" "frame (thr s v) = None"
  shows "pt_inv (s\<lparr>thr := (thr s)(v := (thr s v)\<lparr>ppc := PReaped\<rparr>), tids := tids s - {ptid (thr s v)}\<rparr>)"
    (is "pt_inv (s\<lparr>thr := ?f, tids := _\<rparr>)")
proof -
  have ok: "thr_ok (pt_slots s) (thr s v)" by (rule pt_invD(3) [OF inv])
  have joins: "joining (thr s w) \<noteq> Some v" "joining (thr s v) = None" for w
    using joined_reaped [OF pt_invD(5) [OF inv], of w v] joining_None [OF pt_invD(5) [OF inv], of v] v(1) by auto
  have "hold ?f = hold (thr s)"
    using v by (auto simp: hold_def own_slot_def fun_eq_iff split: sum.splits)
  moreover have "thr_ok (pt_slots s) (?f w)" for w
    using pt_invD(3) [OF inv, of w] v by (auto simp: thr_ok_join_moves)
  moreover have "joins_ok ?f" using pt_invD(5) [OF inv] joins v(1) unfolding joins_ok_def by auto
  moreover have "tids_ok (s\<lparr>thr := ?f, tids := tids s - {ptid (thr s v)}\<rparr>)"
  proof -
    have j: "joining (?f u) = joining (thr s u)" for u by simp
    have b: "busy ?f w \<longleftrightarrow> w \<noteq> v \<and> busy (thr s) w" for w
      unfolding busy_def j using joins(1) by (cases "w = v") auto
    have "busy (thr s) v" using v(1) by (simp add: busy_def)
    then have "ptid (thr s w) \<noteq> ptid (thr s v)" if "busy (thr s) w" "w \<noteq> v" for w
      using pt_invD(4) [OF inv] that unfolding tids_ok_def by blast
    moreover have "\<not> entered (thr s v)" using ok v by (auto simp: thr_ok_def)
    ultimately show ?thesis
      by (intro tids_ok_mono [OF pt_invD(4) [OF inv]]) (use pt_invD(4) [OF inv] in \<open>auto simp: b tids_ok_def split: if_splits\<close>)
  qed
  ultimately show ?thesis using pt_invD(1,2) [OF inv] by (simp add: pt_inv_def)
qed

lemma pt_takes_inv:
  assumes inv: "pt_inv s" and t: "ppc (thr s t) = PTake n out" "joining (thr s t) = Some v"
    and j: "pthread_join_take n out (pt_slots s) = (pc', sl')"
  shows "pt_inv (s\<lparr>pt_slots := sl', thr := (thr s)(t := (thr s t)\<lparr>ppc := pc', joining := None\<rparr>,
           v := (thr s v)\<lparr>given_back := slot_for_tid n (pt_slots s) \<noteq> None\<rparr>), tids := tids s - {n}\<rparr>)"
    (is "pt_inv (s\<lparr>pt_slots := sl', thr := (thr s)(t := ?x, v := ?y), tids := _\<rparr>)")
proof -
  note v = joining_tid [OF inv t]
  have pc: "\<exists>a b c. pc' = PUser a b c" using j by (auto simp: pthread_join_take_def split: option.splits)
  have ok: "thr_ok (pt_slots s) (thr s w)" for w by (rule pt_invD(3) [OF inv])
  have joins: "joins_ok ((thr s)(t := ?x, v := ?y))"
    using pc t v by (intro joins_ok_done [OF pt_invD(5) [OF inv]]) auto
  have tids: "tids_ok (s\<lparr>pt_slots := sl', thr := (thr s)(t := ?x, v := ?y), tids := tids s - {n}\<rparr>)"
    using tids_ok_done [OF inv t pc] by simp
  show ?thesis
  proof (cases "slot_for_tid n (pt_slots s)")
    case None
    with j have sl: "sl' = pt_slots s" by (simp add: pthread_join_take_def)
    have "hold ((thr s)(t := ?x, v := ?y)) = hold (thr s)"
      using t v pc None by (auto simp: hold_def own_slot_def fun_eq_iff split: sum.splits)
    moreover have "thr_ok (pt_slots s) (((thr s)(t := ?x, v := ?y)) w)" for w
      using ok [of w] t v pc by (auto simp: thr_ok_join_moves)
    ultimately show ?thesis using pt_invD(1,2) [OF inv] joins tids by (simp add: pt_inv_def sl)
  next
    case (Some i)
    with j have sl: "sl' = pt_free i (pt_slots s)" by (simp add: pthread_join_take_def)
    have i: "own_slot (thr s v) = Some i"
      using Some joined_slot [OF inv t] v(3) by (simp add: own_slot_def split: if_splits)
    then have lt: "i < length (pt_slots s)" using held_lt [OF inv, of "Inr v" i] by simp
    have h: "hold ((thr s)(t := ?x, v := ?y)) = (hold (thr s))(Inr v := None)"
      using t v pc Some by (auto simp: hold_def own_slot_def fun_eq_iff split: sum.splits)
    have own: "exclusively_owned (pt_used sl') ((hold (thr s))(Inr v := None))"
      using owned_release [OF pt_invD(2) [OF inv], of "Inr v" i] i lt by (simp add: sl pt_free_def pt_used_upd)
    have "thr_ok sl' (((thr s)(t := ?x, v := ?y)) w)" for w
    proof -
      have "thr_ok (pt_slots s) (((thr s)(t := ?x, v := ?y)) w)"
        using ok [of w] t v pc by (auto simp: thr_ok_join_moves)
      moreover have "k \<noteq> i" if "hold ((thr s)(t := ?x, v := ?y)) z = Some k" for z k
        using that owned_unique [OF pt_invD(2) [OF inv], of z i "Inr v"] i unfolding h by (auto split: if_splits)
      then have "thr_ok sl' (((thr s)(t := ?x, v := ?y)) w) =
          thr_ok (pt_slots s) (((thr s)(t := ?x, v := ?y)) w)"
        by (intro thr_ok_cong; unfold sl pt_free_def) (metis nth_list_update_neq hold_simps(1),
            metis nth_list_update_neq hold_simps(2))
      ultimately show ?thesis by simp
    qed
    with own h joins tids pt_invD(1) [OF inv] show ?thesis by (simp add: pt_inv_def sl pt_free_def)
  qed
qed

text \<open>The steps that only move the program counter, or fix the outcome as well.\<close>

lemma pt_inv_go:
  assumes inv: "pt_inv s" and act: "active (ppc (thr s t))" "active pc" "ppc (thr s t) \<noteq> PStart"
    and cr: "creator_slot pc = creator_slot (ppc (thr s t))" "creator_ok (pt_slots s) pc"
    and life: "life pc (frame (thr s t) \<noteq> None) (entered (thr s t)) r" and r: "settled pc \<Longrightarrow> r = None"
  shows "pt_inv (s\<lparr>thr := (thr s)(t := (thr s t)\<lparr>ppc := pc, outcome := r\<rparr>)\<rparr>)"
proof (rule pt_inv_pc [OF inv])
  show "thr_ok (pt_slots s) ((thr s t)\<lparr>ppc := pc, outcome := r\<rparr>)"
    using pt_invD(3) [OF inv, of t] act cr(2) life r
    by (auto simp: thr_ok_def owner_ok_def own_slot_def active_def)
qed (use act cr in \<open>simp_all add: own_slot_def\<close>)

lemma pt_go_inv:
  assumes inv: "pt_inv s" and act: "active (ppc (thr s t))" "active pc" "ppc (thr s t) \<noteq> PStart"
    and cr: "creator_slot pc = creator_slot (ppc (thr s t))" "creator_ok (pt_slots s) pc"
    and life: "life pc (frame (thr s t) \<noteq> None) (entered (thr s t)) (outcome (thr s t))"
    and r: "settled pc \<Longrightarrow> outcome (thr s t) = None"
  shows "pt_inv (s\<lparr>thr := (thr s)(t := (thr s t)\<lparr>ppc := pc\<rparr>)\<rparr>)"
  using pt_inv_go [OF inv act cr life r] by simp

lemma thr_life: "pt_inv s \<Longrightarrow> life (ppc (thr s t)) (frame (thr s t) \<noteq> None) (entered (thr s t)) (outcome (thr s t))"
  using pt_invD(3) [of s t] by (simp add: thr_ok_def)

lemma pt_step_inv:
  assumes K: "tids_last K" and inv: "pt_inv s" and step: "pt_step K s s'"
  shows "pt_inv s'"
  using step
proof cases
  case (creates t rc x y out attr st ar pc' sl')
  with pt_creates_inv [OF inv] show ?thesis by simp
next
  case (spawns t out st ar i u n)
  with pt_spawns_inv [OF inv] K show ?thesis by (simp add: tids_last_def)
next
  case (raw_spawns t rc x y u n)
  with pt_raw_spawns_inv [OF inv] K show ?thesis by (simp add: tids_last_def)
next
  case (undoes t i rc)
  with pt_undoes_inv [OF inv] show ?thesis by simp
next
  case (stores t i pc' sl')
  with pt_stores_inv [OF inv] show ?thesis by simp
next
  case (exit_stores t r)
  with pt_exit_stores_inv [OF inv] show ?thesis by simp
next
  case (reaps t n out v)
  with pt_reaps_inv [OF inv] show ?thesis by simp
next
  case (takes t n out v pc' sl')
  with pt_takes_inv [OF inv] show ?thesis by simp
next
  case (raw_joins t rc x y v)
  with pt_raw_joins_inv [OF inv] show ?thesis by simp
next
  case (starts_routine t i)
  with not_given_back [OF inv, of t] pt_invD(3) [OF inv, of t] show ?thesis
    by (auto intro!: pt_inv_pc [OF inv] simp: thr_ok_def owner_ok_def settled_def own_slot_def)
next
  case (spawn_fails t out st ar i rc)
  with pt_invD(3) [OF inv, of t] thr_life [OF inv, of t] show ?thesis
    by (simp add: pt_go_inv [OF inv] thr_ok_def settled_def)
next
  case (dies_early t)
  with thr_life [OF inv, of t] show ?thesis by (simp add: pt_go_inv [OF inv])
next
  case (exits_plainly t rc x y)
  with thr_life [OF inv, of t] show ?thesis by (simp add: pt_go_inv [OF inv])
next
  case (calls_join t rc x y n out)
  with thr_life [OF inv, of t] show ?thesis by (simp add: pt_go_inv [OF inv] settled_def pthread_join_def)
next
  case (join_fails t n out rc)
  with thr_life [OF inv, of t] show ?thesis by (simp add: pt_go_inv [OF inv] settled_def)
next
  case (routine_returns t rc x y i r)
  with thr_life [OF inv, of t] show ?thesis by (auto intro!: pt_inv_go [OF inv] simp: settled_def)
next
  case (calls_exit t rc x y r)
  with thr_life [OF inv, of t] show ?thesis
    by (auto intro!: pt_inv_go [OF inv] simp: settled_def pthread_exit_def)
qed

lemma pt_inv_initial:
  assumes "pt_initial s"
  shows "pt_inv s"
proof -
  have t: "ppc (thr s t) = PNone \<or> (\<exists>rc. ppc (thr s t) = PUser rc None None)"
    "frame (thr s t) = None" "joining (thr s t) = None" "\<not> given_back (thr s t)" for t
    using assms by (auto simp: pt_initial_def)
  have "hold (thr s) z = None" for z
    using t by (cases z) (auto simp: own_slot_def, metis creator_slot.simps(3,4))
  then have "hold (thr s) = (\<lambda>_. None)" by (simp add: fun_eq_iff)
  moreover have "pt_used (pt_slots s) = {}" using assms by (auto simp: pt_initial_def pt_used_def)
  moreover have "thr_ok (pt_slots s) (thr s t)" for t
    using assms unfolding pt_initial_def
    by (elim conjE allE [of _ t] disjE exE) (auto simp: thr_ok_def owner_ok_def own_slot_def)
  moreover have "ppc (thr s t) \<noteq> PTake n out" for t n out using t(1) [of t] by auto
  then have "joins_ok (thr s)" using t(3) by (simp add: joins_ok_def)
  moreover have "busy (thr s) t \<longleftrightarrow> ppc (thr s t) \<noteq> PNone" "ppc (thr s t) \<noteq> PReaped" for t
    using t(1) [of t] by (auto simp: busy_def)
  then have "tids_ok s" using assms unfolding pt_initial_def tids_ok_def by metis
  ultimately show ?thesis using assms by (simp add: pt_inv_def pt_initial_def owned_empty)
qed

interpretation pt_results: invariant_system pt_initial "\<lambda>s s'. tids_last K \<and> pt_step K s s'" pt_inv for K
  by unfold_locales (auto intro: pt_inv_initial pt_step_inv)

lemma reachable_pt_inv:
  assumes "tids_last K" and "reachable pt_initial (pt_step K) s"
  shows "pt_inv s"
  using pt_results.reachable_inv [OF reachable_mono [OF assms(2)]] assms(1) by blast

section \<open>What a join finds\<close>

lemma join_take_outcome:
  assumes inv: "pt_inv s" and t: "ppc (thr s t) = PTake n out" "joining (thr s t) = Some v"
    and v: "frame (thr s v) = Some i" "outcome (thr s v) = Some r"
  shows "pthread_join_take n out (pt_slots s) = (PUser 0 None (if out then Some r else None), pt_free i (pt_slots s))"
proof -
  note r = joining_tid [OF inv t]
  from pt_invD(3) [OF inv, of v] v r have "entered (thr s v)" and "p_retval (pt_slots s ! i) = r"
    by (auto simp: thr_ok_def owner_ok_def own_slot_def settled_def)
  with joined_slot [OF inv t] v show ?thesis by (simp add: pthread_join_take_def)
qed

text \<open>
  A number that is given out again before the join of its thread has got to its critical section leads the
  join to the first slot with that number: it reports the value of that slot and frees it.
\<close>

lemma reused_number_misleads_join:
  assumes "p_in_use (sl ! i) \<noteq> 0" "p_tid (sl ! i) = n" and "i < j" "j < PTHREAD_MAX"
    and "p_in_use (sl ! j) \<noteq> 0" "p_tid (sl ! j) = n" and "\<forall>k<i. p_in_use (sl ! k) = 0"
  shows "pthread_join_take n True sl = (PUser 0 None (Some (p_retval (sl ! i))), pt_free i sl)"
proof -
  have "slot_for_tid n sl = Some i"
    unfolding slot_for_tid_def find_Some_iff using assms by (intro exI [of _ i]) (auto simp del: upt_Suc)
  then show ?thesis by (simp add: pthread_join_take_def)
qed

text \<open>
  A thread that exits before \<open>pthread_trampoline\<close> runs (\<open>__tls_setup_self\<close> failed, exit code 127) never
  stores its number. Its join succeeds, reports 0, and leaves the slot in use for good.
\<close>

lemma join_of_early_exit_leaks:
  assumes "tids_last K" and "reachable pt_initial (pt_step K) s"
    and t: "ppc (thr s t) = PTake n True" "joining (thr s t) = Some v"
    and v: "frame (thr s v) = Some i" "\<not> entered (thr s v)"
  shows "pthread_join_take n True (pt_slots s) = (PUser 0 None (Some 0), pt_slots s) \<and> i \<in> pt_used (pt_slots s)"
proof -
  have inv: "pt_inv s" by (rule reachable_pt_inv [OF assms(1,2)])
  have "own_slot (thr s v) = Some i" using v(1) joining_tid(3) [OF inv t] by (simp add: own_slot_def)
  then have "i \<in> pt_used (pt_slots s)" using owned_in [OF pt_invD(2) [OF inv], of "Inr v" i] by simp
  with joined_slot [OF inv t] v(2) show ?thesis by (simp add: pthread_join_take_def)
qed

section \<open>A concrete run\<close>

text \<open>The main thread (number 1) creates a thread (number 2).\<close>

abbreviation empty_pslot :: pthread_slot where
  "empty_pslot \<equiv> \<lparr>p_in_use = 0, p_tid = 0, p_finished = 0, p_start = 0, p_arg = 0, p_retval = 0\<rparr>"

definition main_thr :: "ppc \<Rightarrow> bool option \<Rightarrow> bool pthr" where
  "main_thr pc j = \<lparr>ppc = pc, ptid = 1, frame = None, ran = None, want = None, outcome = None,
     entered = False, given_back = False, joining = j\<rparr>"

definition new_thr :: "ppc \<Rightarrow> (addr \<times> addr) option \<Rightarrow> addr option \<Rightarrow> bool \<Rightarrow> bool pthr" where
  "new_thr pc call r e = \<lparr>ppc = pc, ptid = 2, frame = Some 0, ran = call, want = Some (0x400, 5),
     outcome = r, entered = e, given_back = False, joining = None\<rparr>"

definition unborn_thr :: "bool pthr" where
  "unborn_thr = \<lparr>ppc = PNone, ptid = 0, frame = None, ran = None, want = None, outcome = None,
     entered = False, given_back = False, joining = None\<rparr>"

definition run_pt :: "pthread_slot \<Rightarrow> bool pthr \<Rightarrow> bool pthr \<Rightarrow> i32 set \<Rightarrow> bool pt_state" where
  "run_pt x m n U = \<lparr>pt_slots = x # replicate 15 empty_pslot, thr = (\<lambda>t. if t then n else m), tids = U\<rparr>"

definition counting_tids :: "i32 set \<Rightarrow> i32 \<Rightarrow> bool" where
  "counting_tids U n \<longleftrightarrow> n \<notin> U \<and> 0 < sint n"

lemma counting_tids_last [simp]: "tids_last counting_tids"
  by (simp add: tids_last_def counting_tids_def)

definition run_slot :: "i32 \<Rightarrow> addr \<Rightarrow> i32 \<Rightarrow> pthread_slot" where
  "run_slot tid r fin = \<lparr>p_in_use = 1, p_tid = tid, p_finished = fin, p_start = 0x400, p_arg = 5, p_retval = r\<rparr>"

lemmas run_pt_simps = run_pt_def main_thr_def new_thr_def unborn_thr_def run_slot_def bool_fun_upd

lemma run_pt_started:
  "reachable pt_initial (pt_step counting_tids)
     (run_pt (run_slot 0 0 0) (main_thr (PUser 0 (Some 2) None) None) (new_thr PTid None None False) {1, 2})"
proof -
  let ?R = "\<lambda>x pc. reachable pt_initial (pt_step counting_tids) (run_pt x (main_thr pc None) unborn_thr {1})"
  have "?R empty_pslot (PUser 0 None None)"
    by (intro reach_init) (auto simp: pt_initial_def run_pt_simps split: if_splits)
  from reach_step [OF this pt_step.creates [where t = False and out = True and attr = 0
        and start = "0x400" and ar = 5]]
  have "?R (run_slot 0 0 0) (PSpawn True 0x400 5 0)"
    by (simp add: run_pt_simps pthread_create_def pt_claim_def upt_rec)
  from reach_step [OF this pt_step.spawns [where t = False and u = True and n = 2 and out = True
          and st = "0x400" and ar = 5 and i = 0 and K = counting_tids]]
  have "counting_tids {1} 2 \<Longrightarrow> ?thesis" by (simp add: run_pt_simps insert_commute)
  then show ?thesis by (simp add: counting_tids_def)
qed

section \<open>Properties\<close>

text \<open>
  A join returns what the thread returned. When \<open>pthread_join\<close> gets to its critical section after the joined thread \<open>v\<close> has exited, then
  the value it stores is the one \<open>v\<close>'s start routine returned or \<open>v\<close> gave to \<open>pthread_exit\<close>, and it
  gives back the slot of \<open>v\<close> and changes no other, whatever threads were created, exited and joined in
  between; and the routine \<open>v\<close> ran and its argument are those of the \<open>pthread_create\<close> that made it.
\<close>

lemma pthread_join_returns_result:
  assumes "tids_last K" and "reachable pt_initial (pt_step K) s"
    and "ppc (thr s t) = PTake n out" and "joining (thr s t) = Some v"
    and "frame (thr s v) = Some i" and "outcome (thr s v) = Some r"
  shows "pthread_join_take n out (pt_slots s) =
           (PUser 0 None (if out then Some r else None), pt_free i (pt_slots s)) \<and>
         ran (thr s v) = want (thr s v)"
proof -
  have inv: "pt_inv s" by (rule reachable_pt_inv [OF assms(1,2)])
  note v = joining_tid(2) [OF inv assms(3,4)]
  from pt_invD(3) [OF inv, of v] v assms(5,6)
  have "ran (thr s v) \<noteq> None" and "\<forall>y. ran (thr s v) = Some y \<longrightarrow> want (thr s v) = Some y"
    by (auto simp: thr_ok_def)
  then have "ran (thr s v) = want (thr s v)" by (metis not_None_eq)
  with join_take_outcome [OF inv assms(3-6)] show ?thesis by simp
qed

text \<open>
  The result table: in every reachable state a slot is in use exactly when it belongs to one
  thread, either one that is between claiming it in \<open>pthread_create\<close> and the start of the new thread
  (or giving it back), or one that was started with it and whose join has not given it back; and it
  never belongs to two.
\<close>

lemma pthread_slots_exclusive:
  assumes "tids_last K" and "reachable pt_initial (pt_step K) s" and "i < PTHREAD_MAX"
  shows "p_in_use (pt_slots s ! i) \<noteq> 0 \<longleftrightarrow> (\<exists>!z. hold (thr s) z = Some i)"
proof -
  have inv: "pt_inv s" by (rule reachable_pt_inv [OF assms(1,2)])
  from owned_ex1 [OF pt_invD(2) [OF inv], of i] assms(3) pt_invD(1) [OF inv]
  show ?thesis by (simp add: pt_used_def)
qed

end
