(* ===== verification/Neo_Process.thy ===== *)
theory Neo_Process
  imports Neo_Pthread
begin

text \<open>
  A whole process: \<open>src/thread.c\<close> and the thread functions of \<open>src/pthread.c\<close> over one set of threads.
  \<open>Neo_Pthread\<close> takes \<open>thread_create\<close> as one step that starts \<open>pthread_trampoline\<close> with the slot it was
  given; here the step is the code of \<open>thread.c\<close>, with its own table, claimed, filled, handed to the
  kernel and copied by \<open>thread_trampoline\<close> access by access. Programs may call \<open>thread_create\<close>
  themselves as well, with any function but the static \<open>pthread_trampoline\<close>.

  The state has both parts: \<open>low\<close>, the table and the program counters of \<open>thread.c\<close>, and \<open>high\<close>, those of
  \<open>pthread.c\<close>. While a thread is inside \<open>pthread_create\<close>'s call of \<open>thread_create\<close>, its upper program counter
  stays at \<open>PSpawn\<close>; a new thread has \<open>PNone\<close> until its trampoline calls the function it was given.
\<close>

section \<open>The model\<close>

record 't proc =
  high :: "'t pt_state"
  low :: "'t thread_state"

text \<open>
  \<open>tr\<close> is the address of \<open>pthread_trampoline\<close>, \<open>B\<close> that of \<open>pt_slots\<close>, whose elements have 40 bytes. The
  trampoline is called with the address of a slot and works on the slot at that address.
\<close>

definition slot_addr :: "addr \<Rightarrow> nat \<Rightarrow> addr" where
  "slot_addr B i = B + of_nat (40 * i)"

definition slot_index :: "addr \<Rightarrow> addr \<Rightarrow> nat option" where
  "slot_index B raw = find (\<lambda>i. slot_addr B i = raw) [0..<PTHREAD_MAX]"

text \<open>A thread as it calls the function it was started with.\<close>

definition enters_fn :: "addr \<Rightarrow> addr \<Rightarrow> addr \<Rightarrow> addr \<Rightarrow> 't pthr \<Rightarrow> 't pthr" where
  "enters_fn tr B f a x =
     (if f = tr then x\<lparr>ppc := PTid, frame := slot_index B a\<rparr> else x\<lparr>ppc := PUser 0 None None\<rparr>)"

text \<open>\<open>pthread_create\<close> after \<open>thread_create\<close> returned \<open>rc\<close> and stored \<open>n\<close>.\<close>

fun create_return :: "i32 \<times> i32 option \<Rightarrow> ppc \<Rightarrow> ppc" where
  "create_return (rc, n) (PSpawn out st ar i) = (if rc \<noteq> 0 then PUndo i rc else PUser 0 (if out then n else None) None)"
| "create_return r pc = pc"

fun is_spawn :: "ppc \<Rightarrow> bool" where
  "is_spawn (PSpawn out st ar i) \<longleftrightarrow> True"
| "is_spawn pc \<longleftrightarrow> False"

fun is_user :: "ppc \<Rightarrow> bool" where
  "is_user (PUser rc x y) \<longleftrightarrow> True"
| "is_user pc \<longleftrightarrow> False"

text \<open>What the creator asked for, recorded for the new thread.\<close>

fun spawn_want :: "ppc \<Rightarrow> (addr \<times> addr) option \<Rightarrow> (addr \<times> addr) option" where
  "spawn_want (PSpawn out st ar i) w = Some (st, ar)"
| "spawn_want pc w = w"

text \<open>
  A step of \<open>pthread.c\<close> that neither enters nor leaves \<open>thread.c\<close>: it starts no thread and moves nobody to or
  from \<open>PSpawn\<close>, and the threads it changes are not inside \<open>thread.c\<close>.
\<close>

definition stays_above :: "'t thread_state \<Rightarrow> 't pt_state \<Rightarrow> 't pt_state \<Rightarrow> bool" where
  "stays_above l h h' \<longleftrightarrow> (\<forall>u. thr h' u \<noteq> thr h u \<longrightarrow>
     ppc (thr h u) \<noteq> PNone \<and> \<not> is_spawn (ppc (thr h u)) \<and> \<not> is_spawn (ppc (thr h' u)) \<and>
     ((\<exists>r. tpcs l u = TUser r) \<or> (\<exists>code. tpcs l u = TGone code)))"

definition newly_gone :: "'t pt_state \<Rightarrow> 't pt_state \<Rightarrow> 't \<Rightarrow> bool" where
  "newly_gone h h' u \<longleftrightarrow> ppc (thr h' u) = PGone \<and> ppc (thr h u) \<noteq> PGone"

inductive proc_step :: "(i32 set \<Rightarrow> i32 \<Rightarrow> bool) \<Rightarrow> addr \<Rightarrow> addr \<Rightarrow> 't proc \<Rightarrow> 't proc \<Rightarrow> bool"
  for K :: "i32 set \<Rightarrow> i32 \<Rightarrow> bool" and tr B :: addr where
  above: "pt_step K (high c) h' \<Longrightarrow> stays_above (low c) (high c) h' \<Longrightarrow> (\<And>u. \<not> newly_gone (high c) h' u) \<Longrightarrow>
     proc_step K tr B c (c\<lparr>high := h'\<rparr>)"
| exits: "pt_step K (high c) h' \<Longrightarrow> stays_above (low c) (high c) h' \<Longrightarrow> (\<And>u. newly_gone (high c) h' u \<longleftrightarrow> u = t) \<Longrightarrow>
     tpcs (low c) t = TUser r \<Longrightarrow> ppc (thr (high c) t) \<noteq> PTid \<Longrightarrow> is_user (ppc (thr (high c) t)) \<or> code = 0 \<Longrightarrow>
     proc_step K tr B c (c\<lparr>high := h', low := (low c)\<lparr>tpcs := (tpcs (low c))(t := thread_exit code)\<rparr>\<rparr>)"
| pthread_creates: "ppc (thr (high c) t) = PUser rc x y \<Longrightarrow> tpcs (low c) t = TUser r \<Longrightarrow>
     pthread_create out attr start ar (pt_slots (high c)) = (PSpawn out start ar i, sl') \<Longrightarrow>
     proc_step K tr B c
       (c\<lparr>high := (high c)\<lparr>pt_slots := sl', thr := (thr (high c))(t := (thr (high c) t)\<lparr>ppc := PSpawn out start ar i\<rparr>)\<rparr>,
          low := (low c)\<lparr>tpcs := (tpcs (low c))(t := thread_create tr (slot_addr B i) True)\<rparr>\<rparr>)"
| user_creates: "ppc (thr (high c) t) = PUser rc x y \<Longrightarrow> tpcs (low c) t = TUser r \<Longrightarrow> f \<noteq> tr \<Longrightarrow>
     proc_step K tr B c (c\<lparr>low := (low c)\<lparr>tpcs := (tpcs (low c))(t := thread_create f a out)\<rparr>\<rparr>)"
| table_access: "thread_atomic (tpcs (low c) t) (tslots (low c)) = Some (pc', sl') \<Longrightarrow>
     proc_step K tr B c (c\<lparr>low := (low c)\<lparr>tslots := sl', tpcs := (tpcs (low c))(t := pc')\<rparr>\<rparr>)"
| kernel_starts: "tpcs (low c) t = CSys f a out i \<Longrightarrow> tpcs (low c) u = TNone \<Longrightarrow> K (tids (high c)) n \<Longrightarrow> 0 \<le> sint n \<Longrightarrow>
     proc_step K tr B c
       (c\<lparr>high := (high c)\<lparr>thr := (thr (high c))(u := (thr (high c) u)\<lparr>ptid := n,
                              want := spawn_want (ppc (thr (high c) t)) (want (thr (high c) u))\<rparr>),
                           tids := insert n (tids (high c))\<rparr>,
          low := (low c)\<lparr>tpcs := (tpcs (low c))(t := TUser (0, if out then Some n else None), u := thread_trampoline i),
                        asked := (asked (low c))(u := Some (f, a))\<rparr>\<rparr>)"
| kernel_refuses: "tpcs (low c) t = CSys f a out i \<Longrightarrow> sint e < 0 \<Longrightarrow>
     proc_step K tr B c (c\<lparr>low := (low c)\<lparr>tpcs := (tpcs (low c))(t := CUndo i e)\<rparr>\<rparr>)"
| create_returns: "tpcs (low c) t = TUser r \<Longrightarrow> is_spawn (ppc (thr (high c) t)) \<Longrightarrow>
     proc_step K tr B c (c\<lparr>high := (high c)\<lparr>thr := (thr (high c))(t :=
        (thr (high c) t)\<lparr>ppc := create_return r (ppc (thr (high c) t))\<rparr>)\<rparr>\<rparr>)"
| calls_fn: "tpcs (low c) t = RTls f a \<Longrightarrow>
     proc_step K tr B c
       (c\<lparr>high := (high c)\<lparr>thr := (thr (high c))(t := enters_fn tr B f a (thr (high c) t))\<rparr>,
          low := (low c)\<lparr>tpcs := (tpcs (low c))(t := TUser (0, None)), called := (called (low c))(t := Some (f, a))\<rparr>\<rparr>)"
| no_tls: "tpcs (low c) t = RTls f a \<Longrightarrow>
     proc_step K tr B c
       (c\<lparr>high := (high c)\<lparr>thr := (thr (high c))(t := (enters_fn tr B f a (thr (high c) t))\<lparr>ppc := PGone\<rparr>)\<rparr>,
          low := (low c)\<lparr>tpcs := (tpcs (low c))(t := thread_exit 127)\<rparr>\<rparr>)"

definition proc_initial :: "'t proc \<Rightarrow> bool" where
  "proc_initial c \<longleftrightarrow> pt_initial (high c) \<and> thread_initial (low c) \<and>
     (\<forall>t. tpcs (low c) t = TNone \<longleftrightarrow> ppc (thr (high c) t) = PNone)"

section \<open>The process seen from \<open>pthread.c\<close>\<close>

text \<open>
  A thread on its way to its function counts as having got there, and a creator whose \<open>thread_create\<close> has
  returned counts as having taken note of it.
\<close>

fun on_its_way :: "tpc \<Rightarrow> bool" where
  "on_its_way (RFn i) \<longleftrightarrow> True"
| "on_its_way (RArg i f) \<longleftrightarrow> True"
| "on_its_way (RFree i f a) \<longleftrightarrow> True"
| "on_its_way (RTls f a) \<longleftrightarrow> True"
| "on_its_way pc \<longleftrightarrow> False"

fun seen_thr :: "addr \<Rightarrow> addr \<Rightarrow> tpc \<Rightarrow> (addr \<times> addr) option \<Rightarrow> 't pthr \<Rightarrow> 't pthr" where
  "seen_thr tr B (TUser r) q x = x\<lparr>ppc := create_return r (ppc x)\<rparr>"
| "seen_thr tr B pc q x =
     (if on_its_way pc then (case q of None \<Rightarrow> x | Some (f, a) \<Rightarrow> enters_fn tr B f a x) else x)"

definition seen_from :: "addr \<Rightarrow> addr \<Rightarrow> 't thread_state \<Rightarrow> 't pt_state \<Rightarrow> 't pt_state" where
  "seen_from tr B l h = h\<lparr>thr := \<lambda>t. seen_thr tr B (tpcs l t) (asked l t) (thr h t)\<rparr>"

definition proc_view :: "addr \<Rightarrow> addr \<Rightarrow> 't proc \<Rightarrow> 't pt_state" where
  "proc_view tr B c = seen_from tr B (low c) (high c)"

text \<open>How the two program counters of a thread go together.\<close>

definition creating :: "addr \<Rightarrow> addr \<Rightarrow> addr \<Rightarrow> addr \<Rightarrow> bool \<Rightarrow> ppc \<Rightarrow> bool" where
  "creating tr B f a out pc \<longleftrightarrow>
     (if f = tr then \<exists>o' st ar j. pc = PSpawn o' st ar j \<and> j < PTHREAD_MAX \<and> a = slot_addr B j \<and> out else is_user pc)"

fun together :: "addr \<Rightarrow> addr \<Rightarrow> tpc \<Rightarrow> ppc \<Rightarrow> bool" where
  "together tr B TNone pc \<longleftrightarrow> pc = PNone"
| "together tr B (TUser r) pc \<longleftrightarrow> pc \<noteq> PNone \<and> pc \<noteq> PGone \<and> pc \<noteq> PReaped"
| "together tr B (TGone code) pc \<longleftrightarrow> pc = PGone \<or> pc = PReaped"
| "together tr B (CScan f a out i) pc \<longleftrightarrow> creating tr B f a out pc"
| "together tr B (CFn f a out i) pc \<longleftrightarrow> creating tr B f a out pc"
| "together tr B (CArg f a out i) pc \<longleftrightarrow> creating tr B f a out pc"
| "together tr B (CSys f a out i) pc \<longleftrightarrow> creating tr B f a out pc"
| "together tr B (CUndo i e) pc \<longleftrightarrow> e \<noteq> 0 \<and> (is_spawn pc \<or> is_user pc)"
| "together tr B pc' pc \<longleftrightarrow> pc = PNone"

definition linked :: "addr \<Rightarrow> addr \<Rightarrow> 't thread_state \<Rightarrow> 't pt_state \<Rightarrow> bool" where
  "linked tr B l h \<longleftrightarrow> (\<forall>t. together tr B (tpcs l t) (ppc (thr h t)))"

lemma slot_index_addr:
  assumes "i < PTHREAD_MAX"
  shows "slot_index B (slot_addr B i) = Some i"
proof -
  have "j = i" if "slot_addr B j = slot_addr B i" "j < PTHREAD_MAX" for j
    using that assms of_nat_u64_inject [of "40 * j" "40 * i"] by (simp add: slot_addr_def)
  then have "slot_addr B j \<noteq> slot_addr B i" if "j < i" for j using that assms by fastforce
  with assms show ?thesis
    unfolding slot_index_def find_Some_iff by (intro exI [of _ i]) (auto simp del: upt_Suc)
qed

lemma create_return_id: "\<not> is_spawn pc \<Longrightarrow> create_return r pc = pc"
  by (cases r; cases pc) simp_all

lemma seen_id: "\<not> is_spawn (ppc x) \<Longrightarrow> \<not> on_its_way lp \<Longrightarrow> seen_thr tr B lp q x = x"
  by (cases lp) (simp_all add: create_return_id)

lemma linkedD: "linked tr B l h \<Longrightarrow> together tr B (tpcs l t) (ppc (thr h t))"
  by (simp add: linked_def)

lemma together_on_its_way: "together tr B lp pc \<Longrightarrow> pc \<noteq> PNone \<Longrightarrow> \<not> on_its_way lp"
  by (cases lp) auto

lemma seen_simps [simp]:
  "pt_slots (seen_from tr B l h) = pt_slots h" "tids (seen_from tr B l h) = tids h"
  "thr (seen_from tr B l h) t = seen_thr tr B (tpcs l t) (asked l t) (thr h t)"
  "seen_from tr B l (h\<lparr>pt_slots := sl\<rparr>) = (seen_from tr B l h)\<lparr>pt_slots := sl\<rparr>"
  by (simp_all add: seen_from_def)

lemma seen_upd:
  "seen_from tr B l (h\<lparr>tids := U\<rparr>) = (seen_from tr B l h)\<lparr>tids := U\<rparr>"
  "seen_from tr B l (h\<lparr>thr := (thr h)(t := x)\<rparr>) =
     (seen_from tr B l h)\<lparr>thr := (thr (seen_from tr B l h))(t := seen_thr tr B (tpcs l t) (asked l t) x)\<rparr>"
  "seen_from tr B l (h\<lparr>thr := (thr h)(t := x, u := y)\<rparr>) =
     (seen_from tr B l h)\<lparr>thr := (thr (seen_from tr B l h))(t := seen_thr tr B (tpcs l t) (asked l t) x,
        u := seen_thr tr B (tpcs l u) (asked l u) y)\<rparr>"
  "seen_from tr B l (h\<lparr>pt_slots := sl, thr := (thr h)(t := x)\<rparr>) =
     (seen_from tr B l h)\<lparr>pt_slots := sl, thr := (thr (seen_from tr B l h))(t := seen_thr tr B (tpcs l t) (asked l t) x)\<rparr>"
  "seen_from tr B l (h\<lparr>pt_slots := sl, thr := (thr h)(t := x, u := y)\<rparr>) =
     (seen_from tr B l h)\<lparr>pt_slots := sl, thr := (thr (seen_from tr B l h))(t := seen_thr tr B (tpcs l t) (asked l t) x,
        u := seen_thr tr B (tpcs l u) (asked l u) y)\<rparr>"
  by (auto simp: seen_from_def fun_eq_iff)

lemma seen_given_back: "seen_thr tr B lp q (x\<lparr>given_back := g\<rparr>) = (seen_thr tr B lp q x)\<lparr>given_back := g\<rparr>"
  by (cases lp) (auto simp: enters_fn_def split: option.splits)

text \<open>Steps above are steps of the view.\<close>

lemma seen_active:
  assumes "linked tr B l h" and "ppc (thr h t) \<noteq> PNone"
  shows "\<not> is_spawn (ppc x) \<Longrightarrow> seen_thr tr B (tpcs l t) q x = x"
  using seen_id [OF _ together_on_its_way [OF linkedD [OF assms(1)] assms(2)]] .

lemma view_above:
  assumes link: "linked tr B l h" and step: "pt_step K h h'" and stay: "stays_above l h h'"
  shows "pt_step K (seen_from tr B l h) (seen_from tr B l h')"
proof -
  note act = seen_active [OF link]
  have changed: "ppc (thr h u) \<noteq> PNone \<and> \<not> is_spawn (ppc (thr h u)) \<and> \<not> is_spawn (ppc (thr h' u))"
    if "ppc (thr h' u) \<noteq> ppc (thr h u)" for u
    using stay that unfolding stays_above_def by metis
  from step show ?thesis
  proof cases
    case (creates t rc x y out attr start ar pc' sl')
    have "\<not> is_spawn pc'" using changed [of t] creates by (cases pc') auto
    with creates pt_step.creates [of "seen_from tr B l h" t rc x y out attr start ar pc' sl' K]
    show ?thesis by (simp add: seen_upd act)
  next
    case (spawns t out st ar i u n)
    then show ?thesis using changed [of u] by auto
  next
    case (raw_spawns t rc x y u n)
    then show ?thesis using changed [of u] by auto
  next
    case (spawn_fails t out st ar i rc)
    then show ?thesis using changed [of t] by auto
  next
    case (undoes t i rc)
    with pt_step.undoes [of "seen_from tr B l h" t i rc K] show ?thesis by (simp add: seen_upd act)
  next
    case (dies_early t)
    with pt_step.dies_early [of "seen_from tr B l h" t K] show ?thesis by (simp add: seen_upd act)
  next
    case (stores t i pc' sl')
    have "ppc (thr h t) \<noteq> PNone" "\<not> is_spawn (ppc (thr h t))" "\<not> is_spawn pc'" using stores by (cases "ppc (thr h t)"; auto)+
    with stores pt_step.stores [of "seen_from tr B l h" t i pc' sl' K] show ?thesis by (simp add: seen_upd act)
  next
    case (starts_routine t i)
    with pt_step.starts_routine [of "seen_from tr B l h" t i K] show ?thesis by (simp add: seen_upd act)
  next
    case (routine_returns t rc x y i r)
    with pt_step.routine_returns [of "seen_from tr B l h" t rc x y i K r] show ?thesis by (simp add: seen_upd act)
  next
    case (calls_exit t rc x y r)
    with pt_step.calls_exit [of "seen_from tr B l h" t rc x y K r] show ?thesis
      by (simp add: seen_upd act pthread_exit_def)
  next
    case (exit_stores t r)
    with pt_step.exit_stores [of "seen_from tr B l h" t r K] show ?thesis by (simp add: seen_upd act)
  next
    case (exits_plainly t rc x y)
    with pt_step.exits_plainly [of "seen_from tr B l h" t rc x y K] show ?thesis by (simp add: seen_upd act)
  next
    case (calls_join t rc x y n out)
    with pt_step.calls_join [of "seen_from tr B l h" t rc x y K n out] show ?thesis
      by (simp add: seen_upd act pthread_join_def)
  next
    case (join_fails t n out rc)
    with pt_step.join_fails [of "seen_from tr B l h" t n out rc K] show ?thesis by (simp add: seen_upd act)
  next
    case (reaps t n out v)
    with pt_step.reaps [of "seen_from tr B l h" t n out v K] show ?thesis by (simp add: seen_upd act)
  next
    case (takes t n out v pc' sl')
    have "\<not> is_spawn pc'" using takes by (auto simp: pthread_join_take_def split: option.splits)
    with takes pt_step.takes [of "seen_from tr B l h" t n out v pc' sl' K] show ?thesis
      by (simp add: seen_upd act seen_given_back)
  next
    case (raw_joins t rc x y v)
    with pt_step.raw_joins [of "seen_from tr B l h" t rc x y v K] show ?thesis by (simp add: seen_upd act)
  qed
qed

section \<open>The process refines both parts\<close>

lemma low_step:
  assumes "proc_step K tr B c c'"
  shows "low c' = low c \<or> thread_step (low c) (low c')"
  using assms
proof cases
  case (exits h' t r code)
  then show ?thesis by (simp add: thread_step.calls_exit)
next
  case (pthread_creates t rc x y r out attr start ar i sl')
  then show ?thesis by (simp add: thread_step.calls_create)
next
  case (user_creates t rc x y r f a out)
  then show ?thesis by (simp add: thread_step.calls_create)
next
  case (table_access t pc' sl')
  then show ?thesis by (simp add: thread_step.accesses)
next
  case (kernel_starts t f a out i u n)
  then show ?thesis by (simp add: thread_step.starts)
next
  case (kernel_refuses t f a out i e)
  then show ?thesis by (simp add: thread_step.refused)
next
  case (calls_fn t f a)
  then show ?thesis by (simp add: thread_step.tls_ready)
next
  case (no_tls t f a)
  then show ?thesis by (simp add: thread_step.tls_fails)
qed simp_all

lemma pt_step_moves:
  assumes "pt_step K h h'" and "ppc (thr h' u) \<noteq> ppc (thr h u)"
  shows "ppc (thr h' u) \<noteq> PNone" and "ppc (thr h u) \<noteq> PReaped" and "ppc (thr h' u) = PReaped \<longleftrightarrow> ppc (thr h u) = PGone"
proof -
  have "ppc (thr h' u) \<noteq> PNone \<and> ppc (thr h u) \<noteq> PReaped \<and> (ppc (thr h' u) = PReaped \<longleftrightarrow> ppc (thr h u) = PGone)"
    using assms
  proof cases
    case (stores t i pc' sl')
    with assms(2) show ?thesis by (cases "ppc (thr h t)") (auto split: if_splits)
  qed (auto simp: pthread_create_def pthread_join_take_def pthread_exit_def pthread_join_def
      split: if_splits option.splits prod.splits)
  then show "ppc (thr h' u) \<noteq> PNone" "ppc (thr h u) \<noteq> PReaped" "ppc (thr h' u) = PReaped \<longleftrightarrow> ppc (thr h u) = PGone" by blast+
qed

lemma linked_above:
  assumes link: "linked tr B l h" and step: "pt_step K h h'" and stay: "stays_above l h h'"
    and same: "\<not> newly_gone h h' u"
  shows "together tr B (tpcs l u) (ppc (thr h' u))"
proof (cases "ppc (thr h' u) = ppc (thr h u)")
  case True
  with linkedD [OF link] show ?thesis by simp
next
  case False
  note m = pt_step_moves [OF step False]
  have "thr h' u \<noteq> thr h u" using False by auto
  with stay have "(\<exists>r. tpcs l u = TUser r) \<or> (\<exists>code. tpcs l u = TGone code)" unfolding stays_above_def by blast
  then show ?thesis
  proof (elim disjE exE)
    fix r assume "tpcs l u = TUser r"
    with linkedD [OF link, of u] m same False show ?thesis by (auto simp: newly_gone_def)
  next
    fix code assume "tpcs l u = TGone code"
    with linkedD [OF link, of u] m show ?thesis by auto
  qed
qed

lemma linked_upd:
  assumes "linked tr B l h"
    and "\<And>u. u \<noteq> t \<Longrightarrow> tpcs l' u = tpcs l u \<and> ppc (thr h' u) = ppc (thr h u)"
    and "together tr B (tpcs l' t) (ppc (thr h' t))"
  shows "linked tr B l' h'"
  using assms unfolding linked_def by metis

lemma together_access:
  assumes "thread_atomic lp sl = Some (lp', sl')" and "together tr B lp pc"
  shows "together tr B lp' pc"
  using assms by (cases lp) (auto simp: creating_def split: if_splits)

lemma claimed_lt: "pthread_create out attr st ar sl = (PSpawn out' st' ar' i, sl') \<Longrightarrow> i < PTHREAD_MAX"
  by (auto simp: pthread_create_def pt_claim_def find_Some_iff split: if_splits option.splits)

lemma linked_step:
  assumes link: "linked tr B (low c) (high c)" and step: "proc_step K tr B c c'"
  shows "linked tr B (low c') (high c')"
  using step
proof cases
  case (above h')
  with linked_above [OF link] show ?thesis by (simp add: linked_def)
next
  case (exits h' t r code)
  have "together tr B (tpcs (low c) u) (ppc (thr h' u))" if "u \<noteq> t" for u
    using linked_above [OF link exits(2,3), of u] exits(4) that by blast
  moreover have "ppc (thr h' t) = PGone" using exits(4) by (auto simp: newly_gone_def)
  ultimately show ?thesis using exits(1) by (simp add: linked_def thread_exit_def)
next
  case (pthread_creates t rc x y r out attr start ar i sl')
  with claimed_lt [of out attr start ar "pt_slots (high c)" out start ar i sl'] show ?thesis
    by (intro linked_upd [OF link, of t]) (auto simp: thread_create_def creating_def)
next
  case (user_creates t rc x y r f a out)
  then show ?thesis by (intro linked_upd [OF link, of t]) (auto simp: thread_create_def creating_def)
next
  case (table_access t pc' sl')
  with together_access [OF table_access(2) linkedD [OF link]] show ?thesis
    by (intro linked_upd [OF link, of t]) auto
next
  case (kernel_starts t f a out i u n)
  have tu: "t \<noteq> u" using kernel_starts by auto
  have t: "creating tr B f a out (ppc (thr (high c) t))" using linkedD [OF link, of t] kernel_starts(2) by simp
  have u: "ppc (thr (high c) u) = PNone" using linkedD [OF link, of u] kernel_starts(3) by simp
  have link': "linked tr B ((low c)\<lparr>tpcs := (tpcs (low c))(t := TUser (0, if out then Some n else None))\<rparr>) (high c)"
    using t by (intro linked_upd [OF link, of t]) (auto simp: creating_def split: if_splits)
  then show ?thesis using u tu kernel_starts(1)
    by (intro linked_upd [OF link', of u]) (auto simp: thread_trampoline_def)
next
  case (kernel_refuses t f a out i e)
  have "creating tr B f a out (ppc (thr (high c) t))" using linkedD [OF link, of t] kernel_refuses(2) by simp
  then have "is_spawn (ppc (thr (high c) t)) \<or> is_user (ppc (thr (high c) t))" by (auto simp: creating_def split: if_splits)
  with kernel_refuses show ?thesis by (intro linked_upd [OF link, of t]) auto
next
  case (create_returns t r)
  then show ?thesis by (intro linked_upd [OF link, of t]) (cases r; cases "ppc (thr (high c) t)"; auto)+
next
  case (calls_fn t f a)
  then show ?thesis by (intro linked_upd [OF link, of t]) (auto simp: enters_fn_def)
next
  case (no_tls t f a)
  then show ?thesis by (intro linked_upd [OF link, of t]) (auto simp: thread_exit_def)
qed

lemma seen_eqI:
  assumes "pt_slots h' = pt_slots h" and "tids h' = tids h"
    and "\<And>u. seen_thr tr B (tpcs l' u) (asked l' u) (thr h' u) = seen_thr tr B (tpcs l u) (asked l u) (thr h u)"
  shows "seen_from tr B l' h' = seen_from tr B l h"
  using assms by (simp add: seen_from_def)

lemma view_access:
  assumes link: "linked tr B l h"
    and at: "thread_atomic (tpcs l t) (tslots l) = Some (pc', sl')"
  shows "seen_from tr B (l\<lparr>tslots := sl', tpcs := (tpcs l)(t := pc')\<rparr>) h = seen_from tr B l h \<or>
    pt_step K (seen_from tr B l h) (seen_from tr B (l\<lparr>tslots := sl', tpcs := (tpcs l)(t := pc')\<rparr>) h)"
proof (cases "\<exists>r. pc' = TUser r \<and> is_spawn (ppc (thr h t))")
  case True
  then obtain rc n out st ar i where r: "pc' = TUser (rc, n)" "ppc (thr h t) = PSpawn out st ar i"
    by (cases "ppc (thr h t)") auto
  have rc: "rc \<noteq> 0" using at r(1) linkedD [OF link, of t] by (cases "tpcs l t") (auto split: if_splits)
  have low: "seen_thr tr B (tpcs l t) q (thr h t) = thr h t" for q
    using at r(1) by (cases "tpcs l t") (auto split: if_splits)
  have "seen_from tr B (l\<lparr>tslots := sl', tpcs := (tpcs l)(t := pc')\<rparr>) h =
      (seen_from tr B l h)\<lparr>thr := (thr (seen_from tr B l h))(t := (thr (seen_from tr B l h) t)\<lparr>ppc := PUndo i rc\<rparr>)\<rparr>"
    using r rc low by (auto simp: seen_from_def fun_eq_iff)
  moreover have "ppc (thr (seen_from tr B l h) t) = PSpawn out st ar i" using low r(2) by simp
  ultimately show ?thesis using pt_step.spawn_fails [OF _ rc, of "seen_from tr B l h" t out st ar i K] by simp
next
  case False
  have "seen_thr tr B pc' (asked l t) (thr h t) = seen_thr tr B (tpcs l t) (asked l t) (thr h t)"
    using at False by (cases "tpcs l t") (auto simp: create_return_id split: if_splits)
  then have "seen_from tr B (l\<lparr>tslots := sl', tpcs := (tpcs l)(t := pc')\<rparr>) h = seen_from tr B l h"
    by (intro seen_eqI) auto
  then show ?thesis ..
qed

lemma view_starts:
  assumes link: "linked tr B l h" and t: "tpcs l t = CSys f a out i" and u: "tpcs l u = TNone" and n: "K (tids h) n"
  shows "pt_step K (seen_from tr B l h)
    (seen_from tr B (l\<lparr>tpcs := (tpcs l)(t := TUser (0, if out then Some n else None), u := thread_trampoline i),
                     asked := (asked l)(u := Some (f, a))\<rparr>)
       (h\<lparr>thr := (thr h)(u := (thr h u)\<lparr>ptid := n, want := spawn_want (ppc (thr h t)) (want (thr h u))\<rparr>),
          tids := insert n (tids h)\<rparr>))" (is "pt_step K ?v (seen_from tr B ?l ?h)")
proof -
  have tu: "t \<noteq> u" using t u by auto
  have up: "ppc (thr h u) = PNone" using linkedD [OF link, of u] u by simp
  have cr: "creating tr B f a out (ppc (thr h t))" using linkedD [OF link, of t] t by simp
  have v: "thr ?v t = thr h t" "thr ?v u = thr h u" using t u by simp_all
  show ?thesis
  proof (cases "f = tr")
    case True
    with cr obtain o' st ar j where p: "ppc (thr h t) = PSpawn o' st ar j" "j < PTHREAD_MAX" "a = slot_addr B j" "out"
      by (auto simp: creating_def)
    have "seen_from tr B ?l ?h = ?v\<lparr>thr := (thr ?v)(t := (thr ?v t)\<lparr>ppc := PUser 0 (if o' then Some n else None) None\<rparr>,
        u := (thr ?v u)\<lparr>ppc := PTid, ptid := n, frame := Some j, want := Some (st, ar)\<rparr>), tids := insert n (tids ?v)\<rparr>"
      using tu v p True slot_index_addr [OF p(2), of B]
      by (auto simp: seen_from_def fun_eq_iff thread_trampoline_def enters_fn_def)
    with pt_step.spawns [of ?v t o' st ar j u K n] p(1) up n v show ?thesis by simp
  next
    case False
    with cr obtain rc x y where p: "ppc (thr h t) = PUser rc x y" by (cases "ppc (thr h t)") (auto simp: creating_def)
    have "seen_from tr B ?l ?h = ?v\<lparr>thr := (thr ?v)(u := (thr ?v u)\<lparr>ppc := PUser 0 None None, ptid := n\<rparr>),
        tids := insert n (tids ?v)\<rparr>"
      using tu v p False t by (auto simp: seen_from_def fun_eq_iff thread_trampoline_def enters_fn_def)
    with pt_step.raw_spawns [of ?v t rc x y u K n] p up n v show ?thesis by simp
  qed
qed

lemma asked_RTls: "thread_inv l \<Longrightarrow> tpcs l t = RTls f a \<Longrightarrow> asked l t = Some (f, a)"
  unfolding thread_inv_def by (metis slot_fits.simps(6))

lemma seen_RTls:
  assumes "thread_inv l" and "tpcs l t = RTls f a"
  shows "thr (seen_from tr B l h) t = enters_fn tr B f a (thr h t)"
  using asked_RTls [OF assms] assms(2) by simp

lemma view_no_tls:
  assumes inv: "thread_inv l" and t: "tpcs l t = RTls f a"
  shows "pt_step K (seen_from tr B l h)
    (seen_from tr B (l\<lparr>tpcs := (tpcs l)(t := thread_exit 127)\<rparr>)
       (h\<lparr>thr := (thr h)(t := (enters_fn tr B f a (thr h t))\<lparr>ppc := PGone\<rparr>)\<rparr>))" (is "pt_step K ?v ?w")
proof -
  note v = seen_RTls [OF inv t, of tr B h]
  have w: "?w = ?v\<lparr>thr := (thr ?v)(t := (thr ?v t)\<lparr>ppc := PGone\<rparr>)\<rparr>"
    unfolding v by (auto simp: seen_from_def fun_eq_iff thread_exit_def)
  show ?thesis
  proof (cases "f = tr")
    case True
    then have "ppc (thr ?v t) = PTid" unfolding v by (simp add: enters_fn_def)
    from pt_step.dies_early [OF this] show ?thesis unfolding w .
  next
    case False
    then have "ppc (thr ?v t) = PUser 0 None None" unfolding v by (simp add: enters_fn_def)
    from pt_step.exits_plainly [OF this] show ?thesis unfolding w .
  qed
qed

lemma view_step:
  assumes link: "linked tr B (low c) (high c)" and inv: "thread_inv (low c)" and step: "proc_step K tr B c c'"
  shows "proc_view tr B c' = proc_view tr B c \<or> pt_step K (proc_view tr B c) (proc_view tr B c')"
  using step
proof cases
  case (above h')
  with view_above [OF link above(2,3)] show ?thesis by (simp add: proc_view_def)
next
  case (exits h' t r code)
  have "ppc (thr h' t) = PGone" using exits(4) by (auto simp: newly_gone_def)
  then have "seen_from tr B ((low c)\<lparr>tpcs := (tpcs (low c))(t := thread_exit code)\<rparr>) h' = seen_from tr B (low c) h'"
    using exits(5) by (intro seen_eqI) (auto simp: thread_exit_def create_return_id)
  with view_above [OF link exits(2,3)] exits(1) show ?thesis by (simp add: proc_view_def)
next
  case (pthread_creates t rc x y r out attr start ar i sl')
  have v: "thr (proc_view tr B c) t = thr (high c) t" using pthread_creates(2,3) by (simp add: proc_view_def create_return_id)
  have "proc_view tr B c' = (proc_view tr B c)\<lparr>pt_slots := sl', thr := (thr (proc_view tr B c))(t :=
      (thr (proc_view tr B c) t)\<lparr>ppc := PSpawn out start ar i\<rparr>)\<rparr>"
    unfolding v using pthread_creates(1) by (auto simp: proc_view_def seen_from_def fun_eq_iff thread_create_def)
  moreover have "ppc (thr (proc_view tr B c) t) = PUser rc x y" "pt_slots (proc_view tr B c) = pt_slots (high c)"
    using v pthread_creates(2) by (simp_all add: proc_view_def)
  ultimately show ?thesis using pt_step.creates [of "proc_view tr B c" t] pthread_creates(4) by simp
next
  case (user_creates t rc x y r f a out)
  then have "proc_view tr B c' = proc_view tr B c"
    unfolding proc_view_def by (intro seen_eqI) (auto simp: thread_create_def create_return_id)
  then show ?thesis ..
next
  case (table_access t pc' sl')
  with view_access [OF link table_access(2)] show ?thesis by (simp add: proc_view_def)
next
  case (kernel_starts t f a out i u n)
  with view_starts [where tr = tr and B = B and K = K, OF link kernel_starts(2-4)] show ?thesis by (simp add: proc_view_def)
next
  case (kernel_refuses t f a out i e)
  then have "proc_view tr B c' = proc_view tr B c"
    unfolding proc_view_def by (intro seen_eqI) auto
  then show ?thesis ..
next
  case (create_returns t r)
  have "create_return r (create_return r pc) = create_return r pc" for pc
    by (cases r; cases pc) simp_all
  with create_returns have "proc_view tr B c' = proc_view tr B c"
    unfolding proc_view_def by (intro seen_eqI) auto
  then show ?thesis ..
next
  case (calls_fn t f a)
  have "\<not> is_spawn (ppc (enters_fn tr B f a x))" for x :: "'a pthr" by (simp add: enters_fn_def)
  with calls_fn seen_RTls [OF inv calls_fn(2)] have "proc_view tr B c' = proc_view tr B c"
    unfolding proc_view_def by (intro seen_eqI) (auto simp: create_return_id)
  then show ?thesis ..
next
  case (no_tls t f a)
  with view_no_tls [OF inv no_tls(2)] show ?thesis by (simp add: proc_view_def)
qed

interpretation process: invariant_system proc_initial "proc_step K tr B"
    "\<lambda>c. linked tr B (low c) (high c) \<and> reachable thread_initial thread_step (low c) \<and>
      reachable pt_initial (pt_step K) (proc_view tr B c)" for K tr B
proof
  fix c :: "'a proc"
  assume c: "proc_initial c"
  then have l: "tpcs (low c) t = TNone \<and> ppc (thr (high c) t) = PNone \<or>
      (\<exists>r. tpcs (low c) t = TUser r) \<and> (\<exists>rc. ppc (thr (high c) t) = PUser rc None None)" for t
    unfolding proc_initial_def thread_initial_def pt_initial_def by metis
  have "together tr B (tpcs (low c) t) (ppc (thr (high c) t)) \<and>
      seen_thr tr B (tpcs (low c) t) (asked (low c) t) (thr (high c) t) = thr (high c) t" for t
    using l [of t] by (auto simp: create_return_id)
  then have "linked tr B (low c) (high c)" "proc_view tr B c = high c"
    by (simp_all add: linked_def proc_view_def seen_from_def)
  with c show "linked tr B (low c) (high c) \<and> reachable thread_initial thread_step (low c) \<and>
      reachable pt_initial (pt_step K) (proc_view tr B c)"
    by (simp add: proc_initial_def reach_init)
next
  fix c c' :: "'a proc"
  assume r: "linked tr B (low c) (high c) \<and> reachable thread_initial thread_step (low c) \<and>
      reachable pt_initial (pt_step K) (proc_view tr B c)" and step: "proc_step K tr B c c'"
  then have inv: "thread_inv (low c)" using thread_table.reachable_inv by blast
  from r step linked_step low_step [of K tr B c c'] view_step [OF _ inv, of tr B K c'] show
    "linked tr B (low c') (high c') \<and> reachable thread_initial thread_step (low c') \<and>
      reachable pt_initial (pt_step K) (proc_view tr B c')"
    by (metis reach_step)
qed

lemma reachable_process:
  assumes "reachable proc_initial (proc_step K tr B) c"
  shows "linked tr B (low c) (high c)" and "reachable thread_initial thread_step (low c)"
    and "reachable pt_initial (pt_step K) (proc_view tr B c)"
  using process.reachable_inv [OF assms] by blast+

text \<open>A thread that has been joined looks the same from both sides.\<close>

lemma seen_reaped: "ppc (seen_thr tr B lp q x) = PReaped \<Longrightarrow> seen_thr tr B lp q x = x"
  by (cases lp; cases "ppc x") (auto simp: enters_fn_def split: if_splits option.splits)

section \<open>A concrete run\<close>

text \<open>
  The main thread creates a thread with \<open>pthread_create\<close> whose routine returns 7, and joins it;
  \<open>pthread_trampoline\<close> is at \<open>0x500\<close> and the table of results at \<open>0x1000\<close>.
\<close>

definition proc_run :: "bool pt_state \<Rightarrow> thread_start \<Rightarrow> tpc \<Rightarrow> tpc \<Rightarrow> (addr \<times> addr) option \<Rightarrow> (addr \<times> addr) option \<Rightarrow> bool proc" where
  "proc_run h x m n c q = \<lparr>high = h, low = run_state x m n c q\<rparr>"

lemma proc_run_simps:
  "high (proc_run h x m n c q) = h" "low (proc_run h x m n c q) = run_state x m n c q"
  "(proc_run h x m n c q)\<lparr>high := h'\<rparr> = proc_run h' x m n c q"
  "(proc_run h x m n c q)\<lparr>high := h', low := run_state x' m' n' c' q'\<rparr> = proc_run h' x' m' n' c' q'"
  "(proc_run h x m n c q)\<lparr>low := run_state x' m' n' c' q'\<rparr> = proc_run h x' m' n' c' q'"
  by (simp_all add: proc_run_def)

lemma run_state_simps:
  "tslots (run_state x m n c q) = x # replicate 1023 empty_start"
  "tpcs (run_state x m n c q) False = m" "tpcs (run_state x m n c q) True = n"
  "(run_state x m n c q)\<lparr>tpcs := (tpcs (run_state x m n c q))(False := m')\<rparr> = run_state x m' n c q"
  "(run_state x m n c q)\<lparr>tpcs := (tpcs (run_state x m n c q))(True := n')\<rparr> = run_state x m n' c q"
  "(run_state x m n c q)\<lparr>tslots := x' # replicate 1023 empty_start,
     tpcs := (tpcs (run_state x m n c q))(False := m')\<rparr> = run_state x' m' n c q"
  "(run_state x m n c q)\<lparr>tslots := x' # replicate 1023 empty_start,
     tpcs := (tpcs (run_state x m n c q))(True := n')\<rparr> = run_state x' m n' c q"
  "(run_state x m n c q)\<lparr>tpcs := (tpcs (run_state x m n c q))(False := m', True := n'),
     asked := (asked (run_state x m n c q))(True := q')\<rparr> = run_state x m' n' c q'"
  "(run_state x m n c q)\<lparr>tpcs := (tpcs (run_state x m n c q))(True := n'),
     called := (called (run_state x m n c q))(True := c')\<rparr> = run_state x m n' c' q"
  "(run_state x m n' c q)\<lparr>called := (called (run_state x m n c q))(True := c')\<rparr> = run_state x m n' c' q"
  by (auto simp: run_state_def fun_eq_iff)

lemma run_pt_upd:
  "pt_slots (run_pt x m n U) = x # replicate 15 empty_pslot" "tids (run_pt x m n U) = U"
  "thr (run_pt x m n U) False = m" "thr (run_pt x m n U) True = n"
  "(run_pt x m n U)\<lparr>pt_slots := x' # replicate 15 empty_pslot, thr := (thr (run_pt x m n U))(False := m')\<rparr> = run_pt x' m' n U"
  "(run_pt x m n U)\<lparr>pt_slots := x' # replicate 15 empty_pslot, thr := (thr (run_pt x m n U))(True := n')\<rparr> = run_pt x' m n' U"
  "(run_pt x m n U)\<lparr>thr := (thr (run_pt x m n U))(False := m')\<rparr> = run_pt x m' n U"
  "(run_pt x m n U)\<lparr>thr := (thr (run_pt x m n U))(True := n')\<rparr> = run_pt x m n' U"
  "(run_pt x m n U)\<lparr>tids := U'\<rparr> = run_pt x m n U'"
  "(run_pt x m n U)\<lparr>thr := (thr (run_pt x m n U))(False := m', True := n')\<rparr> = run_pt x m' n' U"
  by (auto simp: run_pt_def fun_eq_iff)

lemmas run_simps = proc_run_simps run_state_simps run_pt_upd

abbreviation run_reaches :: "bool proc \<Rightarrow> bool" where
  "run_reaches \<equiv> reachable proc_initial (proc_step counting_tids 0x500 0x1000)"

abbreviation run_step :: "bool proc \<Rightarrow> bool proc \<Rightarrow> bool" where
  "run_step \<equiv> proc_step counting_tids 0x500 0x1000"

lemma run_go: "run_reaches c \<Longrightarrow> run_step c c' \<Longrightarrow> run_reaches c'"
  by (rule reach_step)

lemma proc_low:
  "thread_atomic m (x # replicate 1023 empty_start) = Some (m', x' # replicate 1023 empty_start) \<Longrightarrow>
     run_reaches (proc_run h x m n c q) \<Longrightarrow> run_reaches (proc_run h x' m' n c q)"
  "thread_atomic n (x # replicate 1023 empty_start) = Some (n', x' # replicate 1023 empty_start) \<Longrightarrow>
     run_reaches (proc_run h x m n c q) \<Longrightarrow> run_reaches (proc_run h x' m n' c q)"
  using proc_step.table_access [of "proc_run h x m n c q" False] proc_step.table_access [of "proc_run h x m n c q" True]
  by (simp_all add: run_simps) (meson reach_step)+

lemma proc_above:
  assumes "run_reaches (proc_run h x m n c q)" and "pt_step counting_tids h h'" and "stays_above (run_state x m n c q) h h'"
    and "\<And>u. \<not> newly_gone h h' u"
  shows "run_reaches (proc_run h' x m n c q)"
  using reach_step [OF assms(1)] proc_step.above [of counting_tids "proc_run h x m n c q" h'] assms(2-4)
  by (simp add: run_simps)

abbreviation run_start :: thread_start where
  "run_start \<equiv> \<lparr>in_use = 1, fn = 0x500, arg = 0x1000\<rparr>"

lemma proc_run_initial:
  "run_reaches (proc_run (run_pt empty_pslot (main_thr (PUser 0 None None) None) unborn_thr {1}) empty_start (TUser (0, None)) TNone None None)"
proof (rule reach_init)
  have "pt_initial (run_pt empty_pslot (main_thr (PUser 0 None None) None) unborn_thr {1})"
    by (auto simp: pt_initial_def run_pt_simps split: if_splits)
  moreover have "thread_initial (run_state empty_start (TUser (0, None)) TNone None None)"
    by (simp add: thread_initial_def run_state_def)
  ultimately show "proc_initial (proc_run (run_pt empty_pslot (main_thr (PUser 0 None None) None) unborn_thr {1})
      empty_start (TUser (0, None)) TNone None None)"
    by (simp add: proc_initial_def proc_run_def) (simp add: run_state_def run_pt_def main_thr_def unborn_thr_def)
qed

lemma run_create: "pthread_create True 0 0x400 5 (empty_pslot # replicate 15 empty_pslot) =
    (PSpawn True 0x400 5 0, run_slot 0 0 0 # replicate 15 empty_pslot)"
  by (simp add: pthread_create_def pt_claim_def run_slot_def upt_rec)

lemma main_thr_upd: "ppc (main_thr pc j) = pc" "(main_thr pc j)\<lparr>ppc := pc'\<rparr> = main_thr pc' j"
  by (simp_all add: main_thr_def)

lemma proc_run_creating:
  "run_reaches (proc_run (run_pt (run_slot 0 0 0) (main_thr (PSpawn True 0x400 5 0) None) unborn_thr {1})
     empty_start (CScan 0x500 0x1000 True 0) TNone None None)"
proof (rule reach_step [OF proc_run_initial])
  let ?c = "proc_run (run_pt empty_pslot (main_thr (PUser 0 None None) None) unborn_thr {1}) empty_start (TUser (0, None)) TNone None None"
  from run_create proc_step.pthread_creates [of ?c False 0 None None "(0, None)" True 0 "0x400" 5 0
      "run_slot 0 0 0 # replicate 15 empty_pslot" counting_tids "0x500" "0x1000"]
  show "run_step ?c (proc_run (run_pt (run_slot 0 0 0) (main_thr (PSpawn True 0x400 5 0) None) unborn_thr {1})
     empty_start (CScan 0x500 0x1000 True 0) TNone None None)"
    unfolding run_simps main_thr_upd slot_addr_def thread_create_def by simp
qed

abbreviation arriving :: "bool pthr" where
  "arriving \<equiv> unborn_thr\<lparr>ptid := 2, want := Some (0x400, 5)\<rparr>"

lemma proc_run_started:
  "run_reaches (proc_run (run_pt (run_slot 0 0 0) (main_thr (PSpawn True 0x400 5 0) None) arriving {1, 2})
     run_start (TUser (0, Some 2)) (RFn 0) None (Some (0x500, 0x1000)))"
proof -
  let ?h = "run_pt (run_slot 0 0 0) (main_thr (PSpawn True 0x400 5 0) None) unborn_thr {1}"
  let ?R = "\<lambda>y m. run_reaches (proc_run ?h y m TNone None None)"
  have "?R (empty_start\<lparr>in_use := 1\<rparr>) (CFn 0x500 0x1000 True 0)"
    using proc_run_creating by (rule proc_low(1) [rotated]) simp
  then have "?R \<lparr>in_use = 1, fn = 0x500, arg = 0\<rparr> (CArg 0x500 0x1000 True 0)" by (rule proc_low(1) [rotated]) simp
  then have r: "?R run_start (CSys 0x500 0x1000 True 0)" by (rule proc_low(1) [rotated]) simp
  have "run_step (proc_run ?h run_start (CSys 0x500 0x1000 True 0) TNone None None)
    (proc_run (run_pt (run_slot 0 0 0) (main_thr (PSpawn True 0x400 5 0) None) arriving (insert 2 {1}))
       run_start (TUser (0, Some 2)) (RFn 0) None (Some (0x500, 0x1000)))"
    using proc_step.kernel_starts [of "proc_run ?h run_start (CSys 0x500 0x1000 True 0) TNone None None" False "0x500"
      "0x1000" True 0 True counting_tids 2 "0x500" "0x1000"]
    unfolding run_simps main_thr_upd thread_trampoline_def by (simp add: counting_tids_def)
  from run_go [OF r this] show ?thesis by (simp add: insert_commute)
qed

text \<open>\<open>pthread_create\<close> returns, and the new thread gets to \<open>pthread_trampoline\<close> with its slot.\<close>

lemma proc_run_entered:
  "run_reaches (proc_run (run_pt (run_slot 0 0 0) (main_thr (PUser 0 (Some 2) None) None) (new_thr PTid None None False) {1, 2})
     (run_start\<lparr>in_use := 0\<rparr>) (TUser (0, Some 2)) (TUser (0, None)) (Some (0x500, 0x1000)) (Some (0x500, 0x1000)))"
proof -
  let ?h = "\<lambda>pc n. run_pt (run_slot 0 0 0) (main_thr pc None) n {1, 2}"
  let ?p = "\<lambda>pc y n. proc_run (?h pc arriving) y (TUser (0, Some 2)) n None (Some (0x500, 0x1000))"
  let ?u = "PUser 0 (Some 2) None"
  have "run_step (?p (PSpawn True 0x400 5 0) run_start (RFn 0)) (?p ?u run_start (RFn 0))"
    using proc_step.create_returns [of "?p (PSpawn True 0x400 5 0) run_start (RFn 0)" False "(0, Some 2)"
      counting_tids "0x500" "0x1000"]
    unfolding run_simps main_thr_upd by simp
  from run_go [OF proc_run_started this] have "run_reaches (?p ?u run_start (RFn 0))" .
  then have "run_reaches (?p ?u run_start (RArg 0 0x500))" by (rule proc_low(2) [rotated]) simp
  then have "run_reaches (?p ?u run_start (RFree 0 0x500 0x1000))" by (rule proc_low(2) [rotated]) simp
  then have r: "run_reaches (?p ?u (run_start\<lparr>in_use := 0\<rparr>) (RTls 0x500 0x1000))" by (rule proc_low(2) [rotated]) simp
  have "slot_index 0x1000 0x1000 = Some 0" using slot_index_addr [of 0 "0x1000"] by (simp add: slot_addr_def)
  then have "enters_fn 0x500 0x1000 0x500 0x1000 arriving = new_thr PTid None None False"
    by (simp add: enters_fn_def unborn_thr_def new_thr_def)
  with proc_step.calls_fn [of "?p ?u (run_start\<lparr>in_use := 0\<rparr>) (RTls 0x500 0x1000)" True "0x500" "0x1000"
      counting_tids "0x500" "0x1000"]
  have "run_step (?p ?u (run_start\<lparr>in_use := 0\<rparr>) (RTls 0x500 0x1000))
    (proc_run (?h ?u (new_thr PTid None None False)) (run_start\<lparr>in_use := 0\<rparr>) (TUser (0, Some 2)) (TUser (0, None))
       (Some (0x500, 0x1000)) (Some (0x500, 0x1000)))"
    unfolding run_simps by simp
  from run_go [OF r this] show ?thesis .
qed

text \<open>A step above of one of two threads, neither of them inside \<open>thread.c\<close>.\<close>

lemma run_stays:
  assumes "\<not> is_spawn (ppc m)" "\<not> is_spawn (ppc n)" "ppc m \<noteq> PNone" "ppc n \<noteq> PNone"
    "\<not> is_spawn (ppc m')" "\<not> is_spawn (ppc n')"
    and "(\<exists>r. lm = TUser r) \<or> (\<exists>code. lm = TGone code)" "(\<exists>r. ln = TUser r) \<or> (\<exists>code. ln = TGone code)"
  shows "stays_above (run_state x lm ln c q) (run_pt y m n U) (run_pt y' m' n' U)"
  using assms by (simp add: stays_above_def run_simps all_bool_eq)

lemma run_none_gone:
  "(ppc m' = PGone \<Longrightarrow> ppc m = PGone) \<Longrightarrow> (ppc n' = PGone \<Longrightarrow> ppc n = PGone) \<Longrightarrow>
     \<not> newly_gone (run_pt y m n U) (run_pt y' m' n' U) u"
  by (cases u) (auto simp: newly_gone_def run_simps)

lemma new_thr_upd:
  "ppc (new_thr pc call r e) = pc" "ptid (new_thr pc call r e) = 2" "frame (new_thr pc call r e) = Some 0"
  "(new_thr pc call r e)\<lparr>ppc := pc'\<rparr> = new_thr pc' call r e" "(new_thr pc call r e)\<lparr>entered := e'\<rparr> = new_thr pc call r e'"
  "(new_thr pc call r e)\<lparr>ran := call'\<rparr> = new_thr pc call' r e" "(new_thr pc call r e)\<lparr>outcome := r'\<rparr> = new_thr pc call r' e"
  "(main_thr pc j)\<lparr>joining := j'\<rparr> = main_thr pc j'"
  by (simp_all add: new_thr_def main_thr_def)

lemmas run_thr_simps = run_simps main_thr_upd new_thr_upd run_slot_def

lemma run_stores:
  "trampoline_store 2 0 pc (x # xs) = Some (pc', x' # xs) \<Longrightarrow> xs = replicate 15 empty_pslot \<Longrightarrow>
     pt_step counting_tids (run_pt x m (new_thr pc call r e) U) (run_pt x' m (new_thr pc' call r True) U)"
  using pt_step.stores [of "run_pt x m (new_thr pc call r e) U" True 0 pc' "x' # xs" counting_tids]
  by (simp add: run_thr_simps)

lemma proc_run_returned:
  "run_reaches (proc_run (run_pt (run_slot 2 7 0) (main_thr (PUser 0 (Some 2) None) None) (new_thr PFin (Some (0x400, 5)) (Some 7) True) {1, 2})
     (run_start\<lparr>in_use := 0\<rparr>) (TUser (0, Some 2)) (TUser (0, None)) (Some (0x500, 0x1000)) (Some (0x500, 0x1000)))"
proof -
  let ?h = "\<lambda>x n. run_pt x (main_thr (PUser 0 (Some 2) None) None) n {1, 2}"
  let ?R = "\<lambda>x n. run_reaches (proc_run (?h x n) (run_start\<lparr>in_use := 0\<rparr>) (TUser (0, Some 2)) (TUser (0, None))
      (Some (0x500, 0x1000)) (Some (0x500, 0x1000)))"
  let ?call = "Some (0x400, 5)"
  have "?R (run_slot 2 0 0) (new_thr PStart None None True)"
    by (rule proc_above [OF proc_run_entered run_stores run_stays run_none_gone]) (simp_all add: run_thr_simps)
  moreover have "pt_step counting_tids (?h (run_slot 2 0 0) (new_thr PStart None None True))
      (?h (run_slot 2 0 0) (new_thr (PUser 0 None None) ?call None True))"
    using pt_step.starts_routine [of "?h (run_slot 2 0 0) (new_thr PStart None None True)" True 0 counting_tids]
    by (simp add: run_thr_simps)
  ultimately have "?R (run_slot 2 0 0) (new_thr (PUser 0 None None) ?call None True)"
    by (rule proc_above [OF _ _ run_stays run_none_gone]) (simp_all add: run_thr_simps)
  moreover have "pt_step counting_tids (?h (run_slot 2 0 0) (new_thr (PUser 0 None None) ?call None True))
      (?h (run_slot 2 0 0) (new_thr (PRet 7) ?call (Some 7) True))"
    using pt_step.routine_returns [of "?h (run_slot 2 0 0) (new_thr (PUser 0 None None) ?call None True)" True 0 None None 0
      counting_tids 7] by (simp add: run_thr_simps)
  ultimately have "?R (run_slot 2 0 0) (new_thr (PRet 7) ?call (Some 7) True)"
    by (rule proc_above [OF _ _ run_stays run_none_gone]) (simp_all add: run_thr_simps)
  then show ?thesis
    by (rule proc_above [OF _ run_stores run_stays run_none_gone]) (simp_all add: run_thr_simps)
qed

lemma proc_run_joining:
  "run_reaches (proc_run (run_pt (run_slot 2 7 1) (main_thr (PTake 2 True) (Some True))
       (new_thr PReaped (Some (0x400, 5)) (Some 7) True) {1, 2})
     (run_start\<lparr>in_use := 0\<rparr>) (TUser (0, Some 2)) (TGone 0) (Some (0x500, 0x1000)) (Some (0x500, 0x1000)))"
proof -
  let ?new = "\<lambda>pc. new_thr pc (Some (0x400, 5)) (Some 7) True" and ?q = "Some (0x500, 0x1000)"
  let ?h = "\<lambda>x m j n. run_pt x (main_thr m j) (?new n) {1, 2}"
  let ?p = "\<lambda>h l. proc_run h (run_start\<lparr>in_use := 0\<rparr>) (TUser (0, Some 2)) l ?q ?q"
  let ?u = "PUser 0 (Some 2) None"
  have st: "pt_step counting_tids (?h (run_slot 2 7 0) ?u None PFin) (?h (run_slot 2 7 1) ?u None PGone)"
    by (rule run_stores) (simp_all add: run_slot_def)
  have "stays_above (run_state (run_start\<lparr>in_use := 0\<rparr>) (TUser (0, Some 2)) (TUser (0, None)) ?q ?q)
      (?h (run_slot 2 7 0) ?u None PFin) (?h (run_slot 2 7 1) ?u None PGone)"
    by (rule run_stays) (simp_all add: run_thr_simps)
  moreover have "newly_gone (?h (run_slot 2 7 0) ?u None PFin) (?h (run_slot 2 7 1) ?u None PGone) t \<longleftrightarrow> t = True" for t
    by (cases t) (simp_all add: newly_gone_def run_thr_simps)
  ultimately have "run_step (?p (?h (run_slot 2 7 0) ?u None PFin) (TUser (0, None))) (?p (?h (run_slot 2 7 1) ?u None PGone) (TGone 0))"
    using st proc_step.exits [of counting_tids "?p (?h (run_slot 2 7 0) ?u None PFin) (TUser (0, None))"
        "?h (run_slot 2 7 1) ?u None PGone" True "(0, None)" 0 "0x500" "0x1000"]
    unfolding run_simps thread_exit_def by (simp add: new_thr_upd)
  from run_go [OF proc_run_returned this]
  have "run_reaches (?p (?h (run_slot 2 7 1) ?u None PGone) (TGone 0))" .
  moreover have "pt_step counting_tids (?h (run_slot 2 7 1) ?u None PGone) (?h (run_slot 2 7 1) (PJoin 2 True) None PGone)"
    using pt_step.calls_join [of "?h (run_slot 2 7 1) ?u None PGone" False 0 "Some 2" None counting_tids 2 True]
    by (simp add: run_thr_simps pthread_join_def)
  ultimately have "run_reaches (?p (?h (run_slot 2 7 1) (PJoin 2 True) None PGone) (TGone 0))"
    by (rule proc_above [OF _ _ run_stays run_none_gone]) (simp_all add: run_thr_simps)
  moreover have "pt_step counting_tids (?h (run_slot 2 7 1) (PJoin 2 True) None PGone)
      (?h (run_slot 2 7 1) (PTake 2 True) (Some True) PReaped)"
    using pt_step.reaps [of "?h (run_slot 2 7 1) (PJoin 2 True) None PGone" False 2 True True counting_tids]
    by (simp add: run_thr_simps)
  ultimately show ?thesis
    by (rule proc_above [OF _ _ run_stays run_none_gone]) (simp_all add: run_thr_simps)
qed

section \<open>Properties\<close>

text \<open>
  C18. The two thread layers together. In every reachable state of a process in which \<open>pthread_create\<close> runs the code of
  \<open>thread_create\<close>, access by access and beside other callers of it, the part of \<open>thread.c\<close> is in a
  state it can reach by itself, and the whole seen from \<open>pthread.c\<close> is in a state of the model in which
  \<open>thread_create\<close> starts \<open>pthread_trampoline\<close> with the slot it was given in one step. Nothing is assumed of the
  numbers the kernel gives out: \<open>K\<close> is any relation.
\<close>

theorem process_refines_layers:
  assumes "reachable proc_initial (proc_step K tr B) c"
  shows "reachable thread_initial thread_step (low c) \<and> reachable pt_initial (pt_step K) (proc_view tr B c)"
  using reachable_process [OF assms] by blast

theorem process_refines_layers_witness:
  "reachable pt_initial (pt_step counting_tids) (proc_view 0x500 0x1000 (proc_run
     (run_pt (run_slot 0 0 0) (main_thr (PSpawn True 0x400 5 0) None) arriving {1, 2})
     run_start (TUser (0, Some 2)) (RFn 0) None (Some (0x500, 0x1000))))"
  using process_refines_layers [OF proc_run_started] by blast





end
