(* ===== verification/Neo_Mpi_Queue.thy ===== *)
theory Neo_Mpi_Queue
  imports Neo_Kernel
begin

text \<open>
  The unexpected-message queue of \<open>src/mpi.c\<close>: a pool of sixteen static slots, a flag per slot,
  and a singly linked list through the slots in order of arrival. A pointer to a slot is its index
  in the pool, a null pointer is \<open>None\<close>. The loops over the list follow \<open>next\<close> fields and would
  not end on a cyclic list, so they are partial functions; that they do end is part of what is
  shown. \<open>queue_take\<close> and \<open>queue_put\<close> are the two compound operations \<open>recv_match\<close> performs.

  The locale \<open>mailbox\<close> is what the receive path relies on; it is interpreted here on the pool.
\<close>

section \<open>Data\<close>

record mpi_header =
  h_src :: i32
  h_tag :: i32
  h_count :: i32
  h_type :: i32

record pending =
  p_next :: "nat option"
  p_hdr :: mpi_header
  p_bytes :: i32
  p_data :: "u8 list"

abbreviation (input) MPI_MAX_MESSAGE :: nat where "MPI_MAX_MESSAGE \<equiv> 8192"
abbreviation (input) PENDING_SLOTS :: nat where "PENDING_SLOTS \<equiv> 16"
abbreviation (input) MPI_ANY_SOURCE :: i32 where "MPI_ANY_SOURCE \<equiv> - 1"
abbreviation (input) MPI_ANY_TAG :: i32 where "MPI_ANY_TAG \<equiv> - 1"

record mpi_queue =
  pending_pool :: "pending list"
  pending_used :: "i32 list"
  pending_head :: "nat option"

type_synonym message = "mpi_header \<times> u8 list"

section \<open>Operations\<close>

definition matches :: "mpi_header \<Rightarrow> i32 \<Rightarrow> i32 \<Rightarrow> bool" where
  "matches h source tag =
     (if source \<noteq> MPI_ANY_SOURCE \<and> h_src h \<noteq> source then False
      else if tag \<noteq> MPI_ANY_TAG \<and> h_tag h \<noteq> tag then False
      else True)"

text \<open>
  \<open>pp\<close> points to the head pointer (\<open>None\<close>) or to the \<open>next\<close> field of a slot; \<open>deref\<close> reads
  \<open>*pp\<close> and \<open>assign\<close> writes it.
\<close>

definition deref :: "mpi_queue \<Rightarrow> nat option \<Rightarrow> nat option" where
  "deref q pp = (case pp of None \<Rightarrow> pending_head q | Some j \<Rightarrow> p_next (pending_pool q ! j))"

definition assign :: "mpi_queue \<Rightarrow> nat option \<Rightarrow> nat option \<Rightarrow> mpi_queue" where
  "assign q pp v =
     (case pp of None \<Rightarrow> q\<lparr>pending_head := v\<rparr>
      | Some j \<Rightarrow> q\<lparr>pending_pool := (pending_pool q)[j := (pending_pool q ! j)\<lparr>p_next := v\<rparr>]\<rparr>)"

partial_function (option) take_loop ::
  "i32 \<Rightarrow> i32 \<Rightarrow> mpi_queue \<Rightarrow> nat option \<Rightarrow> (nat option \<times> mpi_queue) option" where
  "take_loop source tag q pp =
     (case deref q pp of
        None \<Rightarrow> Some (None, q)
      | Some p \<Rightarrow>
          if matches (p_hdr (pending_pool q ! p)) source tag
          then Some (Some p, assign q pp (p_next (pending_pool q ! p)))
          else take_loop source tag q (Some p))"

definition pending_take :: "i32 \<Rightarrow> i32 \<Rightarrow> mpi_queue \<Rightarrow> (nat option \<times> mpi_queue) option" where
  "pending_take source tag q = take_loop source tag q None"

definition pending_alloc :: "mpi_queue \<Rightarrow> (nat \<times> mpi_queue) option" where
  "pending_alloc q =
     (case first_fit (\<lambda>u. u = 0) (pending_used q) of
        Some i \<Rightarrow> Some (i, q\<lparr>pending_used := (pending_used q)[i := 1]\<rparr>)
      | None \<Rightarrow> None)"

definition pending_release :: "nat \<Rightarrow> mpi_queue \<Rightarrow> mpi_queue" where
  "pending_release p q = q\<lparr>pending_used := (pending_used q)[p := 0]\<rparr>"

partial_function (option) tail_loop :: "pending list \<Rightarrow> nat \<Rightarrow> nat option" where
  "tail_loop pool t = (case p_next (pool ! t) of None \<Rightarrow> Some t | Some u \<Rightarrow> tail_loop pool u)"

definition pending_push :: "nat \<Rightarrow> mpi_queue \<Rightarrow> mpi_queue option" where
  "pending_push p q =
     (let q = assign q (Some p) None in
      case pending_head q of
        None \<Rightarrow> Some (q\<lparr>pending_head := Some p\<rparr>)
      | Some h \<Rightarrow> map_option (\<lambda>t. assign q (Some t) (Some p)) (tail_loop (pending_pool q) h))"

text \<open>What a slot holds: the header and the first \<open>bytes\<close> bytes of the data array.\<close>

definition slot_message :: "pending \<Rightarrow> message" where
  "slot_message p = (p_hdr p, take (nat (sint (p_bytes p))) (p_data p))"

text \<open>Filling a slot from a frame: header, byte count, and the payload over the start of the array.\<close>

definition fill_slot :: "message \<Rightarrow> pending \<Rightarrow> pending" where
  "fill_slot m p =
     p\<lparr>p_hdr := fst m, p_bytes := of_nat (length (snd m)),
       p_data := snd m @ drop (length (snd m)) (p_data p)\<rparr>"

text \<open>The first part of \<open>recv_match\<close>: take a match out of the queue, copy it, release its slot.\<close>

definition queue_take :: "i32 \<times> i32 \<Rightarrow> mpi_queue \<Rightarrow> (message option \<times> mpi_queue) option" where
  "queue_take k q =
     (case pending_take (fst k) (snd k) q of
        None \<Rightarrow> None
      | Some (None, q') \<Rightarrow> Some (None, q')
      | Some (Some p, q') \<Rightarrow> Some (Some (slot_message (pending_pool q' ! p)), pending_release p q'))"

text \<open>
  Its last part: keep a message nobody asked for. The flag in the result says whether there was
  room.
\<close>

definition queue_put :: "message \<Rightarrow> mpi_queue \<Rightarrow> (bool \<times> mpi_queue) option" where
  "queue_put m q =
     (case pending_alloc q of
        None \<Rightarrow> Some (False, q)
      | Some (p, q) \<Rightarrow> map_option (Pair True) (pending_push p
          (q\<lparr>pending_pool := (pending_pool q)[p := fill_slot m (pending_pool q ! p)]\<rparr>)))"

section \<open>The slot table\<close>

definition used_slots :: "mpi_queue \<Rightarrow> nat set" where
  "used_slots q = {i. i < length (pending_used q) \<and> pending_used q ! i \<noteq> 0}"

interpretation pool: slot_table used_slots pending_alloc pending_release PENDING_SLOTS
    "\<lambda>q. length (pending_used q) = PENDING_SLOTS"
proof unfold_locales
  fix q :: mpi_queue and i q'
  assume len: "length (pending_used q) = PENDING_SLOTS"
  show "used_slots q \<subseteq> {..<PENDING_SLOTS}" using len by (auto simp: used_slots_def)
  show "length (pending_used q') = PENDING_SLOTS \<and> i < PENDING_SLOTS \<and> i \<notin> used_slots q \<and>
      used_slots q' = insert i (used_slots q)" if "pending_alloc q = Some (i, q')"
    using that len
    by (auto simp: pending_alloc_def used_slots_def nth_list_update_if
        split: option.splits if_splits dest!: first_fit_SomeD)
  show "used_slots q = {..<PENDING_SLOTS}" if "pending_alloc q = None"
    using that len
    by (auto simp: pending_alloc_def used_slots_def first_fit_None_iff split: option.splits)
  show "length (pending_used (pending_release i q)) = PENDING_SLOTS \<and>
      used_slots (pending_release i q) = used_slots q - {i}" if "i < PENDING_SLOTS"
    using that len by (auto simp: pending_release_def used_slots_def nth_list_update_if
        split: if_splits)
qed

section \<open>Linked segments\<close>

text \<open>
  \<open>seg pool cur is e\<close>: following \<open>next\<close> from \<open>cur\<close> visits the slots \<open>is\<close> and arrives at \<open>e\<close>.
\<close>

fun seg :: "pending list \<Rightarrow> nat option \<Rightarrow> nat list \<Rightarrow> nat option \<Rightarrow> bool" where
  "seg pool cur [] e \<longleftrightarrow> cur = e"
| "seg pool cur (i # is) e \<longleftrightarrow> cur = Some i \<and> i < length pool \<and> seg pool (p_next (pool ! i)) is e"

lemma seg_append: "seg pool cur (xs @ ys) e \<longleftrightarrow> (\<exists>m. seg pool cur xs m \<and> seg pool m ys e)"
  by (induction xs arbitrary: cur) auto

lemma seg_update [simp]: "i \<notin> set is \<Longrightarrow> seg (pool[i := x]) cur is e = seg pool cur is e"
  by (induction "is" arbitrary: cur) auto

lemma seg_keep_next:
  "p_next x = p_next (pool ! i) \<Longrightarrow> seg (pool[i := x]) cur is e = seg pool cur is e"
proof (induction "is" arbitrary: cur)
  case (Cons j js)
  have "p_next (pool[i := x] ! j) = p_next (pool ! j)" if "j < length pool"
    using Cons.prems that by (cases "i = j") simp_all
  then show ?case by (simp add: Cons.IH [OF Cons.prems] cong: conj_cong)
qed simp

lemma seg_relink:
  assumes "seg pool cur (xs @ [l]) e" and "l \<notin> set xs"
  shows "seg (pool[l := (pool ! l)\<lparr>p_next := e'\<rparr>]) cur (xs @ [l]) e'"
  using assms by (auto simp: seg_append)

lemma seg_bound: "seg pool cur is e \<Longrightarrow> set is \<subseteq> {..<length pool}"
  by (induction "is" arbitrary: cur) auto

lemma tail_loop_seg: "seg pool (Some t) (xs @ [l]) None \<Longrightarrow> tail_loop pool t = Some l"
proof (induction xs arbitrary: t)
  case Nil
  then show ?case by (simp add: tail_loop.simps)
next
  case (Cons x xs)
  then obtain u where u: "p_next (pool ! x) = Some u" "seg pool (Some u) (xs @ [l]) None"
    by (cases xs) auto
  from Cons.prems have "t = x" by simp
  with u Cons.IH show ?case by (subst tail_loop.simps) simp
qed

abbreviation slot_matches :: "mpi_queue \<Rightarrow> i32 \<Rightarrow> i32 \<Rightarrow> nat \<Rightarrow> bool" where
  "slot_matches q source tag i \<equiv> matches (p_hdr (pending_pool q ! i)) source tag"

lemma deref_Some [simp]: "deref q (Some j) = p_next (pending_pool q ! j)"
  by (simp add: deref_def)

lemma take_loop_none:
  "seg (pending_pool q) (deref q pp) is None \<Longrightarrow> \<forall>i\<in>set is. \<not> slot_matches q source tag i \<Longrightarrow>
     take_loop source tag q pp = Some (None, q)"
  by (induction "is" arbitrary: pp) (subst take_loop.simps; simp)+

lemma take_loop_found:
  "seg (pending_pool q) (deref q pp) (xs @ p # ys) None \<Longrightarrow>
     \<forall>i\<in>set xs. \<not> slot_matches q source tag i \<Longrightarrow> slot_matches q source tag p \<Longrightarrow>
     take_loop source tag q pp = Some (Some p,
       assign q (if xs = [] then pp else Some (last xs)) (p_next (pending_pool q ! p)))"
proof (induction xs arbitrary: pp)
  case Nil
  then show ?case by (subst take_loop.simps) simp
next
  case (Cons x xs)
  then show ?case by (subst take_loop.simps) simp
qed

text \<open>Unlinking: the assignment \<open>*pp = p->next\<close> removes exactly the slot \<open>p\<close> from the list.\<close>

lemma unlink_seg:
  assumes "seg (pending_pool q) (pending_head q) (xs @ p # ys) None" and "distinct (xs @ p # ys)"
  defines "q' \<equiv> assign q (if xs = [] then None else Some (last xs)) (p_next (pending_pool q ! p))"
  shows "seg (pending_pool q') (pending_head q') (xs @ ys) None"
proof (cases xs rule: rev_cases)
  case Nil
  with assms show ?thesis by (simp add: q'_def assign_def)
next
  case (snoc zs z)
  with assms(1) have "seg (pending_pool q) (pending_head q) (zs @ [z]) (Some p)"
    "seg (pending_pool q) (p_next (pending_pool q ! p)) ys None" by (auto simp: seg_append)
  with snoc assms(2) show ?thesis
    by (auto simp: q'_def assign_def seg_append)
qed

section \<open>The contents of the queue\<close>

fun walk :: "nat \<Rightarrow> pending list \<Rightarrow> nat option \<Rightarrow> nat list" where
  "walk 0 pool cur = []"
| "walk (Suc n) pool None = []"
| "walk (Suc n) pool (Some i) = i # walk n pool (p_next (pool ! i))"

lemma walk_seg: "seg pool cur is None \<Longrightarrow> length is \<le> n \<Longrightarrow> walk n pool cur = is"
proof (induction n arbitrary: cur "is")
  case 0
  then show ?case by simp
next
  case (Suc n)
  then show ?case by (cases "is") auto
qed

definition chain :: "mpi_queue \<Rightarrow> nat list" where
  "chain q = walk PENDING_SLOTS (pending_pool q) (pending_head q)"

definition content :: "mpi_queue \<Rightarrow> message list" where
  "content q = map (\<lambda>i. slot_message (pending_pool q ! i)) (chain q)"

definition slot_ok :: "pending \<Rightarrow> bool" where
  "slot_ok p \<longleftrightarrow> length (p_data p) = MPI_MAX_MESSAGE \<and> 0 \<le> sint (p_bytes p) \<and>
     sint (p_bytes p) \<le> int MPI_MAX_MESSAGE"

text \<open>
  Well-formedness: the arrays have their sizes, the list ends, visits no slot twice, and visits
  exactly the slots in use.
\<close>

definition queue_wf :: "mpi_queue \<Rightarrow> bool" where
  "queue_wf q \<longleftrightarrow> length (pending_pool q) = PENDING_SLOTS \<and> length (pending_used q) = PENDING_SLOTS \<and>
     (\<forall>p\<in>set (pending_pool q). slot_ok p) \<and>
     seg (pending_pool q) (pending_head q) (chain q) None \<and>
     distinct (chain q) \<and> set (chain q) = used_slots q"

lemma queue_wfI:
  assumes "length (pending_pool q) = PENDING_SLOTS" "length (pending_used q) = PENDING_SLOTS"
    "\<forall>p\<in>set (pending_pool q). slot_ok p" "seg (pending_pool q) (pending_head q) is None"
    "distinct is" "set is = used_slots q"
  shows "queue_wf q" and "chain q = is"
proof -
  have "card (set is) \<le> PENDING_SLOTS"
    using seg_bound [OF assms(4)] assms(1) card_mono [of "{..<PENDING_SLOTS}" "set is"] by simp
  with assms(5) have "length is \<le> PENDING_SLOTS" by (simp add: distinct_card)
  with assms(4) show c: "chain q = is" by (simp add: chain_def walk_seg)
  with assms show "queue_wf q" by (simp add: queue_wf_def)
qed

text \<open>Changing a link changes neither the messages nor the flags.\<close>

lemma assign_frame [simp]:
  "pending_used (assign q pp v) = pending_used q"
  "used_slots (assign q pp v) = used_slots q"
  "length (pending_pool (assign q pp v)) = length (pending_pool q)"
  by (auto simp: assign_def used_slots_def split: option.splits)

lemma assign_slot [simp]:
  "slot_message (pending_pool (assign q pp v) ! i) = slot_message (pending_pool q ! i)"
proof (cases pp)
  case (Some j)
  then show ?thesis
    by (cases "i = j \<and> j < length (pending_pool q)")
      (auto simp: assign_def slot_message_def list_update_beyond not_less)
qed (simp add: assign_def)

lemma assign_slot_ok:
  assumes "\<forall>p\<in>set (pending_pool q). slot_ok p"
  shows "\<forall>p\<in>set (pending_pool (assign q pp v)). slot_ok p"
proof (cases pp)
  case (Some j)
  then show ?thesis using assms set_update_subset_insert [of "pending_pool q" j]
    by (cases "j < length (pending_pool q)")
      (fastforce simp: assign_def slot_ok_def list_update_beyond not_less)+
qed (use assms in \<open>simp add: assign_def\<close>)

lemma content_length: "queue_wf q \<Longrightarrow> length (content q) = card (used_slots q)"
  unfolding content_def queue_wf_def by (metis distinct_card length_map)

text \<open>What taking the first match out of a list means.\<close>

fun take_first :: "('m \<Rightarrow> bool) \<Rightarrow> 'm list \<Rightarrow> ('m \<times> 'm list) option" where
  "take_first P [] = None"
| "take_first P (x # xs) =
     (if P x then Some (x, xs) else map_option (\<lambda>(y, ys). (y, x # ys)) (take_first P xs))"

lemma take_first_None: "take_first P xs = None \<longleftrightarrow> (\<forall>x\<in>set xs. \<not> P x)"
  by (induction xs) auto

lemma take_first_skip: "\<forall>x\<in>set xs. \<not> P x \<Longrightarrow>
    take_first P (xs @ ys) = map_option (\<lambda>(y, zs). (y, xs @ zs)) (take_first P ys)"
  by (induction xs) (cases "take_first P ys"; auto)+

lemma take_first_found: "\<forall>x\<in>set xs. \<not> P x \<Longrightarrow> P y \<Longrightarrow>
    take_first P (xs @ y # ys) = Some (y, xs @ ys)"
  by (simp add: take_first_skip)

lemma take_first_Some_split:
  "take_first P xs = Some (y, ys) \<Longrightarrow>
     \<exists>as bs. xs = as @ y # bs \<and> ys = as @ bs \<and> P y \<and> (\<forall>x\<in>set as. \<not> P x)"
proof (induction xs arbitrary: ys)
  case (Cons x xs)
  show ?case
  proof (cases "P x")
    case True
    with Cons.prems show ?thesis by (intro exI [of _ "[]"] exI [of _ ys]) auto
  next
    case False
    with Cons.prems obtain zs where "take_first P xs = Some (y, zs)" "ys = x # zs" by auto
    with Cons.IH [of zs] obtain as bs where
      "xs = as @ y # bs" "zs = as @ bs" "P y" "\<forall>z\<in>set as. \<not> P z" by blast
    with False \<open>ys = x # zs\<close> show ?thesis
      by (intro exI [of _ "x # as"] exI [of _ bs]) auto
  qed
qed simp

section \<open>The mailbox interface\<close>

text \<open>
  What the receive path relies on: \<open>boxed\<close> abstracts the queue to the messages it holds, oldest
  first; a take removes the first match; a put appends, unless the box is full. Both return.
\<close>

locale mailbox =
  fixes wf :: "'q \<Rightarrow> bool"
    and boxed :: "'q \<Rightarrow> 'm list"
    and fits :: "'m \<Rightarrow> bool"
    and wanted :: "'k \<Rightarrow> 'm \<Rightarrow> bool"
    and tk :: "'k \<Rightarrow> 'q \<Rightarrow> ('m option \<times> 'q) option"
    and pt :: "'m \<Rightarrow> 'q \<Rightarrow> (bool \<times> 'q) option"
    and room :: nat
  assumes take_hit: "wf q \<Longrightarrow> take_first (wanted k) (boxed q) = Some (m, ms) \<Longrightarrow>
          \<exists>q'. tk k q = Some (Some m, q') \<and> wf q' \<and> boxed q' = ms"
    and take_miss: "wf q \<Longrightarrow> take_first (wanted k) (boxed q) = None \<Longrightarrow> tk k q = Some (None, q)"
    and put_room: "wf q \<Longrightarrow> fits m \<Longrightarrow> length (boxed q) < room \<Longrightarrow>
          \<exists>q'. pt m q = Some (True, q') \<and> wf q' \<and> boxed q' = boxed q @ [m]"
    and put_full: "wf q \<Longrightarrow> \<not> length (boxed q) < room \<Longrightarrow> pt m q = Some (False, q)"
begin

text \<open>Putting a list of messages, dropping what does not fit.\<close>

lemma put_list:
  assumes "wf q" and "\<forall>m\<in>set ms. fits m"
  shows "\<exists>q'. fold (\<lambda>m r. Option.bind r (\<lambda>q. map_option snd (pt m q))) ms (Some q) = Some q' \<and>
           wf q' \<and> boxed q' = boxed q @ take (room - length (boxed q)) ms"
  using assms
proof (induction ms arbitrary: q)
  case (Cons m ms)
  show ?case
  proof (cases "length (boxed q) < room")
    case True
    with put_room [of q m] Cons.prems obtain q1
      where q1: "pt m q = Some (True, q1)" "wf q1" "boxed q1 = boxed q @ [m]" by auto
    from Cons.IH [OF q1(2)] Cons.prems q1 True show ?thesis
      by (auto simp: take_Cons' Suc_diff_Suc)
  next
    case False
    with put_full [of q m] Cons.prems(1) have "pt m q = Some (False, q)" by simp
    with Cons.IH [of q] Cons.prems False show ?thesis by simp
  qed
qed simp

lemma put_take:
  assumes "wf q" and "fits m" and "length (boxed q) < room" and "wanted k m"
    and "\<forall>x\<in>set (boxed q). \<not> wanted k x"
  shows "\<exists>q1 q2. pt m q = Some (True, q1) \<and> tk k q1 = Some (Some m, q2) \<and> boxed q2 = boxed q"
proof -
  from put_room [OF assms(1-3)] obtain q1
    where q1: "pt m q = Some (True, q1)" "wf q1" "boxed q1 = boxed q @ [m]" by auto
  from assms(4,5) q1(3) have "take_first (wanted k) (boxed q1) = Some (m, boxed q)"
    by (simp add: take_first_found)
  from take_hit [OF q1(2) this] q1 show ?thesis by auto
qed

end

definition msg_wanted :: "i32 \<times> i32 \<Rightarrow> message \<Rightarrow> bool" where
  "msg_wanted k m = matches (fst m) (fst k) (snd k)"

definition msg_fits :: "message \<Rightarrow> bool" where
  "msg_fits m \<longleftrightarrow> length (snd m) \<le> MPI_MAX_MESSAGE"

lemma wanted_slot [simp]: "msg_wanted k (slot_message p) = matches (p_hdr p) (fst k) (snd k)"
  by (simp add: msg_wanted_def slot_message_def)

lemma queue_take_miss:
  assumes wf: "queue_wf q" and none: "take_first (msg_wanted k) (content q) = None"
  shows "queue_take k q = Some (None, q)"
proof -
  from none have "\<forall>i\<in>set (chain q). \<not> slot_matches q (fst k) (snd k) i"
    by (simp add: take_first_None content_def)
  with wf take_loop_none [of q None "chain q"] show ?thesis
    by (simp add: queue_take_def pending_take_def deref_def queue_wf_def)
qed

lemma map_split_at:
  assumes "map f is = as @ b # bs"
  obtains xs p ys where "is = xs @ p # ys" "map f xs = as" "f p = b" "map f ys = bs"
  using assms by (auto simp: map_eq_append_conv)

lemma queue_take_hit:
  assumes wf: "queue_wf q" and hit: "take_first (msg_wanted k) (content q) = Some (m, ms)"
  shows "\<exists>q'. queue_take k q = Some (Some m, q') \<and> queue_wf q' \<and> content q' = ms"
proof -
  let ?f = "\<lambda>i. slot_message (pending_pool q ! i)"
  from take_first_Some_split [OF hit] obtain as bs where
    s: "content q = as @ m # bs" "ms = as @ bs" "msg_wanted k m" "\<forall>x\<in>set as. \<not> msg_wanted k x" by blast
  from s(1) obtain xs p ys where
    c: "chain q = xs @ p # ys" and f: "map ?f xs = as" "?f p = m" "map ?f ys = bs"
    unfolding content_def by (rule map_split_at)
  let ?pp = "if xs = [] then None else Some (last xs)"
  define q1 where "q1 = assign q ?pp (p_next (pending_pool q ! p))"
  define q' where "q' = pending_release p q1"
  have w: "length (pending_pool q) = PENDING_SLOTS" "length (pending_used q) = PENDING_SLOTS"
    "\<forall>p\<in>set (pending_pool q). slot_ok p" "distinct (xs @ p # ys)"
    "seg (pending_pool q) (pending_head q) (xs @ p # ys) None" "used_slots q = set (xs @ p # ys)"
    using wf c by (auto simp: queue_wf_def)
  have nm: "\<forall>i\<in>set xs. \<not> slot_matches q (fst k) (snd k) i" and mp: "slot_matches q (fst k) (snd k) p"
    using s(3,4) f by auto
  have "pending_take (fst k) (snd k) q = Some (Some p, q1)"
    using take_loop_found [of q None xs p ys] w(5) nm mp
    by (simp add: pending_take_def deref_def q1_def)
  then have t: "queue_take k q = Some (Some m, q')"
    using f(2) by (simp add: queue_take_def q'_def q1_def)
  have pb: "p < PENDING_SLOTS" using seg_bound [OF w(5)] w(1) by auto
  have r: "pending_pool q' = pending_pool q1" "pending_head q' = pending_head q1"
    "length (pending_used q') = PENDING_SLOTS" "used_slots q' = used_slots q - {p}"
    using pool.release_used [of q1 p] pb w(2)
    by (auto simp: q'_def q1_def pending_release_def)
  have wf': "queue_wf q'" and c': "chain q' = xs @ ys"
    using queue_wfI [of q' "xs @ ys"] r w(1,2,4,6) assign_slot_ok [OF w(3)] unlink_seg [OF w(5,4)]
    by (auto simp: q1_def)
  moreover have "content q' = ms"
    using s(2) f(1,3) by (auto simp: content_def c' r(1) q1_def)
  ultimately show ?thesis using t by blast
qed

text \<open>Pushing an unlinked slot appends it to the list and touches nothing but links.\<close>

definition same_slots :: "mpi_queue \<Rightarrow> mpi_queue \<Rightarrow> bool" where
  "same_slots q q' \<longleftrightarrow> pending_used q' = pending_used q \<and>
     length (pending_pool q') = length (pending_pool q) \<and>
     (\<forall>i. slot_message (pending_pool q' ! i) = slot_message (pending_pool q ! i)) \<and>
     ((\<forall>p\<in>set (pending_pool q). slot_ok p) \<longrightarrow> (\<forall>p\<in>set (pending_pool q'). slot_ok p))"

lemma same_slots_assign: "same_slots q (assign q pp v)"
  using assign_slot_ok by (simp add: same_slots_def)

lemma same_slots_trans: "same_slots a b \<Longrightarrow> same_slots b c \<Longrightarrow> same_slots a c"
  unfolding same_slots_def by metis

lemma pending_push_appends:
  assumes sg: "seg (pending_pool q) (pending_head q) is None" and "distinct is"
    and p: "p \<notin> set is" "p < length (pending_pool q)"
  shows "\<exists>q'. pending_push p q = Some q' \<and> same_slots q q' \<and>
           seg (pending_pool q') (pending_head q') (is @ [p]) None"
proof -
  define q0 where "q0 = assign q (Some p) None"
  have q0: "seg (pending_pool q0) (pending_head q0) is None"
    "p_next (pending_pool q0 ! p) = None" "p < length (pending_pool q0)" "same_slots q q0"
    using sg p same_slots_assign [of q "Some p" None] by (auto simp: q0_def assign_def)
  show ?thesis
  proof (cases "is" rule: rev_cases)
    case Nil
    with q0 show ?thesis
      by (auto simp: pending_push_def q0_def [symmetric] same_slots_def)
  next
    case (snoc zs l)
    define q' where "q' = assign q0 (Some l) (Some p)"
    from snoc q0(1) obtain h where h: "pending_head q0 = Some h" by (cases zs) auto
    with snoc q0(1) tail_loop_seg [of "pending_pool q0" h zs l]
    have "pending_push p q = Some q'" by (simp add: pending_push_def q0_def [symmetric] q'_def)
    moreover have "same_slots q q'"
      using q0(4) same_slots_assign same_slots_trans unfolding q'_def by blast
    moreover have "seg (pending_pool q') (pending_head q') (zs @ [l]) (Some p)"
      using seg_relink [of "pending_pool q0" "pending_head q0" zs l None "Some p"] q0(1) snoc
        assms(2) by (simp add: q'_def assign_def)
    moreover have "seg (pending_pool q') (Some p) [p] None"
      using q0(2,3) p(1) snoc by (auto simp: q'_def assign_def)
    ultimately show ?thesis unfolding snoc seg_append [of _ _ "zs @ [l]"] by blast
  qed
qed

lemma fill_slot_message: "msg_fits m \<Longrightarrow> slot_message (fill_slot m p) = m"
  by (cases m) (simp add: slot_message_def fill_slot_def msg_fits_def sint_of_nat_small)

lemma queue_put_full:
  assumes "queue_wf q" and "\<not> length (content q) < PENDING_SLOTS"
  shows "queue_put m q = Some (False, q)"
proof -
  have "length (pending_used q) = PENDING_SLOTS" using assms(1) by (simp add: queue_wf_def)
  with pool.alloc_succeeds_iff [of q] assms content_length [OF assms(1)]
  have "pending_alloc q = None" by metis
  then show ?thesis by (simp add: queue_put_def)
qed

lemma queue_put_room:
  assumes wf: "queue_wf q" and fits: "msg_fits m" and room: "length (content q) < PENDING_SLOTS"
  shows "\<exists>q'. queue_put m q = Some (True, q') \<and> queue_wf q' \<and> content q' = content q @ [m]"
proof -
  have w: "length (pending_pool q) = PENDING_SLOTS" "length (pending_used q) = PENDING_SLOTS"
    "\<forall>p\<in>set (pending_pool q). slot_ok p" "distinct (chain q)"
    "seg (pending_pool q) (pending_head q) (chain q) None" "used_slots q = set (chain q)"
    using wf by (auto simp: queue_wf_def)
  from pool.alloc_succeeds_iff [OF w(2)] room content_length [OF wf]
  obtain p qa where a: "pending_alloc q = Some (p, qa)" by (metis not_None_eq surj_pair)
  have p: "p < PENDING_SLOTS" "p \<notin> set (chain q)" "used_slots qa = insert p (set (chain q))"
    "length (pending_used qa) = PENDING_SLOTS"
    using pool.alloc_Some [OF w(2) a] w(6) by auto
  from a have qa: "pending_pool qa = pending_pool q" "pending_head qa = pending_head q"
    by (auto simp: pending_alloc_def split: option.splits)
  define qf where "qf = qa\<lparr>pending_pool := (pending_pool qa)[p := fill_slot m (pending_pool qa ! p)]\<rparr>"
  have "slot_ok (fill_slot m (pending_pool q ! p))"
    using w(1,3) p(1) fits by (auto simp: slot_ok_def fill_slot_def msg_fits_def sint_of_nat_small)
  then have okf: "\<forall>p\<in>set (pending_pool qf). slot_ok p"
    using w(3) set_update_subset_insert [of "pending_pool q" p] by (auto simp: qf_def qa)
  have segf: "seg (pending_pool qf) (pending_head qf) (chain q) None"
    using w(5) p(2) by (simp add: qf_def qa)
  from pending_push_appends [OF segf w(4) p(2)] p(1) w(1) obtain q'
    where q': "pending_push p qf = Some q'" "same_slots qf q'"
      "seg (pending_pool q') (pending_head q') (chain q @ [p]) None" by (auto simp: qf_def qa)
  have u: "used_slots q' = insert p (set (chain q))" "length (pending_pool q') = PENDING_SLOTS"
    "length (pending_used q') = PENDING_SLOTS" "\<forall>p\<in>set (pending_pool q'). slot_ok p"
    using q'(2) p(3,4) okf w(1) by (auto simp: same_slots_def used_slots_def qf_def qa)
  have wf': "queue_wf q'" and c': "chain q' = chain q @ [p]"
    using queue_wfI [of q' "chain q @ [p]"] u q'(3) w(4) p(2) by auto
  have "slot_message (pending_pool q' ! i) =
      (if i = p then m else slot_message (pending_pool q ! i))" for i
    using q'(2) p(1) w(1) fits
    by (auto simp: same_slots_def qf_def qa nth_list_update_if fill_slot_message)
  then have "content q' = content q @ [m]" using p(2) by (auto simp: content_def c')
  with wf' show ?thesis using q'(1) by (simp add: queue_put_def a qf_def [symmetric])
qed

interpretation unexpected: mailbox queue_wf content msg_fits msg_wanted queue_take queue_put
    PENDING_SLOTS
  by unfold_locales
    (auto intro: queue_take_hit queue_take_miss queue_put_room queue_put_full)

text \<open>The queue at program start: static storage, all zero.\<close>

definition empty_slot :: pending where
  "empty_slot = \<lparr>p_next = None, p_hdr = \<lparr>h_src = 0, h_tag = 0, h_count = 0, h_type = 0\<rparr>,
     p_bytes = 0, p_data = replicate MPI_MAX_MESSAGE 0\<rparr>"

definition empty_queue :: mpi_queue where
  "empty_queue = \<lparr>pending_pool = replicate PENDING_SLOTS empty_slot,
     pending_used = replicate PENDING_SLOTS 0, pending_head = None\<rparr>"

lemma empty_queue_wf: "queue_wf empty_queue" and content_empty: "content empty_queue = []"
proof -
  have "used_slots empty_queue = {}" by (auto simp: used_slots_def empty_queue_def)
  then have "queue_wf empty_queue \<and> chain empty_queue = []"
    using queue_wfI [of empty_queue "[]"]
    by (auto simp: empty_queue_def empty_slot_def slot_ok_def)
  then show "queue_wf empty_queue" "content empty_queue = []" by (simp_all add: content_def)
qed

end
