(* ===== verification/Neo_Bytes.thy ===== *)
theory Neo_Bytes
  imports Neo_String
begin

text \<open>
  Integers and arrays of integers in byte memory, little-endian as on x86-64: what a load or store
  of an \<open>int\<close>, a \<open>long\<close> or a pointer does. Used wherever the library reads or writes structured
  memory: message headers, argument vectors, program headers, reductions.
\<close>

section \<open>Encodings\<close>

definition le32 :: "i32 \<Rightarrow> u8 list" where
  "le32 v = [ucast v, ucast (drop_bit 8 v), ucast (drop_bit 16 v), ucast (drop_bit 24 v)]"

definition un_le32 :: "u8 list \<Rightarrow> i32" where
  "un_le32 bs = ucast (bs ! 0) OR push_bit 8 (ucast (bs ! 1)) OR push_bit 16 (ucast (bs ! 2))
     OR push_bit 24 (ucast (bs ! 3))"

lemma un_le32_le32 [simp]: "un_le32 (le32 v @ bs) = v"
proof (rule bit_word_eqI)
  fix n assume "n < LENGTH(32)"
  then have "n < 8 \<or> 8 \<le> n \<and> n < 16 \<or> 16 \<le> n \<and> n < 24 \<or> 24 \<le> n \<and> n < 32" by auto
  then show "bit (un_le32 (le32 v @ bs)) n = bit v n"
    by (elim disjE) (auto simp: un_le32_def le32_def bit_simps)
qed

lemma length_le32 [simp]: "length (le32 v) = 4"
  by (simp add: le32_def)

lemma drop_le32 [simp]: "4 \<le> n \<Longrightarrow> drop n (le32 v @ bs) = drop (n - 4) bs"
  by simp

definition le64 :: "i64 \<Rightarrow> u8 list" where
  "le64 v = le32 (ucast v) @ le32 (ucast (drop_bit 32 v))"

definition un_le64 :: "u8 list \<Rightarrow> i64" where
  "un_le64 bs = ucast (un_le32 bs) OR push_bit 32 (ucast (un_le32 (drop 4 bs)))"

definition get32 :: "mem \<Rightarrow> addr \<Rightarrow> i32" where
  "get32 m a = un_le32 (load_bytes m a 4)"

definition get64 :: "mem \<Rightarrow> addr \<Rightarrow> i64" where
  "get64 m a = un_le64 (load_bytes m a 8)"

definition put64 :: "mem \<Rightarrow> addr \<Rightarrow> u64 \<Rightarrow> mem" where
  "put64 m a v = store_bytes m a (le64 v)"

section \<open>Arrays of elements\<close>

lemma load_store_bytes:
  "length bs \<le> 18446744073709551616 \<Longrightarrow> load_bytes (store_bytes m a bs) a (length bs) = bs"
  by (rule nth_equalityI) (simp_all add: load_bytes_nth store_bytes_nth)

lemma load_bytes_offset_cong:
  "(\<And>t. t < n \<Longrightarrow> m (a + of_nat t) = m' (a + of_nat t)) \<Longrightarrow> load_bytes m a n = load_bytes m' a n"
  by (rule nth_equalityI) (simp_all add: load_bytes_nth)

lemma store_bytes_offset_other:
  assumes "p < 18446744073709551616" and "i + length bs \<le> 18446744073709551616"
    and "p < i \<or> i + length bs \<le> p"
  shows "store_bytes m (a + of_nat i) bs (a + of_nat p) = m (a + of_nat p)"
proof (rule store_bytes_other)
  fix k assume k: "k < length bs"
  show "a + of_nat p \<noteq> a + of_nat i + of_nat k"
  proof
    assume "a + of_nat p = a + of_nat i + of_nat k"
    then have "(of_nat p :: u64) = of_nat (i + k)" by (simp add: add.assoc)
    with assms k have "p = i + k" using of_nat_u64_inject [of p "i + k"] by simp
    with assms(3) k show False by simp
  qed
qed

text \<open>
  An element type is a type whose values are stored in \<open>w\<close> bytes and read back unchanged. \<open>elem\<close>
  is the \<open>j\<close>th element of an array in memory, \<open>part\<close> that of an array in a byte list.
\<close>

locale element_codec =
  fixes w :: nat
    and dec :: "u8 list \<Rightarrow> 'e"
    and enc :: "'e \<Rightarrow> u8 list"
  assumes dec_enc: "dec (enc x) = x"
    and length_enc: "length (enc x) = w"
begin

definition elem :: "mem \<Rightarrow> addr \<Rightarrow> nat \<Rightarrow> 'e" where
  "elem m a j = dec (load_bytes m (a + of_nat (w * j)) w)"

definition part :: "u8 list \<Rightarrow> nat \<Rightarrow> 'e" where
  "part src j = dec (take w (drop (w * j) src))"

lemma elem_cong:
  "(\<And>t. t < w \<Longrightarrow> m (a + of_nat (w * j + t)) = m' (a + of_nat (w * j + t))) \<Longrightarrow> elem m a j = elem m' a j"
  unfolding elem_def by (metis (no_types, lifting) add.assoc load_bytes_offset_cong of_nat_add)

lemma index_apart:
  "i \<noteq> j \<Longrightarrow> t < w \<Longrightarrow> w * j + t < w * i \<or> w * i + w \<le> w * j + (t :: nat)"
proof -
  assume "i \<noteq> j" "t < w"
  then consider "Suc j \<le> i" | "Suc i \<le> j" by linarith
  then show ?thesis
  proof cases
    case 1
    then have "w * Suc j \<le> w * i" by (rule mult_le_mono2)
    with \<open>t < w\<close> show ?thesis by simp
  next
    case 2
    then have "w * Suc i \<le> w * j" by (rule mult_le_mono2)
    then show ?thesis by simp
  qed
qed

lemma elem_store_same:
  assumes "w * Suc i \<le> 18446744073709551616"
  shows "elem (store_bytes m (a + of_nat (w * i)) (enc x)) a i = x"
  using load_store_bytes [of "enc x"] assms by (simp add: elem_def length_enc dec_enc)

lemma elem_store_other:
  assumes "i \<noteq> j" and "w * Suc i \<le> 18446744073709551616" and "w * Suc j \<le> 18446744073709551616"
  shows "elem (store_bytes m (a + of_nat (w * i)) (enc x)) a j = elem m a j"
proof (rule elem_cong)
  fix t assume "t < w"
  with index_apart [OF assms(1) this] assms(2,3)
  show "store_bytes m (a + of_nat (w * i)) (enc x) (a + of_nat (w * j + t)) = m (a + of_nat (w * j + t))"
    by (intro store_bytes_offset_other) (auto simp: length_enc)
qed

end

interpretation int32: element_codec 4 un_le32 le32
  using un_le32_le32 [of _ "[]"] by unfold_locales simp_all

lemma un_le64_le64: "un_le64 (le64 v) = v"
proof -
  have "ucast (ucast v :: u32) OR push_bit 32 (ucast (ucast (drop_bit 32 v) :: u32)) = v"
    by (intro bit_word_eqI) (auto simp: bit_simps)
  moreover have "drop 4 (le32 x @ ys) = ys" for x ys by simp
  ultimately show ?thesis using un_le32_le32 [of _ "[]"]
    by (simp add: un_le64_def le64_def)
qed

interpretation int64: element_codec 8 un_le64 le64
  by unfold_locales (simp_all add: un_le64_le64, simp add: le64_def)

lemma get64_elem: "get64 m (v + of_nat (8 * j)) = int64.elem m v j"
  by (simp add: get64_def int64.elem_def)

lemma length_le64 [simp]: "length (le64 v) = 8"
  by (simp add: le64_def)

lemma get64_put64: "get64 (put64 m a v) a = v"
  using load_store_bytes [of "le64 v" m a] by (simp only: get64_def put64_def length_le64 un_le64_le64)

text \<open>Writing one of four consecutive 64-bit fields leaves the others.\<close>

lemma get64_put64_field:
  assumes "i < 4" and "j < 4"
  shows "get64 (put64 m (a + of_nat (8 * i)) v) (a + of_nat (8 * j)) =
    (if i = j then v else get64 m (a + of_nat (8 * j)))"
  using int64.elem_store_same [of i m a v] int64.elem_store_other [of i j m a v] assms
  unfolding get64_elem put64_def by (cases "i = j") auto

lemmas field_simps64 =
  get64_put64_field [of 0, simplified] get64_put64_field [of 1, simplified]
  get64_put64_field [of 2, simplified] get64_put64_field [of 3, simplified]

end
