(* ===== verification/Neo_Mpi.thy ===== *)
theory Neo_Mpi
  imports Neo_Mpi_Queue Neo_Socket Neo_Bytes
begin

text \<open>
  Point-to-point messages of \<open>src/mpi.c\<close>: the wire format, \<open>send_raw\<close>, \<open>MPI_Send\<close>,
  \<open>recv_match\<close>, \<open>MPI_Recv\<close>, and the small queries. The socket layer is the parameter \<open>'w net\<close>,
  operations on a world of type \<open>'w\<close>:
  \<^item> \<open>net_sendto N sock to frame w\<close> is \<open>sendto\<close> on a datagram socket;
  \<^item> \<open>net_recvfrom N sock w\<close> is the next answer of \<open>recvfrom\<close> on it: a datagram, of which the
    caller's buffer receives the start, or an error with its \<open>errno\<close>; \<open>None\<close> when the call blocks
    for ever.

  The frames on the stack are byte lists; a copy between a frame and the caller's memory is
  \<open>load_bytes\<close> or \<open>store_bytes\<close>. An operation yields \<open>None\<close> when it does not return normally: it
  blocks for ever, or it overruns a buffer.
\<close>

section \<open>Constants\<close>

abbreviation (input) MPI_COMM_WORLD :: i32 where "MPI_COMM_WORLD \<equiv> 0"
abbreviation (input) MPI_SUCCESS :: i32 where "MPI_SUCCESS \<equiv> 0"
abbreviation (input) MPI_ERR_COMM :: i32 where "MPI_ERR_COMM \<equiv> 5"
abbreviation (input) MPI_ERR_COUNT :: i32 where "MPI_ERR_COUNT \<equiv> 2"
abbreviation (input) MPI_ERR_TYPE :: i32 where "MPI_ERR_TYPE \<equiv> 3"
abbreviation (input) MPI_ERR_TAG :: i32 where "MPI_ERR_TAG \<equiv> 4"
abbreviation (input) MPI_ERR_RANK :: i32 where "MPI_ERR_RANK \<equiv> 6"
abbreviation (input) MPI_ERR_OP :: i32 where "MPI_ERR_OP \<equiv> 9"
abbreviation (input) MPI_ERR_TRUNCATE :: i32 where "MPI_ERR_TRUNCATE \<equiv> 14"
abbreviation (input) MPI_ERR_OTHER :: i32 where "MPI_ERR_OTHER \<equiv> 15"
abbreviation (input) MPI_ERR_INTERN :: i32 where "MPI_ERR_INTERN \<equiv> 16"
abbreviation (input) MPI_BYTE :: i32 where "MPI_BYTE \<equiv> 0"
abbreviation (input) MPI_CHAR :: i32 where "MPI_CHAR \<equiv> 1"
abbreviation (input) MPI_INT :: i32 where "MPI_INT \<equiv> 2"
abbreviation (input) MPI_LONG :: i32 where "MPI_LONG \<equiv> 3"
abbreviation (input) MPI_DOUBLE :: i32 where "MPI_DOUBLE \<equiv> 4"
abbreviation (input) MPI_PORT_BASE :: i32 where "MPI_PORT_BASE \<equiv> 20000"
abbreviation (input) MPI_MAX_RANKS :: int where "MPI_MAX_RANKS \<equiv> 16"
abbreviation (input) MPI_TAG_UB :: int where "MPI_TAG_UB \<equiv> 0x3FFFFFFF"
abbreviation (input) AF_INET :: u16 where "AF_INET \<equiv> 2"
abbreviation (input) INADDR_LOOPBACK :: u32 where "INADDR_LOOPBACK \<equiv> 0x7F000001"

section \<open>The wire format\<close>

text \<open>The header is four little-endian 32-bit integers.\<close>

abbreviation (input) HEADER_SIZE :: nat where "HEADER_SIZE \<equiv> 16"

definition header_bytes :: "mpi_header \<Rightarrow> u8 list" where
  "header_bytes h = le32 (h_src h) @ le32 (h_tag h) @ le32 (h_count h) @ le32 (h_type h)"

definition read_header :: "u8 list \<Rightarrow> mpi_header" where
  "read_header fr = \<lparr>h_src = un_le32 fr, h_tag = un_le32 (drop 4 fr),
     h_count = un_le32 (drop 8 fr), h_type = un_le32 (drop 12 fr)\<rparr>"

section \<open>State\<close>

record sockaddr_in =
  sin_family :: u16
  sin_port :: u16
  s_addr :: u32

datatype recv_answer = RecvErr i32 | Datagram "u8 list"

record 'w net =
  net_sendto :: "i32 \<Rightarrow> sockaddr_in \<Rightarrow> u8 list \<Rightarrow> 'w \<Rightarrow> i64 \<times> 'w"
  net_recvfrom :: "i32 \<Rightarrow> 'w \<Rightarrow> (recv_answer \<times> 'w) option"

text \<open>
  The static variables of the file, the process's memory, the world, and the lines the library
  printed when it had to drop a message (rank, source, tag).
\<close>

record 'w mpi =
  mpi_rank :: i32
  mpi_size :: i32
  mpi_sock :: i32
  mpi_ready :: i32
  coll_seq :: u32
  mpi_pending :: mpi_queue
  mpi_mem :: mem
  mpi_world :: 'w
  mpi_log :: "(i32 \<times> i32 \<times> i32) list"

record MPI_Status =
  MPI_SOURCE :: i32
  MPI_TAG :: i32
  MPI_ERROR :: i32
  MPI_count :: i32

section \<open>Operations\<close>

definition coll_tag :: "u32 \<Rightarrow> u32 \<Rightarrow> i32" where
  "coll_tag seq base = 0x40000000 OR push_bit 24 base OR (seq AND 0x00FFFFFF)"

definition type_size :: "i32 \<Rightarrow> i32" where
  "type_size t =
     (if t = MPI_BYTE then 1 else if t = MPI_CHAR then 1 else if t = MPI_INT then 4
      else if t = MPI_LONG then 8 else if t = MPI_DOUBLE then 8 else - 1)"

text \<open>A query returns its code and what it stores through a non-null pointer.\<close>

definition MPI_Type_size :: "i32 \<Rightarrow> bool \<Rightarrow> i32 \<times> i32 option" where
  "MPI_Type_size type out =
     (let n = type_size type in
      if sint n < 0 then (MPI_ERR_TYPE, None)
      else (MPI_SUCCESS, if out then Some n else None))"

definition MPI_Initialized :: "bool \<Rightarrow> 'w mpi \<Rightarrow> i32 \<times> i32 option" where
  "MPI_Initialized out s = (MPI_SUCCESS, if out then Some (mpi_ready s) else None)"

definition MPI_Comm_size :: "i32 \<Rightarrow> bool \<Rightarrow> 'w mpi \<Rightarrow> i32 \<times> i32 option" where
  "MPI_Comm_size comm out s =
     (if comm \<noteq> MPI_COMM_WORLD then (MPI_ERR_COMM, None)
      else if mpi_ready s = 0 then (MPI_ERR_OTHER, None)
      else (MPI_SUCCESS, if out then Some (mpi_size s) else None))"

definition MPI_Comm_rank :: "i32 \<Rightarrow> bool \<Rightarrow> 'w mpi \<Rightarrow> i32 \<times> i32 option" where
  "MPI_Comm_rank comm out s =
     (if comm \<noteq> MPI_COMM_WORLD then (MPI_ERR_COMM, None)
      else if mpi_ready s = 0 then (MPI_ERR_OTHER, None)
      else (MPI_SUCCESS, if out then Some (mpi_rank s) else None))"

definition addr_for_rank :: "i32 \<Rightarrow> sockaddr_in" where
  "addr_for_rank rank = \<lparr>sin_family = AF_INET, sin_port = htons (ucast (MPI_PORT_BASE + rank)),
     s_addr = htonl INADDR_LOOPBACK\<rparr>"

text \<open>
  \<open>send_raw\<close> copies \<open>(uint64_t)bytes\<close> bytes into a frame with room for \<open>MPI_MAX_MESSAGE\<close>; a
  negative \<open>bytes\<close> overruns it.
\<close>

definition send_raw ::
  "'w net \<Rightarrow> i32 \<Rightarrow> i32 \<Rightarrow> i32 \<Rightarrow> i32 \<Rightarrow> addr \<Rightarrow> i32 \<Rightarrow> 'w mpi \<Rightarrow> (i32 \<times> 'w mpi) option" where
  "send_raw N dest tag type count buf bytes s =
     (if MPI_MAX_MESSAGE < unat (sext bytes) then None
      else let h = \<lparr>h_src = mpi_rank s, h_tag = tag, h_count = count, h_type = type\<rparr>;
               payload = (if bytes \<noteq> 0 then load_bytes (mpi_mem s) buf (unat (sext bytes)) else []);
               (n, w) = net_sendto N (mpi_sock s) (addr_for_rank dest) (header_bytes h @ payload)
                          (mpi_world s);
               s = s\<lparr>mpi_world := w\<rparr>
           in if sint n < 0 then Some (MPI_ERR_INTERN, s) else Some (MPI_SUCCESS, s))"

definition MPI_Send ::
  "'w net \<Rightarrow> addr \<Rightarrow> i32 \<Rightarrow> i32 \<Rightarrow> i32 \<Rightarrow> i32 \<Rightarrow> i32 \<Rightarrow> 'w mpi \<Rightarrow> (i32 \<times> 'w mpi) option" where
  "MPI_Send N buf count type dest tag comm s =
     (if comm \<noteq> MPI_COMM_WORLD then Some (MPI_ERR_COMM, s)
      else if mpi_ready s = 0 then Some (MPI_ERR_OTHER, s)
      else if sint dest < 0 \<or> sint dest \<ge> sint (mpi_size s) then Some (MPI_ERR_RANK, s)
      else if sint count < 0 then Some (MPI_ERR_COUNT, s)
      else if sint tag < 0 \<or> (sint tag > MPI_TAG_UB \<and> tag AND 0x40000000 = 0)
        then Some (MPI_ERR_TAG, s)
      else let esz = type_size type in
           if sint esz < 0 then Some (MPI_ERR_TYPE, s)
           else let bytes = count * esz in
                if sint bytes > int MPI_MAX_MESSAGE then Some (MPI_ERR_COUNT, s)
                else send_raw N dest tag type count buf bytes s)"

text \<open>
  The receive loop, on the queue, the world and the log. A datagram longer than the frame is cut;
  one shorter than a header is skipped.
\<close>

definition frame_message :: "u8 list \<Rightarrow> message option" where
  "frame_message d =
     (let fr = take (HEADER_SIZE + MPI_MAX_MESSAGE) d in
      if length fr < HEADER_SIZE then None else Some (read_header fr, drop HEADER_SIZE fr))"

partial_function (option) recv_loop ::
  "'w net \<Rightarrow> i32 \<Rightarrow> i32 \<Rightarrow> i32 \<times> i32 \<Rightarrow> mpi_queue \<times> 'w \<times> (i32 \<times> i32 \<times> i32) list \<Rightarrow>
     ((i32 + message) \<times> mpi_queue \<times> 'w \<times> (i32 \<times> i32 \<times> i32) list) option" where
  "recv_loop N sock rank k st =
     (case st of (q, w, lg) \<Rightarrow>
      (case net_recvfrom N sock w of
        None \<Rightarrow> None
      | Some (RecvErr e, w) \<Rightarrow>
          if e = EINTR then recv_loop N sock rank k (q, w, lg)
          else Some (Inl MPI_ERR_INTERN, q, w, lg)
      | Some (Datagram d, w) \<Rightarrow>
          (case frame_message d of
             None \<Rightarrow> recv_loop N sock rank k (q, w, lg)
           | Some m \<Rightarrow>
               if msg_wanted k m then Some (Inr m, q, w, lg)
               else (case queue_put m q of
                       None \<Rightarrow> None
                     | Some (kept, q) \<Rightarrow>
                         recv_loop N sock rank k
                           (q, w, if kept then lg else lg @ [(rank, h_src (fst m), h_tag (fst m))])))))"

definition recv_match ::
  "'w net \<Rightarrow> i32 \<Rightarrow> i32 \<Rightarrow> 'w mpi \<Rightarrow> ((i32 + message) \<times> 'w mpi) option" where
  "recv_match N source tag s =
     (case queue_take (source, tag) (mpi_pending s) of
        None \<Rightarrow> None
      | Some (Some m, q) \<Rightarrow> Some (Inr m, s\<lparr>mpi_pending := q\<rparr>)
      | Some (None, q) \<Rightarrow>
          map_option (\<lambda>(r, q, w, lg). (r, s\<lparr>mpi_pending := q, mpi_world := w, mpi_log := lg\<rparr>))
            (recv_loop N (mpi_sock s) (mpi_rank s) (source, tag) (q, mpi_world s, mpi_log s)))"

definition MPI_Recv ::
  "'w net \<Rightarrow> addr \<Rightarrow> i32 \<Rightarrow> i32 \<Rightarrow> i32 \<Rightarrow> i32 \<Rightarrow> i32 \<Rightarrow> bool \<Rightarrow> 'w mpi \<Rightarrow>
     (i32 \<times> MPI_Status option \<times> 'w mpi) option" where
  "MPI_Recv N buf count type source tag comm status s =
     (if comm \<noteq> MPI_COMM_WORLD then Some (MPI_ERR_COMM, None, s)
      else if mpi_ready s = 0 then Some (MPI_ERR_OTHER, None, s)
      else if source \<noteq> MPI_ANY_SOURCE \<and> (sint source < 0 \<or> sint source \<ge> sint (mpi_size s))
        then Some (MPI_ERR_RANK, None, s)
      else if sint count < 0 then Some (MPI_ERR_COUNT, None, s)
      else let esz = type_size type in
           if sint esz < 0 then Some (MPI_ERR_TYPE, None, s)
           else (case recv_match N source tag s of
                   None \<Rightarrow> None
                 | Some (Inl rc, s) \<Rightarrow> Some (rc, None, s)
                 | Some (Inr (h, data), s) \<Rightarrow>
                     let bytes = of_nat (length data);
                         st = (\<lambda>e. if status then Some \<lparr>MPI_SOURCE = h_src h, MPI_TAG = h_tag h,
                                      MPI_ERROR = e, MPI_count = bytes\<rparr> else None)
                     in if sint bytes > sint (count * esz)
                        then Some (MPI_ERR_TRUNCATE, st MPI_ERR_TRUNCATE, s)
                        else Some (MPI_SUCCESS, st MPI_SUCCESS,
                               s\<lparr>mpi_mem := store_bytes (mpi_mem s) buf data\<rparr>)))"

section \<open>The wire format round trip\<close>

lemma length_header_bytes [simp]: "length (header_bytes h) = HEADER_SIZE"
  by (simp add: header_bytes_def)

lemma read_header_bytes [simp]: "read_header (header_bytes h @ bs) = h"
  by (simp add: read_header_def header_bytes_def)

definition encode :: "message \<Rightarrow> u8 list" where
  "encode m = header_bytes (fst m) @ snd m"

lemma frame_message_encode: "msg_fits m \<Longrightarrow> frame_message (encode m) = Some m"
  by (cases m) (simp add: frame_message_def encode_def msg_fits_def)

lemma frame_message_fits: "frame_message d = Some m \<Longrightarrow> msg_fits m"
  by (auto simp: frame_message_def Let_def msg_fits_def split: if_splits)

section \<open>Receiving\<close>

text \<open>
  The abstract receive: on the answers the socket will give and the messages held back, oldest
  first. It yields the outcome, the messages held back then, and the answers left.
\<close>

fun deliver :: "(message \<Rightarrow> bool) \<Rightarrow> recv_answer list \<Rightarrow> message list \<Rightarrow>
    ((i32 + message) \<times> message list \<times> recv_answer list) option" where
  "deliver P [] ms = None"
| "deliver P (RecvErr e # as) ms =
     (if e = EINTR then deliver P as ms else Some (Inl MPI_ERR_INTERN, ms, as))"
| "deliver P (Datagram d # as) ms =
     (case frame_message d of
        None \<Rightarrow> deliver P as ms
      | Some m \<Rightarrow> if P m then Some (Inr m, ms, as)
                  else deliver P as (if length ms < PENDING_SLOTS then ms @ [m] else ms))"

definition receive :: "(message \<Rightarrow> bool) \<Rightarrow> recv_answer list \<Rightarrow> message list \<Rightarrow>
    ((i32 + message) \<times> message list \<times> recv_answer list) option" where
  "receive P as ms =
     (case take_first P ms of Some (m, ms') \<Rightarrow> Some (Inr m, ms', as) | None \<Rightarrow> deliver P as ms)"

text \<open>\<open>feeds N sock w as w'\<close>: the next answers of the socket in world \<open>w\<close> are \<open>as\<close>.\<close>

fun feeds :: "'w net \<Rightarrow> i32 \<Rightarrow> 'w \<Rightarrow> recv_answer list \<Rightarrow> 'w \<Rightarrow> bool" where
  "feeds N sock w [] w' \<longleftrightarrow> w' = w"
| "feeds N sock w (a # as) w' \<longleftrightarrow>
     (case net_recvfrom N sock w of Some (b, w1) \<Rightarrow> b = a \<and> feeds N sock w1 as w' | None \<Rightarrow> False)"

lemma recv_loop_deliver:
  assumes "queue_wf q" and "feeds N sock w as w'" and "deliver (msg_wanted k) as (content q) = Some (r, ms, rest)"
  shows "\<exists>q' w1 lg'. recv_loop N sock rank k (q, w, lg) = Some (r, q', w1, lg') \<and> queue_wf q' \<and>
           content q' = ms \<and> feeds N sock w1 rest w'"
  using assms
proof (induction as arbitrary: q w lg)
  case (Cons a as)
  from Cons.prems(2) obtain w1 where w1: "net_recvfrom N sock w = Some (a, w1)" "feeds N sock w1 as w'"
    by (auto split: option.splits)
  show ?case
  proof (cases a)
    case (RecvErr e)
    with Cons w1 show ?thesis by (subst recv_loop.simps) (auto split: if_splits)
  next
    case (Datagram d)
    note d = this
    show ?thesis
    proof (cases "frame_message d")
      case None
      with Cons.prems(3) d have "deliver (msg_wanted k) as (content q) = Some (r, ms, rest)" by simp
      from Cons.IH [OF Cons.prems(1) w1(2) this] None d w1 show ?thesis
        by (subst recv_loop.simps) simp
    next
      case (Some m)
      show ?thesis
      proof (cases "msg_wanted k m")
        case True
        with Cons.prems Some d w1 show ?thesis by (subst recv_loop.simps) auto
      next
        case False
        have "\<exists>b q1. queue_put m q = Some (b, q1) \<and> queue_wf q1 \<and> content q1 =
            (if length (content q) < PENDING_SLOTS then content q @ [m] else content q)"
          using unexpected.put_room [OF Cons.prems(1) frame_message_fits [OF Some]]
            unexpected.put_full [OF Cons.prems(1)] Cons.prems(1) by auto
        then obtain b q1 where q1: "queue_put m q = Some (b, q1)" "queue_wf q1" "content q1 =
            (if length (content q) < PENDING_SLOTS then content q @ [m] else content q)" by blast
        from Cons.prems(3) Some False d q1(3)
        have "deliver (msg_wanted k) as (content q1) = Some (r, ms, rest)" by simp
        from Cons.IH [OF q1(2) w1(2) this] Some False d w1 q1(1) show ?thesis
          by (subst recv_loop.simps) simp
      qed
    qed
  qed
qed simp

lemma recv_match_receive:
  assumes wf: "queue_wf (mpi_pending s)" and fd: "feeds N (mpi_sock s) (mpi_world s) as w'"
    and rc: "receive (msg_wanted (source, tag)) as (content (mpi_pending s)) = Some (r, ms, rest)"
  shows "\<exists>q w lg. recv_match N source tag s =
             Some (r, s\<lparr>mpi_pending := q, mpi_world := w, mpi_log := lg\<rparr>) \<and>
           queue_wf q \<and> content q = ms \<and> feeds N (mpi_sock s) w rest w'"
proof (cases "take_first (msg_wanted (source, tag)) (content (mpi_pending s))")
  case None
  with rc have "deliver (msg_wanted (source, tag)) as (content (mpi_pending s)) = Some (r, ms, rest)"
    by (simp add: receive_def)
  from recv_loop_deliver [OF wf fd this, of "mpi_rank s" "mpi_log s"]
    unexpected.take_miss [OF wf None]
  show ?thesis by (fastforce simp: recv_match_def)
next
  case (Some p)
  obtain m ms' where p: "p = (m, ms')" by (cases p)
  with Some rc have eq: "r = Inr m" "ms = ms'" "rest = as" by (simp_all add: receive_def)
  from unexpected.take_hit [OF wf Some [unfolded p]] obtain q' where
    q': "queue_take (source, tag) (mpi_pending s) = Some (Some m, q')" "queue_wf q'" "content q' = ms'"
    by blast
  have "s\<lparr>mpi_pending := q', mpi_world := mpi_world s, mpi_log := mpi_log s\<rparr> = s\<lparr>mpi_pending := q'\<rparr>"
    by simp
  with q' fd show ?thesis unfolding eq recv_match_def
    by (intro exI [of _ q'] exI [of _ "mpi_world s"] exI [of _ "mpi_log s"]) simp
qed

text \<open>
  While there is room, the held-back messages and the arrivals together are one list from which
  a receive removes the first match.
\<close>

abbreviation arrivals :: "message list \<Rightarrow> recv_answer list" where
  "arrivals ms \<equiv> map (\<lambda>m. Datagram (encode m)) ms"

lemma deliver_arrivals:
  assumes "\<forall>m\<in>set ms. msg_fits m" and "length hs + length ms \<le> PENDING_SLOTS"
    and "\<forall>m\<in>set hs. \<not> P m" and "take_first P ms = Some (m, rest)"
  shows "\<exists>us vs. deliver P (arrivals ms) hs = Some (Inr m, hs @ us, arrivals vs) \<and> rest = us @ vs"
  using assms
proof (induction ms arbitrary: hs rest)
  case (Cons x xs)
  show ?case
  proof (cases "P x")
    case True
    with Cons.prems show ?thesis by (auto simp: frame_message_encode intro!: exI [of _ "[]"])
  next
    case False
    with Cons.prems obtain rest' where r: "take_first P xs = Some (m, rest')" "rest = x # rest'"
      by auto
    from Cons.IH [of "hs @ [x]" rest'] Cons.prems False r obtain us vs where
      "deliver P (arrivals xs) (hs @ [x]) = Some (Inr m, (hs @ [x]) @ us, arrivals vs)"
      "rest' = us @ vs" by auto
    with Cons.prems False r show ?thesis
      by (intro exI [of _ "x # us"] exI [of _ vs]) (simp add: frame_message_encode)
  qed
qed simp

lemma receive_arrivals:
  assumes "\<forall>m\<in>set ms. msg_fits m" and "length hs + length ms \<le> PENDING_SLOTS"
    and "take_first P (hs @ ms) = Some (m, rest)"
  shows "\<exists>us vs. receive P (arrivals ms) hs = Some (Inr m, us, arrivals vs) \<and> rest = us @ vs"
proof (cases "take_first P hs")
  case None
  then have no: "\<forall>x\<in>set hs. \<not> P x" by (simp add: take_first_None)
  with assms(3) obtain r where "take_first P ms = Some (m, r)" "rest = hs @ r"
    by (auto simp: take_first_skip)
  with deliver_arrivals [OF assms(1,2) no] None show ?thesis by (fastforce simp: receive_def)
next
  case (Some p)
  obtain x xs where p: "p = (x, xs)" by (cases p)
  from take_first_Some_split [OF Some [unfolded p]] obtain as bs where
    s: "hs = as @ x # bs" "xs = as @ bs" "P x" "\<forall>y\<in>set as. \<not> P y" by blast
  with assms(3) take_first_found [of as P x "bs @ ms"] have "m = x" "rest = xs @ ms" by simp_all
  with Some p show ?thesis by (simp add: receive_def)
qed

section \<open>Sending\<close>

definition message_of ::
  "'w mpi \<Rightarrow> addr \<Rightarrow> i32 \<Rightarrow> i32 \<Rightarrow> i32 \<Rightarrow> message" where
  "message_of s buf count type tag =
     (\<lparr>h_src = mpi_rank s, h_tag = tag, h_count = count, h_type = type\<rparr>,
      load_bytes (mpi_mem s) buf (nat (sint count * sint (type_size type))))"

definition send_valid :: "'w mpi \<Rightarrow> i32 \<Rightarrow> i32 \<Rightarrow> i32 \<Rightarrow> i32 \<Rightarrow> bool" where
  "send_valid s count type dest tag \<longleftrightarrow>
     mpi_ready s \<noteq> 0 \<and> 0 \<le> sint dest \<and> sint dest < sint (mpi_size s) \<and> 0 \<le> sint count \<and>
     0 \<le> sint tag \<and> 0 < sint (type_size type) \<and>
     sint count * sint (type_size type) \<le> int MPI_MAX_MESSAGE"

text \<open>
  The second half of the tag test can never hold: an \<open>int\<close> above \<open>MPI_TAG_UB\<close> has bit 30 set.
  So \<open>MPI_Send\<close> rejects negative tags only, and accepts the library's own tags.
\<close>

lemma tag_bound_test_dead:
  assumes "sint (tag :: i32) > MPI_TAG_UB"
  shows "tag AND 0x40000000 \<noteq> 0"
proof -
  from assms have "bit tag 30" by (intro bit_top_of_range) simp
  then have "bit (tag AND 0x40000000) 30" by (simp add: bit_simps)
  then show ?thesis by (metis bit_0_eq bot_apply bot_bool_def)
qed

lemma MPI_Send_valid:
  assumes "send_valid s count type dest tag"
  shows "MPI_Send N buf count type dest tag MPI_COMM_WORLD s =
     (let (n, w) = net_sendto N (mpi_sock s) (addr_for_rank dest)
                     (encode (message_of s buf count type tag)) (mpi_world s)
      in Some (if sint n < 0 then MPI_ERR_INTERN else MPI_SUCCESS, s\<lparr>mpi_world := w\<rparr>))"
    and "msg_fits (message_of s buf count type tag)"
proof -
  note v = assms [unfolded send_valid_def]
  have b: "sint (count * type_size type) = sint count * sint (type_size type)"
    using v by (intro sint_mult_i32) auto
  then have u: "unat (sext (count * type_size type)) = nat (sint count * sint (type_size type))"
    using v by (simp add: unat_sext_nonneg)
  have le: "\<not> MPI_MAX_MESSAGE < nat (sint count * sint (type_size type))" using v by linarith
  then show "msg_fits (message_of s buf count type tag)"
    by (simp add: msg_fits_def message_of_def)
  have raw: "MPI_Send N buf count type dest tag MPI_COMM_WORLD s =
      send_raw N dest tag type count buf (count * type_size type) s"
  proof -
    have "\<not> (sint tag > MPI_TAG_UB \<and> tag AND 0x40000000 = 0)" using tag_bound_test_dead by blast
    with v b show ?thesis by (auto simp: MPI_Send_def Let_def)
  qed
  show "MPI_Send N buf count type dest tag MPI_COMM_WORLD s =
     (let (n, w) = net_sendto N (mpi_sock s) (addr_for_rank dest)
                     (encode (message_of s buf count type tag)) (mpi_world s)
      in Some (if sint n < 0 then MPI_ERR_INTERN else MPI_SUCCESS, s\<lparr>mpi_world := w\<rparr>))"
  proof (cases "count * type_size type = 0")
    case True
    with b have "nat (sint count * sint (type_size type)) = 0" by (metis nat_0 signed_0)
    with True show ?thesis
      unfolding raw by (simp add: send_raw_def Let_def encode_def message_of_def split_def)
  next
    case False
    with u le show ?thesis
      unfolding raw by (simp add: send_raw_def Let_def encode_def message_of_def split_def)
  qed
qed

lemma MPI_Recv_gets:
  assumes "mpi_ready s \<noteq> 0" and "0 \<le> sint count" and "0 < sint (type_size type)"
    and "source = MPI_ANY_SOURCE \<or> 0 \<le> sint source \<and> sint source < sint (mpi_size s)"
    and "recv_match N source tag s = Some (Inr (h, data), s')" and "length data \<le> MPI_MAX_MESSAGE"
    and "int (length data) \<le> sint count * sint (type_size type)"
    and "sint count * sint (type_size type) < 2147483648"
  shows "MPI_Recv N buf count type source tag MPI_COMM_WORLD status s =
     Some (MPI_SUCCESS, if status then Some \<lparr>MPI_SOURCE = h_src h, MPI_TAG = h_tag h,
             MPI_ERROR = MPI_SUCCESS, MPI_count = of_nat (length data)\<rparr> else None, s'\<lparr>mpi_mem := store_bytes (mpi_mem s') buf data\<rparr>)"
proof -
  have "\<not> sint (of_nat (length data) :: i32) > sint (count * type_size type)"
    using assms(2,3,6-8) by (simp add: sint_of_nat_small sint_mult_i32)
  moreover have "\<not> (source \<noteq> MPI_ANY_SOURCE \<and> (sint source < 0 \<or> sint source \<ge> sint (mpi_size s)))"
    using assms(4) by auto
  ultimately show ?thesis
    using assms(1-3,5) by (simp add: MPI_Recv_def Let_def)
qed

lemma MPI_Recv_delivers:
  assumes "send_valid a count type dest tag"
    and "mpi_ready b \<noteq> 0" and "queue_wf (mpi_pending b)"
    and "source = MPI_ANY_SOURCE \<or>
         source = mpi_rank a \<and> 0 \<le> sint source \<and> sint source < sint (mpi_size b)"
    and "rtag = MPI_ANY_TAG \<or> rtag = tag"
    and "\<forall>m\<in>set (content (mpi_pending b)). \<not> msg_wanted (source, rtag) m"
    and "net_recvfrom M (mpi_sock b) (mpi_world b) =
           Some (Datagram (encode (message_of a buf count type tag)), w')"
  shows "\<exists>b' st. MPI_Recv M rbuf count type source rtag MPI_COMM_WORLD status b =
           Some (MPI_SUCCESS, st, b') \<and>
         st = (if status then Some \<lparr>MPI_SOURCE = mpi_rank a, MPI_TAG = tag, MPI_ERROR = MPI_SUCCESS,
             MPI_count = count * type_size type\<rparr> else None) \<and>
         bytes_at (mpi_mem b') rbuf
           (load_bytes (mpi_mem a) buf (nat (sint count * sint (type_size type))))"
proof -
  note v = assms(1) [unfolded send_valid_def]
  let ?m = "message_of a buf count type tag"
  let ?n = "nat (sint count * sint (type_size type))"
  have w: "msg_wanted (source, rtag) ?m"
    using assms(4,5) by (auto simp: msg_wanted_def matches_def message_of_def)
  have f: "msg_fits ?m" by (rule MPI_Send_valid(2) [OF assms(1)])
  have "receive (msg_wanted (source, rtag)) (arrivals [?m]) (content (mpi_pending b)) =
      Some (Inr ?m, content (mpi_pending b), [])"
    using assms(6) w f
    by (simp add: receive_def frame_message_encode take_first_None [THEN iffD2])
  from recv_match_receive [OF assms(3) _ this, of M w'] assms(7) obtain s'
    where r: "recv_match M source rtag b = Some (Inr ?m, s')" by auto
  have "of_nat ?n = count * type_size type"
  proof -
    have "0 \<le> sint count * sint (type_size type)" using v by simp
    then have "(of_nat ?n :: i32) = word_of_int (sint count * sint (type_size type))"
      by (metis nat_0_le of_int_of_nat_eq)
    then show ?thesis by simp
  qed
  moreover have "source = MPI_ANY_SOURCE \<or> 0 \<le> sint source \<and> sint source < sint (mpi_size b)"
    using assms(4) by blast
  ultimately show ?thesis
    using MPI_Recv_gets [OF assms(2) _ _ _ r [unfolded message_of_def], of count type rbuf status] v f
    by (fastforce simp: msg_fits_def message_of_def intro!: bytes_at_store)
qed

section \<open>Collective tags\<close>

abbreviation (input) COLL_BARRIER_IN :: u32 where "COLL_BARRIER_IN \<equiv> 1"
abbreviation (input) COLL_BARRIER_OUT :: u32 where "COLL_BARRIER_OUT \<equiv> 2"
abbreviation (input) COLL_BCAST :: u32 where "COLL_BCAST \<equiv> 3"
abbreviation (input) COLL_REDUCE :: u32 where "COLL_REDUCE \<equiv> 4"
abbreviation (input) TAG_HELLO :: i32 where "TAG_HELLO \<equiv> 0x7F000005"
abbreviation (input) TAG_GO :: i32 where "TAG_GO \<equiv> 0x7F000006"

lemma bit_coll_tag:
  "bit (coll_tag seq base) n \<longleftrightarrow>
     n = 30 \<or> (24 \<le> n \<and> n < 32 \<and> bit base (n - 24)) \<or> (n < 24 \<and> bit seq n)"
proof -
  have "(0x40000000 :: i32) = push_bit 30 1" "(0x00FFFFFF :: u32) = mask 24"
    by (simp_all add: mask_eq_exp_minus_1 push_bit_eq_mult)
  then have c: "coll_tag seq base = push_bit 30 1 OR push_bit 24 base OR (seq AND mask 24)"
    by (simp only: coll_tag_def)
  show ?thesis
    unfolding c bit_or_iff bit_and_iff bit_push_bit_iff bit_mask_iff bit_1_iff
    by (auto simp: possible_bit_def)
qed

lemma bit_small_base:
  assumes "(base :: u32) < 5" and "bit base n"
  shows "n < 3"
proof -
  from assms(1) have "uint base < 5" by (simp add: word_less_def)
  then have "take_bit 3 (uint base) = uint base" by (simp add: take_bit_int_eq_self_iff)
  moreover from assms(2) have "bit (uint base) n" 
    by (metis bit_imp_le_length bit_uint_iff)
  ultimately show ?thesis by (metis bit_take_bit_iff)
qed

lemma coll_tag_inject:
  assumes "b < 5" and "b' < 5" and "coll_tag seq b = coll_tag seq' b'"
  shows "b = b' \<and> take_bit 24 seq = take_bit 24 seq'"
proof -
  have eq: "bit (coll_tag seq b) n = bit (coll_tag seq' b') n" for n using assms(3) by simp
  have "bit b n = bit b' n" for n
  proof (cases "n < 3")
    case True
    with eq [of "n + 24"] show ?thesis by (auto simp: bit_coll_tag)
  qed (use assms bit_small_base in blast)
  then have "b = b'" by (intro bit_word_eqI) simp
  moreover have "take_bit 24 seq = take_bit 24 seq'"
  proof (rule bit_word_eqI)
    fix n show "bit (take_bit 24 seq) n = bit (take_bit 24 seq') n"
      using eq [of n] by (auto simp: bit_coll_tag bit_simps)
  qed
  ultimately show ?thesis by simp
qed

lemma coll_tag_above:
  assumes "b < 5"
  shows "MPI_TAG_UB < sint (coll_tag seq b)" and "coll_tag seq b \<noteq> TAG_HELLO"
    and "coll_tag seq b \<noteq> TAG_GO"
proof -
  let ?t = "coll_tag seq b"
  have no: "\<not> bit ?t n" if "27 \<le> n" "n \<noteq> 30" for n
    using that bit_small_base [OF assms, of "n - 24"] by (auto simp: bit_coll_tag)
  have "\<not> bit ?t 27" by (rule no) simp_all
  moreover have "bit TAG_HELLO 27" "bit TAG_GO 27" by (simp_all add: bit_simps)
  ultimately show "?t \<noteq> TAG_HELLO" "?t \<noteq> TAG_GO" by metis+
  have "bit (sint ?t) n = bit (uint ?t) n" for n
    using no [of 31] no [of n] by (auto simp: bit_simps min_def)
  then have "sint ?t = uint ?t" by (intro bit_eqI) simp
  moreover have "odd (uint ?t div 1073741824)"
  proof -
    have "bit (uint ?t) 30" by (simp add: bit_uint_iff bit_coll_tag)
    then show ?thesis by (simp add: bit_iff_odd)
  qed
  then have "\<not> uint ?t < 1073741824" by auto
  ultimately show "MPI_TAG_UB < sint ?t" by simp
qed

section \<open>A concrete network\<close>

text \<open>One queue of answers; a send appends to it, a receive on the empty queue blocks.\<close>

definition loop_net :: "recv_answer list net" where
  "loop_net = \<lparr>net_sendto = (\<lambda>sock to fr w. (0, w @ [Datagram fr])),
     net_recvfrom = (\<lambda>sock w. case w of [] \<Rightarrow> None | a # as \<Rightarrow> Some (a, as))\<rparr>"

lemma loop_net_simps [simp]:
  "net_recvfrom loop_net sock (a # as) = Some (a, as)"
  "net_sendto loop_net sock to fr w = (0, w @ [Datagram fr])"
  by (simp_all add: loop_net_def)

lemma feeds_loop_net: "feeds loop_net sock (as @ bs) as bs"
  by (induction as) auto

definition rank_state :: "i32 \<Rightarrow> i32 \<Rightarrow> mem \<Rightarrow> 'w \<Rightarrow> 'w mpi" where
  "rank_state r n m w = \<lparr>mpi_rank = r, mpi_size = n, mpi_sock = 3, mpi_ready = 1, coll_seq = 0,
     mpi_pending = empty_queue, mpi_mem = m, mpi_world = w, mpi_log = []\<rparr>"

lemma rank_state_simps [simp]:
  "mpi_rank (rank_state r n m w) = r" "mpi_size (rank_state r n m w) = n"
  "mpi_sock (rank_state r n m w) = 3" "mpi_ready (rank_state r n m w) = 1"
  "coll_seq (rank_state r n m w) = 0" "mpi_pending (rank_state r n m w) = empty_queue"
  "mpi_mem (rank_state r n m w) = m" "mpi_world (rank_state r n m w) = w"
  "mpi_log (rank_state r n m w) = []"
  by (simp_all add: rank_state_def)

definition rank1 :: "recv_answer list mpi" where
  "rank1 = rank_state 1 4 (\<lambda>_. 9) []"

lemma rank1_simps [simp]:
  "mpi_rank rank1 = 1" "mpi_size rank1 = 4" "mpi_ready rank1 = 1" "coll_seq rank1 = 0"
  "mpi_mem rank1 = (\<lambda>_. 9)"
  by (simp_all add: rank1_def)

definition msg1 :: message where
  "msg1 = (\<lparr>h_src = 1, h_tag = 7, h_count = 1, h_type = MPI_BYTE\<rparr>, [65])"

definition msg2 :: message where
  "msg2 = (\<lparr>h_src = 2, h_tag = 9, h_count = 1, h_type = MPI_BYTE\<rparr>, [66])"

section \<open>Properties\<close>

text \<open>
  C2. Receive matching loses nothing and reorders nothing. Let the messages \<open>ms\<close> arrive in this
  order, and let the held-back messages and the arrivals fit the sixteen slots. Then \<open>recv_match\<close>
  returns the first message, held back or arriving, that matches the requested source and tag;
  and the messages held back afterwards followed by those still to arrive are exactly the
  others, in their old order. So it behaves as a single list from which the first match is
  removed, and messages of one sender under one tag are received in the order they were sent.
\<close>

theorem recv_match_first_in_order:
  assumes "queue_wf (mpi_pending s)" and "\<forall>m\<in>set ms. msg_fits m"
    and "feeds N (mpi_sock s) (mpi_world s) (arrivals ms) w'"
    and "length (content (mpi_pending s)) + length ms \<le> 16"
    and "take_first (msg_wanted (source, tag)) (content (mpi_pending s) @ ms) = Some (m, rest)"
  shows "\<exists>s' later. recv_match N source tag s = Some (Inr m, s') \<and> queue_wf (mpi_pending s') \<and>
           content (mpi_pending s') @ later = rest \<and>
           feeds N (mpi_sock s) (mpi_world s') (arrivals later) w' \<and> mpi_mem s' = mpi_mem s"
proof -
  from receive_arrivals [OF assms(2,4,5)] obtain us vs where
    r: "receive (msg_wanted (source, tag)) (arrivals ms) (content (mpi_pending s)) =
         Some (Inr m, us, arrivals vs)" "rest = us @ vs" by blast
  from recv_match_receive [OF assms(1,3) r(1)] obtain q w lg where
    "recv_match N source tag s = Some (Inr m, s\<lparr>mpi_pending := q, mpi_world := w, mpi_log := lg\<rparr>)"
    "queue_wf q" "content q = us" "feeds N (mpi_sock s) w (arrivals vs) w'" by blast
  with r(2) show ?thesis by fastforce
qed

theorem recv_match_first_in_order_witness:
  "\<exists>s' later. recv_match loop_net 2 MPI_ANY_TAG
       (rank_state 0 4 (\<lambda>_. 0) (arrivals [msg1, msg2, msg1])) = Some (Inr msg2, s') \<and>
     queue_wf (mpi_pending s') \<and> content (mpi_pending s') @ later = [msg1, msg1] \<and>
     feeds loop_net 3 (mpi_world s') (arrivals later) [] \<and> mpi_mem s' = (\<lambda>_. 0)"
  using recv_match_first_in_order [of "rank_state 0 4 (\<lambda>_. 0) (arrivals [msg1, msg2, msg1])"
      "[msg1, msg2, msg1]" loop_net "[]" 2 "MPI_ANY_TAG" msg2 "[msg1, msg1]"]
    feeds_loop_net [of 3 "arrivals [msg1, msg2, msg1]" "[]"]
  by (simp add: empty_queue_wf content_empty msg_fits_def msg_wanted_def matches_def msg1_def
      msg2_def)

text \<open>
  C11. \<open>recv_match\<close> in full: on any sequence of answers of the socket, it does what the abstract
  receive does on lists: a held-back match first; otherwise interrupted calls and runts are
  skipped, another error ends the call with \<open>MPI_ERR_INTERN\<close>, a match is returned, any other
  message is held back, or dropped when sixteen are. The list operations on the pool always
  return, and nothing else in the state changes.
\<close>

theorem recv_match_refines_receive:
  assumes "queue_wf (mpi_pending s)" and "feeds N (mpi_sock s) (mpi_world s) as w'"
    and "receive (msg_wanted (source, tag)) as (content (mpi_pending s)) = Some (r, ms, rest)"
  shows "\<exists>q w lg. recv_match N source tag s =
             Some (r, s\<lparr>mpi_pending := q, mpi_world := w, mpi_log := lg\<rparr>) \<and>
           queue_wf q \<and> content q = ms \<and> feeds N (mpi_sock s) w rest w'"
  using assms by (rule recv_match_receive)

theorem recv_match_refines_receive_witness:
  "\<exists>q w lg. recv_match loop_net 1 7
       (rank_state 0 4 (\<lambda>_. 0) [RecvErr EINTR, Datagram [1], RecvErr EBADF]) =
     Some (Inl MPI_ERR_INTERN, (rank_state 0 4 (\<lambda>_. 0) [RecvErr EINTR, Datagram [1], RecvErr EBADF])
       \<lparr>mpi_pending := q, mpi_world := w, mpi_log := lg\<rparr>) \<and> queue_wf q \<and> content q = [] \<and>
     feeds loop_net (mpi_sock (rank_state 0 4 (\<lambda>_. 0)
       [RecvErr EINTR, Datagram [1], RecvErr EBADF])) w [] []"
  by (rule recv_match_refines_receive [of _ _ "[RecvErr EINTR, Datagram [1], RecvErr EBADF]"])
    (use feeds_loop_net [of 3 "[RecvErr EINTR, Datagram [1], RecvErr EBADF]" "[]"] in
      \<open>simp_all add: empty_queue_wf content_empty receive_def frame_message_def\<close>)



text \<open>
  C39. The tags of the collectives are above \<open>MPI_TAG_UB\<close>, differ from the two tags of the
  startup handshake, and two of them are equal only for the same operation and the same sequence
  number modulo \<open>2 ^ 24\<close>.
\<close>

theorem coll_tags_separate:
  assumes "b \<in> {COLL_BARRIER_IN, COLL_BARRIER_OUT, COLL_BCAST, COLL_REDUCE}"
    and "b' \<in> {COLL_BARRIER_IN, COLL_BARRIER_OUT, COLL_BCAST, COLL_REDUCE}"
  shows "MPI_TAG_UB < sint (coll_tag seq b) \<and> coll_tag seq b \<notin> {TAG_HELLO, TAG_GO} \<and>
         (coll_tag seq b = coll_tag seq' b' \<longrightarrow> b = b' \<and> take_bit 24 seq = take_bit 24 seq')"
proof -
  have "b < 5" "b' < 5" using assms by auto
  then show ?thesis using coll_tag_above [of b seq] coll_tag_inject [of b b' seq seq'] by blast
qed

theorem coll_tags_separate_witness:
  "MPI_TAG_UB < sint (coll_tag 5 COLL_BCAST) \<and> coll_tag 5 COLL_BCAST \<noteq> coll_tag 6 COLL_BCAST"
proof -
  have "take_bit 24 5 \<noteq> (take_bit 24 6 :: u32)" by (simp add: take_bit_eq_mod)
  with coll_tags_separate [of COLL_BCAST COLL_BCAST 5 6] show ?thesis by blast
qed

text \<open>
  Two consequences of the argument tests. The tag test rejects negative tags only, although its
  comment says that tags above the bound are refused. And the byte count is computed in \<open>int\<close>:
  a count of \<open>2 ^ 29\<close> integers has a negative product, which passes the size test and overruns
  the frame.
\<close>

lemma MPI_Send_accepts_library_tags:
  assumes "0 \<le> sint (tag :: i32)"
  shows "\<not> (sint tag < 0 \<or> (sint tag > MPI_TAG_UB \<and> tag AND 0x40000000 = 0))"
  using assms tag_bound_test_dead [of tag] by auto

lemma MPI_Send_count_overflow:
  assumes "mpi_ready s \<noteq> 0" and "0 \<le> sint dest" and "sint dest < sint (mpi_size s)"
  shows "MPI_Send N buf 0x20000000 MPI_INT dest 0 MPI_COMM_WORLD s = None"
  using assms by (simp add: MPI_Send_def send_raw_def type_size_def)

end
