(* ===== verification/Neo_Mpi_Coll.thy ===== *)
theory Neo_Mpi_Coll
  imports Neo_Mpi "HOL-Library.Multiset"
begin

text \<open>
  The collectives of \<open>src/mpi.c\<close>: \<open>MPI_Barrier\<close>, \<open>MPI_Bcast\<close>, \<open>reduce_apply\<close>, \<open>MPI_Reduce\<close> and
  \<open>MPI_Allreduce\<close>, over the point-to-point layer. Arrays of \<open>int\<close> and \<open>long\<close> live in the
  process's memory in little-endian order. Arithmetic on \<open>double\<close> is the parameter record
  \<open>fpu\<close>, operations on the 64-bit representation, of which nothing is assumed. The barrier's
  token is a byte on the stack, at the address \<open>tok\<close>.
\<close>

section \<open>Elements\<close>

abbreviation (input) MPI_SUM :: i32 where "MPI_SUM \<equiv> 0"
abbreviation (input) MPI_PROD :: i32 where "MPI_PROD \<equiv> 1"
abbreviation (input) MPI_MAX :: i32 where "MPI_MAX \<equiv> 2"
abbreviation (input) MPI_MIN :: i32 where "MPI_MIN \<equiv> 3"

record fpu =
  f_add :: "u64 \<Rightarrow> u64 \<Rightarrow> u64"
  f_mul :: "u64 \<Rightarrow> u64 \<Rightarrow> u64"
  f_less :: "u64 \<Rightarrow> u64 \<Rightarrow> bool"

text \<open>The inner switch: the operation on one pair of elements, \<open>None\<close> for an unknown operator.\<close>

definition op_int :: "i32 \<Rightarrow> (i32 \<Rightarrow> i32 \<Rightarrow> i32) option" where
  "op_int op =
     (if op = MPI_SUM then Some (\<lambda>d s. d + s) else if op = MPI_PROD then Some (\<lambda>d s. d * s)
      else if op = MPI_MAX then Some (\<lambda>d s. if sint s > sint d then s else d)
      else if op = MPI_MIN then Some (\<lambda>d s. if sint s < sint d then s else d) else None)"

definition op_long :: "i32 \<Rightarrow> (i64 \<Rightarrow> i64 \<Rightarrow> i64) option" where
  "op_long op =
     (if op = MPI_SUM then Some (\<lambda>d s. d + s) else if op = MPI_PROD then Some (\<lambda>d s. d * s)
      else if op = MPI_MAX then Some (\<lambda>d s. if sint s > sint d then s else d)
      else if op = MPI_MIN then Some (\<lambda>d s. if sint s < sint d then s else d) else None)"

definition op_double :: "fpu \<Rightarrow> i32 \<Rightarrow> (u64 \<Rightarrow> u64 \<Rightarrow> u64) option" where
  "op_double F op =
     (if op = MPI_SUM then Some (f_add F) else if op = MPI_PROD then Some (f_mul F)
      else if op = MPI_MAX then Some (\<lambda>d s. if f_less F d s then s else d)
      else if op = MPI_MIN then Some (\<lambda>d s. if f_less F s d then s else d) else None)"

text \<open>
  The loop over the elements: index \<open>i\<close>, \<open>k\<close> elements left, \<open>w\<close> bytes each. The source array is
  the received message.
\<close>

fun reduce_loop ::
  "nat \<Rightarrow> (u8 list \<Rightarrow> 'e) \<Rightarrow> ('e \<Rightarrow> u8 list) \<Rightarrow> ('e \<Rightarrow> 'e \<Rightarrow> 'e) option \<Rightarrow> addr \<Rightarrow> u8 list \<Rightarrow>
     nat \<Rightarrow> nat \<Rightarrow> mem \<Rightarrow> i32 \<times> mem" where
  "reduce_loop w dec enc f dst src i 0 m = (MPI_SUCCESS, m)"
| "reduce_loop w dec enc f dst src i (Suc k) m =
     (case f of
        None \<Rightarrow> (MPI_ERR_OP, m)
      | Some g \<Rightarrow>
          let a = dst + of_nat (w * i);
              d = dec (load_bytes m a w);
              s = dec (take w (drop (w * i) src))
          in reduce_loop w dec enc f dst src (Suc i) k (store_bytes m a (enc (g d s))))"

definition reduce_apply ::
  "fpu \<Rightarrow> addr \<Rightarrow> u8 list \<Rightarrow> i32 \<Rightarrow> i32 \<Rightarrow> i32 \<Rightarrow> mem \<Rightarrow> i32 \<times> mem" where
  "reduce_apply F dst src cnt type op m =
     (if type = MPI_INT
      then reduce_loop 4 un_le32 le32 (op_int op) dst src 0 (nat (sint cnt)) m
      else if type = MPI_LONG
      then reduce_loop 8 un_le64 le64 (op_long op) dst src 0 (nat (sint cnt)) m
      else if type = MPI_DOUBLE
      then reduce_loop 8 un_le64 le64 (op_double F op) dst src 0 (nat (sint cnt)) m
      else (MPI_ERR_TYPE, m))"

section \<open>The collectives\<close>

text \<open>Send or receive a number of times, stopping at the first error.\<close>

fun recv_tokens :: "'w net \<Rightarrow> addr \<Rightarrow> i32 \<Rightarrow> i32 \<Rightarrow> nat \<Rightarrow> 'w mpi \<Rightarrow> (i32 \<times> 'w mpi) option" where
  "recv_tokens N tok tag comm 0 s = Some (MPI_SUCCESS, s)"
| "recv_tokens N tok tag comm (Suc k) s =
     (case MPI_Recv N tok 1 MPI_BYTE MPI_ANY_SOURCE tag comm False s of
        None \<Rightarrow> None
      | Some (rc, _, s) \<Rightarrow>
          if rc \<noteq> MPI_SUCCESS then Some (rc, s) else recv_tokens N tok tag comm k s)"

fun send_to_ranks ::
  "'w net \<Rightarrow> addr \<Rightarrow> i32 \<Rightarrow> i32 \<Rightarrow> i32 \<Rightarrow> i32 \<Rightarrow> i32 list \<Rightarrow> 'w mpi \<Rightarrow> (i32 \<times> 'w mpi) option" where
  "send_to_ranks N buf cnt type tag comm [] s = Some (MPI_SUCCESS, s)"
| "send_to_ranks N buf cnt type tag comm (r # rs) s =
     (case MPI_Send N buf cnt type r tag comm s of
        None \<Rightarrow> None
      | Some (rc, s) \<Rightarrow>
          if rc \<noteq> MPI_SUCCESS then Some (rc, s) else send_to_ranks N buf cnt type tag comm rs s)"

definition ranks_from :: "nat \<Rightarrow> i32 \<Rightarrow> i32 list" where
  "ranks_from lo n = map of_nat [lo ..< nat (sint n)]"

definition MPI_Barrier :: "'w net \<Rightarrow> addr \<Rightarrow> i32 \<Rightarrow> 'w mpi \<Rightarrow> (i32 \<times> 'w mpi) option" where
  "MPI_Barrier N tok comm s =
     (if comm \<noteq> MPI_COMM_WORLD then Some (MPI_ERR_COMM, s)
      else if mpi_ready s = 0 then Some (MPI_ERR_OTHER, s)
      else if mpi_size s = 1 then Some (MPI_SUCCESS, s)
      else let s = s\<lparr>coll_seq := coll_seq s + 1\<rparr>;
               tag_in = coll_tag (coll_seq s) COLL_BARRIER_IN;
               tag_out = coll_tag (coll_seq s) COLL_BARRIER_OUT;
               s = s\<lparr>mpi_mem := (mpi_mem s)(tok := 0)\<rparr>
           in if mpi_rank s = 0 then
                (case recv_tokens N tok tag_in comm (nat (sint (mpi_size s)) - 1) s of
                   None \<Rightarrow> None
                 | Some (rc, s) \<Rightarrow>
                     if rc \<noteq> MPI_SUCCESS then Some (rc, s)
                     else send_to_ranks N tok 1 MPI_BYTE tag_out comm (ranks_from 1 (mpi_size s)) s)
              else
                (case MPI_Send N tok 1 MPI_BYTE 0 tag_in comm s of
                   None \<Rightarrow> None
                 | Some (rc, s) \<Rightarrow>
                     if rc \<noteq> MPI_SUCCESS then Some (rc, s)
                     else (case MPI_Recv N tok 1 MPI_BYTE 0 tag_out comm False s of
                             None \<Rightarrow> None
                           | Some (rc, _, s) \<Rightarrow> Some (rc, s))))"

definition MPI_Bcast ::
  "'w net \<Rightarrow> addr \<Rightarrow> i32 \<Rightarrow> i32 \<Rightarrow> i32 \<Rightarrow> i32 \<Rightarrow> 'w mpi \<Rightarrow> (i32 \<times> 'w mpi) option" where
  "MPI_Bcast N buf cnt type root comm s =
     (if comm \<noteq> MPI_COMM_WORLD then Some (MPI_ERR_COMM, s)
      else if mpi_ready s = 0 then Some (MPI_ERR_OTHER, s)
      else if sint root < 0 \<or> sint root \<ge> sint (mpi_size s) then Some (MPI_ERR_RANK, s)
      else let s = s\<lparr>coll_seq := coll_seq s + 1\<rparr>;
               tag = coll_tag (coll_seq s) COLL_BCAST
           in if mpi_size s = 1 then Some (MPI_SUCCESS, s)
              else if mpi_rank s = root
              then send_to_ranks N buf cnt type tag comm
                     (filter (\<lambda>i. i \<noteq> root) (ranks_from 0 (mpi_size s))) s
              else map_option (\<lambda>(rc, _, s). (rc, s)) (MPI_Recv N buf cnt type root tag comm False s))"

fun reduce_gather ::
  "'w net \<Rightarrow> fpu \<Rightarrow> addr \<Rightarrow> i32 \<Rightarrow> i32 \<Rightarrow> i32 \<Rightarrow> i32 \<Rightarrow> nat \<Rightarrow> 'w mpi \<Rightarrow> (i32 \<times> 'w mpi) option" where
  "reduce_gather N F recvbuf cnt type op tag 0 s = Some (MPI_SUCCESS, s)"
| "reduce_gather N F recvbuf cnt type op tag (Suc k) s =
     (case recv_match N MPI_ANY_SOURCE tag s of
        None \<Rightarrow> None
      | Some (Inl rc, s) \<Rightarrow> Some (rc, s)
      | Some (Inr (h, data), s) \<Rightarrow>
          if of_nat (length data) \<noteq> cnt * type_size type then Some (MPI_ERR_TRUNCATE, s)
          else let (rc, m) = reduce_apply F recvbuf data cnt type op (mpi_mem s);
                   s = s\<lparr>mpi_mem := m\<rparr>
               in if rc \<noteq> MPI_SUCCESS then Some (rc, s)
                  else reduce_gather N F recvbuf cnt type op tag k s)"

definition MPI_Reduce ::
  "'w net \<Rightarrow> fpu \<Rightarrow> addr \<Rightarrow> addr \<Rightarrow> i32 \<Rightarrow> i32 \<Rightarrow> i32 \<Rightarrow> i32 \<Rightarrow> i32 \<Rightarrow> 'w mpi \<Rightarrow>
     (i32 \<times> 'w mpi) option" where
  "MPI_Reduce N F sendbuf recvbuf cnt type op root comm s =
     (if comm \<noteq> MPI_COMM_WORLD then Some (MPI_ERR_COMM, s)
      else if mpi_ready s = 0 then Some (MPI_ERR_OTHER, s)
      else if sint root < 0 \<or> sint root \<ge> sint (mpi_size s) then Some (MPI_ERR_RANK, s)
      else if sint op < sint MPI_SUM \<or> sint op > sint MPI_MIN then Some (MPI_ERR_OP, s)
      else let esz = type_size type in
           if sint esz < 0 then Some (MPI_ERR_TYPE, s)
           else if sint (cnt * esz) > int MPI_MAX_MESSAGE then Some (MPI_ERR_COUNT, s)
           else let s = s\<lparr>coll_seq := coll_seq s + 1\<rparr>;
                    tag = coll_tag (coll_seq s) COLL_REDUCE
                in if mpi_rank s \<noteq> root then MPI_Send N sendbuf cnt type root tag comm s
                   else let s = s\<lparr>mpi_mem := snd (memcpy recvbuf sendbuf (sext (cnt * esz))
                                  (mpi_mem s))\<rparr>
                        in reduce_gather N F recvbuf cnt type op tag
                             (nat (sint (mpi_size s)) - 1) s)"

definition MPI_Allreduce ::
  "'w net \<Rightarrow> fpu \<Rightarrow> addr \<Rightarrow> addr \<Rightarrow> i32 \<Rightarrow> i32 \<Rightarrow> i32 \<Rightarrow> i32 \<Rightarrow> 'w mpi \<Rightarrow> (i32 \<times> 'w mpi) option" where
  "MPI_Allreduce N F sendbuf recvbuf cnt type op comm s =
     (case MPI_Reduce N F sendbuf recvbuf cnt type op 0 comm s of
        None \<Rightarrow> None
      | Some (rc, s) \<Rightarrow>
          if rc \<noteq> MPI_SUCCESS then Some (rc, s) else MPI_Bcast N recvbuf cnt type 0 comm s)"

section \<open>The element loop\<close>

context element_codec
begin

lemma reduce_loop_elems:
  assumes "w * (i + k) \<le> 18446744073709551616"
  shows "fst (reduce_loop w dec enc (Some g) dst src i k m) = MPI_SUCCESS \<and>
    (\<forall>j. w * Suc j \<le> 18446744073709551616 \<longrightarrow>
       elem (snd (reduce_loop w dec enc (Some g) dst src i k m)) dst j =
         (if i \<le> j \<and> j < i + k then g (elem m dst j) (part src j) else elem m dst j))"
  using assms
proof (induction k arbitrary: i m)
  case (Suc k)
  define m1 where "m1 = store_bytes m (dst + of_nat (w * i)) (enc (g (elem m dst i) (part src i)))"
  have step: "reduce_loop w dec enc (Some g) dst src i (Suc k) m =
      reduce_loop w dec enc (Some g) dst src (Suc i) k m1"
    by (simp add: elem_def part_def Let_def m1_def)
  have le: "w * Suc i \<le> 18446744073709551616"
    by (rule order_trans [OF mult_le_mono2 Suc.prems]) simp
  have e: "elem m1 dst j = (if j = i then g (elem m dst i) (part src i) else elem m dst j)"
    if "w * Suc j \<le> 18446744073709551616" for j
    using elem_store_same [OF le] elem_store_other [OF _ le that] by (simp add: m1_def)
  from Suc.IH [of "Suc i" m1] Suc.prems show ?case
    unfolding step by (auto simp: e Suc_le_eq)
qed auto

end

section \<open>Gathering the contributions\<close>

lemma take_first_filter:
  "filter P xs = c # cs \<Longrightarrow>
     \<exists>rest. take_first P xs = Some (c, rest) \<and> filter P rest = cs \<and> Suc (length rest) = length xs \<and>
       set rest \<subseteq> set xs"
proof (induction xs)
  case (Cons x xs)
  then show ?case by (cases "P x") fastforce+
qed simp

lemma content_fits: "queue_wf q \<Longrightarrow> m \<in> set (content q) \<Longrightarrow> msg_fits m"
proof -
  assume wf: "queue_wf q" and "m \<in> set (content q)"
  then obtain i where i: "i \<in> set (chain q)" "m = slot_message (pending_pool q ! i)"
    by (auto simp: content_def)
  with wf seg_bound [of "pending_pool q" "pending_head q" "chain q" None]
  have "pending_pool q ! i \<in> set (pending_pool q)" by (auto simp: queue_wf_def)
  with wf have "slot_ok (pending_pool q ! i)" by (simp add: queue_wf_def)
  with i(2) show ?thesis by (simp add: msg_fits_def slot_message_def slot_ok_def)
qed

lemma recv_match_next:
  assumes wf: "queue_wf (mpi_pending s)" and fits: "\<forall>m\<in>set ms. msg_fits m"
    and fd: "feeds N (mpi_sock s) (mpi_world s) (arrivals ms) w'"
    and room: "length (content (mpi_pending s)) + length ms \<le> 16"
    and flt: "filter (msg_wanted (source, tag)) (content (mpi_pending s) @ ms) = c # cs"
  shows "\<exists>q w lg later. recv_match N source tag s =
             Some (Inr c, s\<lparr>mpi_pending := q, mpi_world := w, mpi_log := lg\<rparr>) \<and> queue_wf q \<and>
           filter (msg_wanted (source, tag)) (content q @ later) = cs \<and>
           length (content q) + length later \<le> 16 \<and> (\<forall>m\<in>set later. msg_fits m) \<and>
           feeds N (mpi_sock s) w (arrivals later) w'"
proof -
  from take_first_filter [OF flt] obtain rest where
    r: "take_first (msg_wanted (source, tag)) (content (mpi_pending s) @ ms) = Some (c, rest)"
      "filter (msg_wanted (source, tag)) rest = cs"
      "Suc (length rest) = length (content (mpi_pending s) @ ms)"
      "set rest \<subseteq> set (content (mpi_pending s) @ ms)" by blast
  from receive_arrivals [OF fits room r(1)] obtain us vs where
    u: "receive (msg_wanted (source, tag)) (arrivals ms) (content (mpi_pending s)) =
         Some (Inr c, us, arrivals vs)" "rest = us @ vs" by blast
  have "\<forall>m\<in>set vs. msg_fits m" using r(4) u(2) fits content_fits [OF wf] by auto
  with recv_match_receive [OF wf fd u(1)] r(2,3) u(2) room show ?thesis by fastforce
qed

text \<open>What a receive leaves alone: everything but the queue, the world, the log and the memory.\<close>

definition same_setup :: "'w mpi \<Rightarrow> 'w mpi \<Rightarrow> bool" where
  "same_setup s s' \<longleftrightarrow> mpi_rank s' = mpi_rank s \<and> mpi_size s' = mpi_size s \<and> mpi_sock s' = mpi_sock s \<and>
     mpi_ready s' = mpi_ready s \<and> coll_seq s' = coll_seq s"

text \<open>The loop of the root folds the contributions in, element by element, in order of arrival.\<close>

lemma reduce_gather_int:
  assumes op: "op_int op = Some g" and cnt: "0 \<le> sint cnt" "sint cnt \<le> 2048"
    and "\<forall>c\<in>set cs. length (snd c) = 4 * nat (sint cnt)"
    and "queue_wf (mpi_pending s)" and "\<forall>m\<in>set ms. msg_fits m"
    and "feeds N (mpi_sock s) (mpi_world s) (arrivals ms) w'"
    and "length (content (mpi_pending s)) + length ms \<le> 16"
    and "filter (msg_wanted (MPI_ANY_SOURCE, tag)) (content (mpi_pending s) @ ms) = cs"
  shows "\<exists>s'. reduce_gather N F recvbuf cnt MPI_INT op tag (length cs) s = Some (MPI_SUCCESS, s') \<and>
    (\<forall>j<nat (sint cnt). int32.elem (mpi_mem s') recvbuf j =
       fold (\<lambda>c d. g d (int32.part (snd c) j)) cs (int32.elem (mpi_mem s) recvbuf j)) \<and>
    same_setup s s'"
  using assms(4-)
proof (induction cs arbitrary: s ms)
  case (Cons c cs)
  from recv_match_next [OF Cons.prems(2-6)] obtain q w lg later where
    r: "recv_match N MPI_ANY_SOURCE tag s =
          Some (Inr c, s\<lparr>mpi_pending := q, mpi_world := w, mpi_log := lg\<rparr>)" "queue_wf q"
      "filter (msg_wanted (MPI_ANY_SOURCE, tag)) (content q @ later) = cs"
      "length (content q) + length later \<le> 16" "\<forall>m\<in>set later. msg_fits m"
      "feeds N (mpi_sock s) w (arrivals later) w'" by blast
  have len: "(of_nat (length (snd c)) :: i32) = cnt * 4"
  proof -
    have "(of_nat (length (snd c)) :: i32) = 4 * of_nat (nat (sint cnt))" using Cons.prems(1) by simp
    also have "of_nat (nat (sint cnt)) = cnt" using cnt(1) by (rule of_nat_nat_sint)
    finally show ?thesis by simp
  qed
  let ?L = "reduce_loop 4 un_le32 le32 (Some g) recvbuf (snd c) 0 (nat (sint cnt)) (mpi_mem s)"
  define s1 where "s1 = s\<lparr>mpi_pending := q, mpi_world := w, mpi_log := lg, mpi_mem := snd ?L\<rparr>"
  have L: "fst ?L = MPI_SUCCESS" "\<forall>j<nat (sint cnt).
      int32.elem (snd ?L) recvbuf j = g (int32.elem (mpi_mem s) recvbuf j) (int32.part (snd c) j)"
    using int32.reduce_loop_elems [of 0 "nat (sint cnt)" g recvbuf "snd c" "mpi_mem s"] cnt by auto
  have "reduce_gather N F recvbuf cnt MPI_INT op tag (length (c # cs)) s =
      reduce_gather N F recvbuf cnt MPI_INT op tag (length cs) s1"
    using r(1) len L(1) op
    by (cases c) (simp add: type_size_def reduce_apply_def s1_def split_def Let_def)
  moreover from Cons.IH [of s1 later] Cons.prems(1) r obtain s' where
    "reduce_gather N F recvbuf cnt MPI_INT op tag (length cs) s1 = Some (MPI_SUCCESS, s')"
    "\<forall>j<nat (sint cnt). int32.elem (mpi_mem s') recvbuf j =
       fold (\<lambda>c d. g d (int32.part (snd c) j)) cs (int32.elem (mpi_mem s1) recvbuf j)"
    "same_setup s1 s'" by (auto simp: s1_def same_setup_def)
  ultimately show ?case using L(2) by (simp add: s1_def same_setup_def)
qed (simp add: same_setup_def)

text \<open>The operators commute, so that the order of arrival does not matter.\<close>

lemma op_int_commutes:
  assumes "op_int op = Some g"
  shows "g (g d a) b = g (g d b) a"
proof -
  have "a = b" if "sint a = sint b" using that by (rule signed_word_eqI)
  with assms show ?thesis by (auto simp: op_int_def ac_simps split: if_splits)
qed

lemma reduce_fold_permute:
  assumes "op_int op = Some g" and "mset cs = mset cs'"
  shows "fold (\<lambda>c d. g d (f c)) cs v = fold (\<lambda>c d. g d (f c)) cs' v"
proof -
  have "fold (\<lambda>c d. g d (f c)) cs = fold (\<lambda>c d. g d (f c)) cs'"
    using op_int_commutes [OF assms(1)] assms(2)
    by (intro fold_multiset_equiv) (auto simp: fun_eq_iff)
  then show ?thesis by simp
qed

lemma memcpy_elems:
  assumes "object_at dst n" and "object_at src n" and "dst < src \<or> unat src + unat n \<le> unat dst"
    and "4 * Suc j \<le> unat n"
  shows "int32.elem (snd (memcpy dst src n m)) dst j = int32.elem m src j"
proof -
  have "load_bytes (snd (memcpy dst src n m)) (dst + of_nat (4 * j)) 4 =
      load_bytes m (src + of_nat (4 * j)) 4"
  proof (rule nth_equalityI)
    fix t assume "t < length (load_bytes (snd (memcpy dst src n m)) (dst + of_nat (4 * j)) 4)"
    then have t: "t < 4" by simp
    with assms(4) have "of_nat (4 * j + t) < n" by (intro of_nat_less_u64) simp
    from memcpy_bytes [OF assms(1-3) this] t
    show "load_bytes (snd (memcpy dst src n m)) (dst + of_nat (4 * j)) 4 ! t =
        load_bytes m (src + of_nat (4 * j)) 4 ! t"
      by (simp only: load_bytes_nth of_nat_add add.assoc)
  qed simp
  then show ?thesis by (simp only: int32.elem_def)
qed

section \<open>Sending to many\<close>

definition sends_to ::
  "'w net \<Rightarrow> i32 \<Rightarrow> u8 list \<Rightarrow> i32 list \<Rightarrow> 'w \<Rightarrow> 'w" where
  "sends_to N sock fr = fold (\<lambda>r w. snd (net_sendto N sock (addr_for_rank r) fr w))"

lemma send_to_ranks_all:
  assumes "\<forall>r\<in>set rs. send_valid s cnt type r tag"
    and "\<And>to fr w. 0 \<le> sint (fst (net_sendto N (mpi_sock s) to fr w))"
  shows "send_to_ranks N buf cnt type tag MPI_COMM_WORLD rs s = Some (MPI_SUCCESS,
     s\<lparr>mpi_world := sends_to N (mpi_sock s) (encode (message_of s buf cnt type tag)) rs (mpi_world s)\<rparr>)"
  using assms
proof (induction rs arbitrary: s)
  case Nil
  then show ?case by (simp add: sends_to_def)
next
  case (Cons r rs)
  let ?fr = "encode (message_of s buf cnt type tag)"
  let ?w = "snd (net_sendto N (mpi_sock s) (addr_for_rank r) ?fr (mpi_world s))"
  have "send_valid s cnt type r tag" using Cons.prems(1) by simp
  from MPI_Send_valid(1) [OF this, of N buf] Cons.prems(2)
  have "MPI_Send N buf cnt type r tag MPI_COMM_WORLD s = Some (MPI_SUCCESS, s\<lparr>mpi_world := ?w\<rparr>)"
    by (simp add: Let_def split_def not_less)
  moreover have "message_of (s\<lparr>mpi_world := ?w\<rparr>) buf cnt type tag = message_of s buf cnt type tag"
    by (simp add: message_of_def)
  moreover have "\<forall>r\<in>set rs. send_valid (s\<lparr>mpi_world := ?w\<rparr>) cnt type r tag"
    using Cons.prems(1) by (simp add: send_valid_def)
  ultimately show ?case using Cons.IH [of "s\<lparr>mpi_world := ?w\<rparr>"] Cons.prems(2)
    by (simp add: sends_to_def)
qed

lemma ranks_from_bounds:
  "r \<in> set (ranks_from lo n) \<Longrightarrow> int lo \<le> sint r \<and> sint r < sint n"
  using sint_i32_bounds(2) [of n] by (auto simp: ranks_from_def sint_of_nat_small)

lemma coll_tag_nonneg: "b < 5 \<Longrightarrow> 0 \<le> sint (coll_tag seq b)"
  using coll_tag_above(1) [of b seq] by simp

section \<open>Reducing at the root\<close>

lemma reduce_int_root:
  assumes "mpi_ready s \<noteq> 0" and "0 \<le> sint (mpi_rank s)" and "sint (mpi_rank s) < sint (mpi_size s)"
    and "op_int op = Some g" and "0 \<le> sint cnt" and "sint cnt \<le> 2048"
    and "object_at recvbuf (of_nat (4 * nat (sint cnt)))"
    and "object_at sendbuf (of_nat (4 * nat (sint cnt)))"
    and "recvbuf < sendbuf \<or> unat sendbuf + 4 * nat (sint cnt) \<le> unat recvbuf"
    and "queue_wf (mpi_pending s)" and "\<forall>m\<in>set ms. msg_fits m"
    and "feeds N (mpi_sock s) (mpi_world s) (arrivals ms) w'"
    and "length (content (mpi_pending s)) + length ms \<le> 16"
    and "filter (msg_wanted (MPI_ANY_SOURCE, coll_tag (coll_seq s + 1) COLL_REDUCE))
           (content (mpi_pending s) @ ms) = cs"
    and "int (length cs) = sint (mpi_size s) - 1"
    and "\<forall>c\<in>set cs. length (snd c) = 4 * nat (sint cnt)"
    and "mset cs' = mset cs"
  shows "\<exists>s'. MPI_Reduce N F sendbuf recvbuf cnt MPI_INT op (mpi_rank s) MPI_COMM_WORLD s =
             Some (MPI_SUCCESS, s') \<and>
           (\<forall>j<nat (sint cnt). get32 (mpi_mem s') (recvbuf + of_nat (4 * j)) =
              fold (\<lambda>c d. g d (un_le32 (take 4 (drop (4 * j) (snd c))))) cs'
                (get32 (mpi_mem s) (sendbuf + of_nat (4 * j)))) \<and>
           same_setup (s\<lparr>coll_seq := coll_seq s + 1\<rparr>) s'"
proof -
  let ?n = "sext (cnt * 4)" and ?tag = "coll_tag (coll_seq s + 1) COLL_REDUCE"
  have b: "sint (cnt * 4) = sint cnt * 4" using sint_mult_i32 [of cnt 4] assms(5,6) by simp
  have un: "unat ?n = 4 * nat (sint cnt)" using b assms(5) by (simp add: unat_sext_nonneg nat_mult_distrib)
  have n: "?n = of_nat (4 * nat (sint cnt))"
    using arg_cong [OF un, of "of_nat :: nat \<Rightarrow> u64"] by simp
  define s1 where "s1 = s\<lparr>coll_seq := coll_seq s + 1, mpi_mem := snd (memcpy recvbuf sendbuf ?n (mpi_mem s))\<rparr>"
  have "0 \<le> sint op \<and> sint op \<le> 3" using assms(4) by (auto simp: op_int_def split: if_splits)
  moreover have "length cs = nat (sint (mpi_size s)) - 1" using assms(15) by simp
  ultimately have "MPI_Reduce N F sendbuf recvbuf cnt MPI_INT op (mpi_rank s) MPI_COMM_WORLD s =
      reduce_gather N F recvbuf cnt MPI_INT op ?tag (length cs) s1"
    using assms(1-3,6) b by (simp add: MPI_Reduce_def type_size_def Let_def s1_def)
  moreover from reduce_gather_int [OF assms(4-6,16), of s1 ms N w' ?tag F recvbuf]
    assms(10-14) obtain s' where
    g: "reduce_gather N F recvbuf cnt MPI_INT op ?tag (length cs) s1 = Some (MPI_SUCCESS, s')"
      "\<forall>j<nat (sint cnt). int32.elem (mpi_mem s') recvbuf j =
       fold (\<lambda>c d. g d (int32.part (snd c) j)) cs (int32.elem (mpi_mem s1) recvbuf j)"
      "same_setup s1 s'"
    by (auto simp: s1_def)
  moreover have "int32.elem (mpi_mem s1) recvbuf j = int32.elem (mpi_mem s) sendbuf j"
    if "j < nat (sint cnt)" for j
    using memcpy_elems [of recvbuf ?n sendbuf j "mpi_mem s"] assms(7-9) that un
    by (simp add: s1_def n)
  moreover from g(3) have "same_setup (s\<lparr>coll_seq := coll_seq s + 1\<rparr>) s'"
    by (simp add: s1_def same_setup_def)
  ultimately show ?thesis
    using reduce_fold_permute [OF assms(4,17)]
    by (simp add: int32.elem_def int32.part_def get32_def)
qed

lemma bcast_root:
  assumes "send_valid a cnt type (mpi_rank a) 0" and "sint (mpi_size a) \<noteq> 1"
    and "\<And>to fr w. 0 \<le> sint (fst (net_sendto N (mpi_sock a) to fr w))"
    and "tag = coll_tag (coll_seq a + 1) COLL_BCAST"
  shows "MPI_Bcast N buf cnt type (mpi_rank a) MPI_COMM_WORLD a = Some (MPI_SUCCESS,
           a\<lparr>coll_seq := coll_seq a + 1,
             mpi_world := sends_to N (mpi_sock a) (encode (message_of a buf cnt type tag))
               (filter (\<lambda>i. i \<noteq> mpi_rank a) (ranks_from 0 (mpi_size a))) (mpi_world a)\<rparr>)"
proof -
  note v = assms(1) [unfolded send_valid_def]
  have one: "mpi_size a \<noteq> 1" using assms(2) by auto
  let ?a = "a\<lparr>coll_seq := coll_seq a + 1\<rparr>"
  have m: "message_of ?a buf cnt type tag = message_of a buf cnt type tag" by (simp add: message_of_def)
  have tag: "0 \<le> sint tag" using coll_tag_nonneg [of 3 "coll_seq a + 1"] assms(4) by simp
  let ?rs = "filter (\<lambda>i. i \<noteq> mpi_rank a) (ranks_from 0 (mpi_size a))"
  have "\<forall>r\<in>set ?rs. send_valid ?a cnt type r tag"
    using v tag ranks_from_bounds [of _ 0 "mpi_size a"] by (auto simp: send_valid_def)
  from send_to_ranks_all [OF this, of N buf] assms(3) m
  have "send_to_ranks N buf cnt type tag MPI_COMM_WORLD ?rs ?a = Some (MPI_SUCCESS,
      ?a\<lparr>mpi_world := sends_to N (mpi_sock a) (encode (message_of a buf cnt type tag)) ?rs (mpi_world a)\<rparr>)"
    by simp
  with v one show ?thesis by (simp add: MPI_Bcast_def Let_def assms(4))
qed

lemma bcast_other:
  assumes "send_valid a cnt type (mpi_rank a) 0" and "sint (mpi_size a) \<noteq> 1"
    and "mpi_size b = mpi_size a" and "mpi_rank b \<noteq> mpi_rank a"
    and "mpi_ready b \<noteq> 0" and "queue_wf (mpi_pending b)"
    and "tag = coll_tag (coll_seq b + 1) COLL_BCAST"
    and "\<forall>m\<in>set (content (mpi_pending b)). \<not> msg_wanted (mpi_rank a, tag) m"
    and "net_recvfrom M (mpi_sock b) (mpi_world b) =
           Some (Datagram (encode (message_of a buf cnt type tag)), w')"
  shows "\<exists>b'. MPI_Bcast M rbuf cnt type (mpi_rank a) MPI_COMM_WORLD b = Some (MPI_SUCCESS, b') \<and>
           bytes_at (mpi_mem b') rbuf
             (load_bytes (mpi_mem a) buf (nat (sint cnt * sint (type_size type))))"
proof -
  note v = assms(1) [unfolded send_valid_def]
  have one: "mpi_size a \<noteq> 1" using assms(2) by auto
  let ?b = "b\<lparr>coll_seq := coll_seq b + 1\<rparr>"
  have "0 \<le> sint tag" using coll_tag_nonneg [of 3 "coll_seq b + 1"] assms(7) by simp
  then have "send_valid a cnt type (mpi_rank a) tag" using v by (simp add: send_valid_def)
  from MPI_Recv_delivers [OF this, of ?b "mpi_rank a" tag M buf w' rbuf False] v assms
  obtain b' where "MPI_Recv M rbuf cnt type (mpi_rank a) tag MPI_COMM_WORLD False ?b =
      Some (MPI_SUCCESS, None, b')"
    "bytes_at (mpi_mem b') rbuf
       (load_bytes (mpi_mem a) buf (nat (sint cnt * sint (type_size type))))" by auto
  with v one assms(3-5) show ?thesis by (simp add: MPI_Bcast_def Let_def assms(7))
qed

section \<open>What a reduction means\<close>

definition reduced :: "i32 \<Rightarrow> i32 list \<Rightarrow> i32 \<Rightarrow> bool" where
  "reduced op xs v \<longleftrightarrow> (op = MPI_SUM \<longrightarrow> v = sum_list xs) \<and> (op = MPI_PROD \<longrightarrow> v = prod_list xs) \<and>
     (op = MPI_MAX \<longrightarrow> v \<in> set xs \<and> (\<forall>x\<in>set xs. sint x \<le> sint v)) \<and>
     (op = MPI_MIN \<longrightarrow> v \<in> set xs \<and> (\<forall>x\<in>set xs. sint v \<le> sint x))"

lemma op_int_ex: "op \<in> {MPI_SUM, MPI_PROD, MPI_MAX, MPI_MIN} \<Longrightarrow> \<exists>g. op_int op = Some g"
  by (auto simp: op_int_def)

lemma reduced_single: "reduced op [x] x"
  by (simp add: reduced_def)

lemma reduced_snoc: "op_int op = Some g \<Longrightarrow> reduced op xs d \<Longrightarrow> reduced op (xs @ [y]) (g d y)"
  by (auto simp: reduced_def op_int_def split: if_splits)

lemma op_int_reduced: "op_int op = Some g \<Longrightarrow> reduced op (d # ys) (fold (\<lambda>y d. g d y) ys d)"
proof (induction ys rule: rev_induct)
  case (snoc y ys)
  then show ?case using reduced_snoc [of op g "d # ys" _ y] by simp
qed (simp add: reduced_single)

lemma reduce_int_reduced:
  assumes "mpi_ready s \<noteq> 0" and "0 \<le> sint (mpi_rank s)" and "sint (mpi_rank s) < sint (mpi_size s)"
    and "op \<in> {MPI_SUM, MPI_PROD, MPI_MAX, MPI_MIN}" and "0 \<le> sint cnt" and "sint cnt \<le> 2048"
    and "object_at recvbuf (of_nat (4 * nat (sint cnt)))"
    and "object_at sendbuf (of_nat (4 * nat (sint cnt)))"
    and "recvbuf < sendbuf \<or> unat sendbuf + 4 * nat (sint cnt) \<le> unat recvbuf"
    and "queue_wf (mpi_pending s)" and "\<forall>m\<in>set ms. msg_fits m"
    and "feeds N (mpi_sock s) (mpi_world s) (arrivals ms) w'"
    and "length (content (mpi_pending s)) + length ms \<le> 16"
    and "filter (msg_wanted (MPI_ANY_SOURCE, coll_tag (coll_seq s + 1) COLL_REDUCE))
           (content (mpi_pending s) @ ms) = cs"
    and "int (length cs) = sint (mpi_size s) - 1"
    and "\<forall>c\<in>set cs. length (snd c) = 4 * nat (sint cnt)"
  shows "\<exists>s'. MPI_Reduce N F sendbuf recvbuf cnt MPI_INT op (mpi_rank s) MPI_COMM_WORLD s =
             Some (MPI_SUCCESS, s') \<and>
           (\<forall>j<nat (sint cnt). reduced op
              (get32 (mpi_mem s) (sendbuf + of_nat (4 * j)) # map (\<lambda>c. un_le32 (take 4 (drop (4 * j) (snd c)))) cs)
              (get32 (mpi_mem s') (recvbuf + of_nat (4 * j)))) \<and>
           same_setup (s\<lparr>coll_seq := coll_seq s + 1\<rparr>) s'"
proof -
  from op_int_ex [OF assms(4)] obtain g where "op_int op = Some g" ..
  moreover from this have "reduced op (d # map h cs) (fold (\<lambda>c d. g d (h c)) cs d)" for h d
    using op_int_reduced [of op g d "map h cs"] by (simp add: fold_map comp_def)
  ultimately show ?thesis using reduce_int_root [OF assms(1-3) _ assms(5-16) refl, where g = g and F = F] by fastforce
qed

section \<open>Properties\<close>

text \<open>
  C16. \<open>MPI_Reduce\<close> of \<open>int\<close>s at the root. When the contributions of the other ranks to this
  collective are among the messages held back or arriving, in any order and mixed with other
  messages (sixteen in all), the call succeeds, and each element of the receive buffer is the
  sum or product (with wrap-around), or the signed maximum or minimum, of the root's own element and
  the contributed ones.
\<close>

theorem reduce_int_correct:
  assumes "mpi_ready s \<noteq> 0" and "0 \<le> sint (mpi_rank s)" and "sint (mpi_rank s) < sint (mpi_size s)"
    and "op \<in> {MPI_SUM, MPI_PROD, MPI_MAX, MPI_MIN}" and "0 \<le> sint cnt" and "sint cnt \<le> 2048"
    and "object_at recvbuf (of_nat (4 * nat (sint cnt)))"
    and "object_at sendbuf (of_nat (4 * nat (sint cnt)))"
    and "recvbuf < sendbuf \<or> unat sendbuf + 4 * nat (sint cnt) \<le> unat recvbuf"
    and "queue_wf (mpi_pending s)" and "\<forall>m\<in>set ms. msg_fits m"
    and "feeds N (mpi_sock s) (mpi_world s) (arrivals ms) w'"
    and "length (content (mpi_pending s)) + length ms \<le> 16"
    and "filter (msg_wanted (MPI_ANY_SOURCE, coll_tag (coll_seq s + 1) COLL_REDUCE))
           (content (mpi_pending s) @ ms) = cs"
    and "int (length cs) = sint (mpi_size s) - 1"
    and "\<forall>c\<in>set cs. length (snd c) = 4 * nat (sint cnt)"
  shows "\<exists>s'. MPI_Reduce N F sendbuf recvbuf cnt MPI_INT op (mpi_rank s) MPI_COMM_WORLD s =
             Some (MPI_SUCCESS, s') \<and>
           (\<forall>j<nat (sint cnt). reduced op
              (get32 (mpi_mem s) (sendbuf + of_nat (4 * j)) # map (\<lambda>c. un_le32 (take 4 (drop (4 * j) (snd c)))) cs)
              (get32 (mpi_mem s') (recvbuf + of_nat (4 * j))))"
  using reduce_int_reduced [OF assms] by blast

definition demo_contribution :: message where
  "demo_contribution = (\<lparr>h_src = 1, h_tag = coll_tag 1 COLL_REDUCE, h_count = 1, h_type = MPI_INT\<rparr>,
     le32 5)"

definition no_fpu :: fpu where
  "no_fpu = \<lparr>f_add = (\<lambda>a b. 0), f_mul = (\<lambda>a b. 0), f_less = (\<lambda>a b. False)\<rparr>"

theorem reduce_int_correct_witness:
  "\<exists>s'. MPI_Reduce loop_net no_fpu 0 64 1 MPI_INT MPI_SUM 0 MPI_COMM_WORLD
       (rank_state 0 2 (\<lambda>a. if a = 0 then 7 else 0) (arrivals [msg1, demo_contribution])) =
     Some (MPI_SUCCESS, s') \<and> get32 (mpi_mem s') 64 = 12"
proof -
  let ?s = "rank_state 0 2 (\<lambda>a. if a = 0 then 7 else 0) (arrivals [msg1, demo_contribution])"
  have "coll_tag 1 COLL_REDUCE \<noteq> 7" using coll_tag_above(1) [of 4 1] by auto
  then have f: "filter (msg_wanted (MPI_ANY_SOURCE, coll_tag (coll_seq ?s + 1) COLL_REDUCE))
      (content (mpi_pending ?s) @ [msg1, demo_contribution]) = [demo_contribution]"
    using coll_tag_above(1) [of 4 1]
    by (auto simp: content_empty msg_wanted_def matches_def msg1_def demo_contribution_def)
  from reduce_int_correct [of ?s MPI_SUM 1 64 0 "[msg1, demo_contribution]" loop_net
      "[]" "[demo_contribution]" no_fpu, OF _ _ _ _ _ _ _ _ _ _ _ _ _ f]
    feeds_loop_net [of 3 "arrivals [msg1, demo_contribution]" "[]"]
  show ?thesis
    by (simp add: reduced_def object_at_def empty_queue_wf content_empty msg_fits_def msg1_def
        demo_contribution_def le32_def un_le32_def get32_def)
qed

text \<open>
  \<open>MPI_Bcast\<close>. On a network that accepts sends, the root sends one and the same datagram,
  carrying its buffer under the tag of this collective, to every other rank in rank order, and
  succeeds. A rank with the same sequence number that has this datagram next on its socket, and
  nothing held back from the root under that tag, succeeds and ends with the root's bytes in its
  own buffer. Both advance the sequence number by one.
\<close>

lemma bcast_delivers:
  assumes "send_valid a cnt type (mpi_rank a) 0"
    and "sint (mpi_size a) \<noteq> 1"
    and "\<And>to fr w. 0 \<le> sint (fst (net_sendto N (mpi_sock a) to fr w))"
    and "coll_seq b = coll_seq a" and "mpi_size b = mpi_size a" and "mpi_rank b \<noteq> mpi_rank a"
    and "mpi_ready b \<noteq> 0" and "queue_wf (mpi_pending b)"
    and "tag = coll_tag (coll_seq a + 1) COLL_BCAST"
    and "\<forall>m\<in>set (content (mpi_pending b)). \<not> msg_wanted (mpi_rank a, tag) m"
    and "net_recvfrom M (mpi_sock b) (mpi_world b) =
           Some (Datagram (encode (message_of a buf cnt type tag)), w')"
  shows "MPI_Bcast N buf cnt type (mpi_rank a) MPI_COMM_WORLD a = Some (MPI_SUCCESS,
           a\<lparr>coll_seq := coll_seq a + 1,
             mpi_world := sends_to N (mpi_sock a) (encode (message_of a buf cnt type tag))
               (filter (\<lambda>i. i \<noteq> mpi_rank a) (ranks_from 0 (mpi_size a))) (mpi_world a)\<rparr>) \<and>
         (\<exists>b'. MPI_Bcast M rbuf cnt type (mpi_rank a) MPI_COMM_WORLD b = Some (MPI_SUCCESS, b') \<and>
           bytes_at (mpi_mem b') rbuf
             (load_bytes (mpi_mem a) buf (nat (sint cnt * sint (type_size type)))))"
  using bcast_root [OF assms(1-3,9)] bcast_other [OF assms(1,2,5-8) _ assms(10,11)] assms(4,9) by simp

end
