(* ===== verification/Neo_Mpi_Start.thy ===== *)
theory Neo_Mpi_Start
  imports Neo_Mpi_Coll
begin

text \<open>
  Starting and stopping a rank (\<open>src/mpi.c\<close>): the launcher with its decimal printer, the parser
  of the rank arguments, \<open>MPI_Init\<close> with the shift of \<open>argv\<close>, the startup rendezvous, and
  \<open>MPI_Finalize\<close>. The remaining system calls are the parameter \<open>'w os\<close>. Once the socket is
  non-blocking, \<open>net_recvfrom\<close> answers \<open>EAGAIN\<close> when nothing is waiting.

  Pointers to \<open>argc\<close> and \<open>argv\<close> are addresses in the process's memory, where \<open>argc\<close> is a
  32-bit and each \<open>argv\<close> entry a 64-bit little-endian integer.
\<close>

record 'w os =
  os_socket :: "i32 \<Rightarrow> i32 \<Rightarrow> i32 \<Rightarrow> 'w \<Rightarrow> i32 \<times> 'w"
  os_bind :: "i32 \<Rightarrow> sockaddr_in \<Rightarrow> 'w \<Rightarrow> i32 \<times> 'w"
  os_close :: "i32 \<Rightarrow> 'w \<Rightarrow> i32 \<times> 'w"
  os_fcntl :: "i32 \<Rightarrow> i32 \<Rightarrow> i32 \<Rightarrow> 'w \<Rightarrow> i32 \<times> 'w"
  os_yield :: "'w \<Rightarrow> 'w"
  os_spawnv :: "u8 list \<Rightarrow> u8 list list \<Rightarrow> 'w \<Rightarrow> i32 \<times> 'w"

abbreviation (input) SOCK_DGRAM :: i32 where "SOCK_DGRAM \<equiv> 2"
abbreviation (input) F_GETFL :: i32 where "F_GETFL \<equiv> 3"
abbreviation (input) F_SETFL :: i32 where "F_SETFL \<equiv> 4"
abbreviation (input) O_NONBLOCK :: i32 where "O_NONBLOCK \<equiv> 0x800"

section \<open>The launcher\<close>

text \<open>
  \<open>int_to_str\<close> fills \<open>tmp\<close> with the digits from the low end and copies it out reversed, with a
  terminating zero. A negative value has no digits.
\<close>

function int_digits :: "i32 \<Rightarrow> u8 list" where
  "int_digits v = (if 0 < sint v then of_int (48 + sint v mod 10) # int_digits (of_int (sint v div 10)) else [])"
  by pat_completeness auto
termination
proof (relation "measure (\<lambda>v. nat (sint v))")
  fix v :: i32 assume "0 < sint v"
  moreover from this have "sint (word_of_int (sint v div 10) :: i32) = sint v div 10"
    using sint_i32_bounds(2) [of v] by (intro sint_word_of_int_i32) auto
  ultimately show "(word_of_int (sint v div 10), v) \<in> measure (\<lambda>v. nat (sint v))" by simp
qed simp

declare int_digits.simps [simp del]

definition int_to_str :: "i32 \<Rightarrow> u8 list" where
  "int_to_str v = (let tmp = (if v = 0 then [48] else []) @ int_digits v in rev tmp @ [0])"

fun launch_loop ::
  "'w os \<Rightarrow> u8 list \<Rightarrow> u8 list \<Rightarrow> nat \<Rightarrow> nat \<Rightarrow> i32 list \<Rightarrow> 'w \<Rightarrow> i32 \<times> i32 list \<times> 'w" where
  "launch_loop OS path size_str r 0 pids w = (MPI_SUCCESS, pids, w)"
| "launch_loop OS path size_str r (Suc k) pids w =
     (let (pid, w) = os_spawnv OS path [path, int_to_str (of_nat r), size_str] w in
      if sint pid < 0 then (MPI_ERR_INTERN, pids, w)
      else launch_loop OS path size_str (Suc r) k (pids @ [pid]) w)"

text \<open>The result: the code, the process ids stored through \<open>out_pids\<close>, the world.\<close>

definition MPI_Launch :: "'w os \<Rightarrow> u8 list \<Rightarrow> i32 \<Rightarrow> 'w \<Rightarrow> i32 \<times> i32 list \<times> 'w" where
  "MPI_Launch OS path n w =
     (if sint n < 1 \<or> sint n > MPI_MAX_RANKS then (MPI_ERR_OTHER, [], w)
      else launch_loop OS path (int_to_str n) 0 (nat (sint n)) [] w)"

section \<open>Reading the arguments\<close>

text \<open>
  The digit loops: \<open>None\<close> if the string never ends, otherwise \<open>Some None\<close> on a character that is
  no digit, and the value, computed in \<open>int\<close>.
\<close>

partial_function (option) parse_digits :: "mem \<Rightarrow> addr \<Rightarrow> i32 \<Rightarrow> i32 option option" where
  "parse_digits m p v =
     (if m p = 0 then Some (Some v)
      else if m p < 48 \<or> m p > 57 then Some None
      else parse_digits m (p + 1) (v * 10 + (ucast (m p) - 48)))"

definition parse_rank_args :: "i32 \<Rightarrow> addr \<Rightarrow> 'w mpi \<Rightarrow> (i32 \<times> 'w mpi) option" where
  "parse_rank_args argc argv s =
     (let m = mpi_mem s in
      if sint argc < 3 then Some (MPI_ERR_OTHER, s)
      else (case parse_digits m (get64 m (argv + 8)) 0 of
              None \<Rightarrow> None
            | Some None \<Rightarrow> Some (MPI_ERR_OTHER, s)
            | Some (Some r) \<Rightarrow>
                (case parse_digits m (get64 m (argv + 16)) 0 of
                   None \<Rightarrow> None
                 | Some None \<Rightarrow> Some (MPI_ERR_OTHER, s)
                 | Some (Some n) \<Rightarrow>
                     if sint n < 1 \<or> sint n > MPI_MAX_RANKS \<or> sint r < 0 \<or> sint r \<ge> sint n
                     then Some (MPI_ERR_OTHER, s)
                     else Some (MPI_SUCCESS, s\<lparr>mpi_rank := r, mpi_size := n\<rparr>))))"

section \<open>The rendezvous\<close>

abbreviation (input) RENDEZVOUS_FRAME :: nat where "RENDEZVOUS_FRAME \<equiv> 24"

text \<open>\<open>try_recv\<close>: a frame, the empty list when nothing was waiting, or \<open>None\<close> on a real error.\<close>

definition try_recv :: "recv_answer \<Rightarrow> u8 list option" where
  "try_recv a =
     (case a of
        RecvErr e \<Rightarrow> if e = EAGAIN \<or> e = EINTR then Some [] else None
      | Datagram d \<Rightarrow> Some (take RENDEZVOUS_FRAME d))"

definition hello_from :: "u8 list \<Rightarrow> i32 \<Rightarrow> bool list \<Rightarrow> nat option" where
  "hello_from fr n seen =
     (let h = read_header fr in
      if HEADER_SIZE \<le> length fr \<and> h_tag h = TAG_HELLO \<and> 0 \<le> sint (h_src h) \<and>
         sint (h_src h) < sint n \<and> \<not> seen ! nat (sint (h_src h))
      then Some (nat (sint (h_src h))) else None)"

text \<open>Rank 0 waits for every other rank; the result is the code and the world.\<close>

partial_function (option) root_wait ::
  "'w net \<Rightarrow> 'w os \<Rightarrow> i32 \<Rightarrow> i32 \<Rightarrow> bool list \<Rightarrow> int \<Rightarrow> 'w \<Rightarrow> (i32 \<times> bool list \<times> 'w) option" where
  "root_wait N OS sock n seen remaining w =
     (if remaining > 0
      then (case net_recvfrom N sock w of
              None \<Rightarrow> None
            | Some (a, w) \<Rightarrow>
                (case try_recv a of
                   None \<Rightarrow> Some (MPI_ERR_INTERN, seen, w)
                 | Some fr \<Rightarrow>
                     (case hello_from fr n seen of
                        Some r \<Rightarrow> root_wait N OS sock n (seen[r := True]) (remaining - 1)
                                    (if fr = [] then os_yield OS w else w)
                      | None \<Rightarrow> root_wait N OS sock n seen remaining
                                    (if fr = [] then os_yield OS w else w))))
      else Some (MPI_SUCCESS, seen, w))"

text \<open>Any other rank says hello, again every 64 passes, until rank 0 says go.\<close>

partial_function (option) rank_wait ::
  "'w net \<Rightarrow> 'w os \<Rightarrow> addr \<Rightarrow> int \<Rightarrow> 'w mpi \<Rightarrow> (i32 \<times> 'w mpi) option" where
  "rank_wait N OS tok since s =
     (case (if since = 0 then send_raw N 0 TAG_HELLO MPI_BYTE 1 tok 1 s else Some (MPI_SUCCESS, s)) of
        None \<Rightarrow> None
      | Some (_, s) \<Rightarrow>
          (case net_recvfrom N (mpi_sock s) (mpi_world s) of
             None \<Rightarrow> None
           | Some (a, w) \<Rightarrow>
               (case try_recv a of
                  None \<Rightarrow> Some (MPI_ERR_INTERN, s\<lparr>mpi_world := w\<rparr>)
                | Some fr \<Rightarrow>
                    if HEADER_SIZE \<le> length fr \<and> h_tag (read_header fr) = TAG_GO
                    then Some (MPI_SUCCESS, s\<lparr>mpi_world := w\<rparr>)
                    else rank_wait N OS tok ((since + 1) mod 64) (s\<lparr>mpi_world := os_yield OS w\<rparr>))))"

fun send_go :: "'w net \<Rightarrow> addr \<Rightarrow> i32 list \<Rightarrow> 'w mpi \<Rightarrow> 'w mpi option" where
  "send_go N tok [] s = Some s"
| "send_go N tok (r # rs) s =
     (case send_raw N r TAG_GO MPI_BYTE 1 tok 1 s of None \<Rightarrow> None | Some (_, s) \<Rightarrow> send_go N tok rs s)"

definition rendezvous :: "'w net \<Rightarrow> 'w os \<Rightarrow> addr \<Rightarrow> 'w mpi \<Rightarrow> (i32 \<times> 'w mpi) option" where
  "rendezvous N OS tok s =
     (if mpi_size s = 1 then Some (MPI_SUCCESS, s)
      else let (flags, w) = os_fcntl OS (mpi_sock s) F_GETFL 0 (mpi_world s); s = s\<lparr>mpi_world := w\<rparr> in
      if sint flags < 0 then Some (MPI_ERR_INTERN, s)
      else let (rc, w) = os_fcntl OS (mpi_sock s) F_SETFL (flags OR O_NONBLOCK) (mpi_world s);
               s = s\<lparr>mpi_world := w, mpi_mem := (mpi_mem s)(tok := 0)\<rparr> in
      if rc \<noteq> 0 then Some (MPI_ERR_INTERN, s)
      else (case (if mpi_rank s = 0
                  then (case root_wait N OS (mpi_sock s) (mpi_size s)
                               ((replicate 16 False)[0 := True]) (sint (mpi_size s) - 1) (mpi_world s) of
                          None \<Rightarrow> None
                        | Some (rc, _, w) \<Rightarrow>
                            if rc \<noteq> MPI_SUCCESS then Some (rc, s\<lparr>mpi_world := w\<rparr>)
                            else map_option (Pair MPI_SUCCESS)
                                   (send_go N tok (ranks_from 1 (mpi_size s)) (s\<lparr>mpi_world := w\<rparr>)))
                  else rank_wait N OS tok 0 s) of
              None \<Rightarrow> None
            | Some (rc, s) \<Rightarrow>
                if rc \<noteq> MPI_SUCCESS then Some (rc, s)
                else let (rc, w) = os_fcntl OS (mpi_sock s) F_SETFL flags (mpi_world s);
                         s = s\<lparr>mpi_world := w\<rparr>
                     in Some (if rc \<noteq> 0 then MPI_ERR_INTERN else MPI_SUCCESS, s)))"

section \<open>Init and finalize\<close>

text \<open>\<open>for (i = 3; i <= argc; i++) v[i - 2] = v[i]\<close>, with \<open>k\<close> passes left.\<close>

fun shift_argv :: "addr \<Rightarrow> nat \<Rightarrow> nat \<Rightarrow> mem \<Rightarrow> mem" where
  "shift_argv v i 0 m = m"
| "shift_argv v i (Suc k) m =
     shift_argv v (Suc i) k (put64 m (v + of_nat (8 * (i - 2))) (get64 m (v + of_nat (8 * i))))"

text \<open>Dropping the rank arguments: \<open>v[1] = v[0]\<close>, the shift, \<open>*argc -= 2\<close>.\<close>

definition drop_rank_args :: "addr \<Rightarrow> addr \<Rightarrow> i32 \<Rightarrow> mem \<Rightarrow> mem" where
  "drop_rank_args argcp v argc m =
     store_bytes (shift_argv v 3 (nat (sint argc) - 2) (put64 m (v + 8) (get64 m v)))
       argcp (le32 (argc - 2))"

definition MPI_Init :: "'w net \<Rightarrow> 'w os \<Rightarrow> addr \<Rightarrow> addr \<Rightarrow> addr \<Rightarrow> 'w mpi \<Rightarrow> (i32 \<times> 'w mpi) option" where
  "MPI_Init N OS tok argcp argvp s =
     (if mpi_ready s \<noteq> 0 then Some (MPI_ERR_OTHER, s)
      else if argcp = 0 \<or> argvp = 0 then Some (MPI_ERR_OTHER, s)
      else let argc = get32 (mpi_mem s) argcp; v = get64 (mpi_mem s) argvp in
      (case parse_rank_args argc v s of
         None \<Rightarrow> None
       | Some (rc, s) \<Rightarrow>
           if rc \<noteq> MPI_SUCCESS then Some (rc, s)
           else let (sock, w) = os_socket OS (ucast AF_INET) SOCK_DGRAM 0 (mpi_world s);
                    s = s\<lparr>mpi_sock := sock, mpi_world := w\<rparr> in
           if sint sock < 0 then Some (MPI_ERR_INTERN, s)
           else let (rc, w) = os_bind OS sock (addr_for_rank (mpi_rank s)) (mpi_world s);
                    s = s\<lparr>mpi_world := w\<rparr> in
           if rc \<noteq> 0
           then Some (MPI_ERR_INTERN, s\<lparr>mpi_world := snd (os_close OS sock w), mpi_sock := - 1\<rparr>)
           else let s = (if 3 \<le> sint argc
                         then s\<lparr>mpi_mem := drop_rank_args argcp v argc (mpi_mem s)\<rparr>
                         else s);
                    s = s\<lparr>mpi_ready := 1\<rparr> in
           (case rendezvous N OS tok s of
              None \<Rightarrow> None
            | Some (rc, s) \<Rightarrow>
                if rc \<noteq> MPI_SUCCESS
                then Some (rc, s\<lparr>mpi_world := snd (os_close OS (mpi_sock s) (mpi_world s)),
                                 mpi_sock := - 1, mpi_ready := 0\<rparr>)
                else Some (MPI_SUCCESS, s))))"

definition MPI_Finalize :: "'w os \<Rightarrow> 'w mpi \<Rightarrow> i32 \<times> 'w mpi" where
  "MPI_Finalize OS s =
     (if mpi_ready s = 0 then (MPI_ERR_OTHER, s)
      else (MPI_SUCCESS, s\<lparr>mpi_world := snd (os_close OS (mpi_sock s) (mpi_world s)),
                           mpi_sock := - 1, mpi_ready := 0\<rparr>))"

section \<open>Launching and parsing\<close>

lemma int_digits_low: "0 \<le> sint v \<Longrightarrow> int_digits v = map dec_char (low_digits 10 (nat (sint v)))"
proof (induction v rule: int_digits.induct)
  case (1 v)
  show ?case
  proof (cases "0 < sint v")
    case True
    have d: "sint (word_of_int (sint v div 10) :: i32) = sint v div 10"
      using True sint_i32_bounds(2) [of v] by (intro sint_word_of_int_i32) auto
    have "(word_of_int (48 + sint v mod 10) :: u8) = dec_char (nat (sint v) mod 10)"
    proof -
      have "48 + sint v mod 10 = int (48 + nat (sint v) mod 10)"
        using True by (simp add: nat_mod_distrib zmod_int)
      then show ?thesis unfolding dec_char_def by (metis of_int_of_nat_eq)
    qed
    with True 1 d show ?thesis
      by (simp add: int_digits.simps [of v] low_digits.simps [of 10 "nat (sint v)"] nat_div_distrib)
  next
    case False
    with 1(2) show ?thesis by (simp add: int_digits.simps low_digits.simps)
  qed
qed

lemma int_to_str_dec: "0 \<le> sint v \<Longrightarrow> int_to_str v = dec_text (nat (sint v)) @ [0]"
proof -
  assume v: "0 \<le> sint v"
  show ?thesis
  proof (cases "v = 0")
    case True
    then show ?thesis
      by (simp add: int_to_str_def int_digits.simps dec_text_def radix_digits.simps dec_char_def)
  next
    case False
    then have "sint v \<noteq> 0" by (metis signed_0 signed_word_eqI)
    with v have "nat (sint v) \<noteq> 0" by simp
    with False v show ?thesis
      by (simp add: int_to_str_def int_digits_low rev_map low_digits_radix dec_text_def)
  qed
qed

interpretation launch_dec: decimal_printer "\<lambda>n. butlast (int_to_str (of_nat n))" "2 ^ 31"
  by unfold_locales (simp add: int_to_str_dec sint_of_nat_small)

lemma parse_digits_horner:
  "cstring m p (map dec_char ds) \<Longrightarrow> \<forall>d\<in>set ds. d < 10 \<Longrightarrow>
     parse_digits m p (of_nat v) = Some (Some (of_nat (horner 10 v ds)))"
proof (induction ds arbitrary: p v)
  case Nil
  then show ?case by (subst parse_digits.simps) simp
next
  case (Cons d ds)
  then have d: "m p = dec_char d" "d < 10" "cstring m (p + 1) (map dec_char ds)" by auto
  have u: "unat (m p) = 48 + d" using d by (simp add: unat_dec_char)
  then have r: "\<not> (m p < 48 \<or> m p > 57)" using d(2) by (simp add: word_less_nat_alt)
  have "(of_nat v * 10 + (ucast (m p) - 48) :: i32) = of_nat (v * 10 + d)"
  proof -
    have "(ucast (m p) :: i32) = of_nat (unat (m p))" by simp
    then show ?thesis using u by simp
  qed
  with Cons.IH [OF d(3), of "v * 10 + d"] Cons.prems r show ?case
    by (subst parse_digits.simps) simp
qed

lemma parse_digits_dec:
  "cstring m p (dec_text n) \<Longrightarrow> parse_digits m p 0 = Some (Some (of_nat n))"
  using parse_digits_horner [of m p "radix_digits 10 n" 0] radix_digits_less [of 10 _ n]
  by (simp add: dec_text_def horner_radix_digits)

lemma launch_loop_all:
  assumes "\<And>argv w. 0 \<le> sint (fst (os_spawnv OS path argv w))"
  shows "\<exists>pids'. launch_loop OS path str r k pids w = (MPI_SUCCESS, pids @ pids',
     fold (\<lambda>i w. snd (os_spawnv OS path [path, int_to_str (of_nat i), str] w)) [r..<r + k] w) \<and>
     length pids' = k"
proof (induction k arbitrary: r pids w)
  case (Suc k)
  let ?x = "os_spawnv OS path [path, int_to_str (of_nat r), str] w"
  from Suc.IH [of "Suc r" "pids @ [fst ?x]" "snd ?x"] obtain pids' where
    "launch_loop OS path str (Suc r) k (pids @ [fst ?x]) (snd ?x) = (MPI_SUCCESS, (pids @ [fst ?x]) @ pids',
       fold (\<lambda>i w. snd (os_spawnv OS path [path, int_to_str (of_nat i), str] w)) [Suc r..<Suc r + k] (snd ?x))"
    "length pids' = k" by blast
  with assms show ?case
    by (intro exI [of _ "fst ?x # pids'"])
      (simp add: upt_conv_Cons split_def Let_def not_less del: upt_Suc)
qed simp

section \<open>Dropping the arguments\<close>

lemma shift_argv_elems:
  assumes "2 \<le> i" and "8 * (i + k) \<le> 18446744073709551616" and "8 * Suc j \<le> 18446744073709551616"
  shows "int64.elem (shift_argv v i k m) v j =
    (if i - 2 \<le> j \<and> j < i - 2 + k then int64.elem m v (j + 2) else int64.elem m v j)"
  using assms
proof (induction k arbitrary: i m)
  case (Suc k)
  define m1 where "m1 = put64 m (v + of_nat (8 * (i - 2))) (get64 m (v + of_nat (8 * i)))"
  have e: "int64.elem m1 v l = (if l = i - 2 then int64.elem m v i else int64.elem m v l)"
    if "8 * Suc l \<le> 18446744073709551616" for l
    using int64.elem_store_same [of "i - 2"] int64.elem_store_other [of "i - 2" l] that Suc.prems(1,2)
    unfolding m1_def put64_def get64_elem by auto
  have "shift_argv v i (Suc k) m = shift_argv v (Suc i) k m1" by (simp add: m1_def)
  moreover have "int64.elem m1 v (j + 2) = int64.elem m v (j + 2)" if "j < Suc i - 2 + k" "i - 2 < j"
    using e [of "j + 2"] that Suc.prems(1,2) by auto
  moreover have "Suc (Suc (i - 2)) = i" using Suc.prems(1) by simp
  ultimately show ?case using Suc.IH [of "Suc i" m1] Suc.prems e [of j] by auto
qed auto

lemma drop_rank_args_elems:
  assumes "3 \<le> sint argc" and "8 * Suc (nat (sint argc)) \<le> 18446744073709551616"
    and apart: "\<And>j t u. j \<le> nat (sint argc) \<Longrightarrow> t < 8 \<Longrightarrow> u < 4 \<Longrightarrow>
          v + of_nat (8 * j + t) \<noteq> argcp + of_nat u"
    and j: "j \<le> nat (sint argc) - 2"
  shows "int64.elem (drop_rank_args argcp v argc m) v j =
     (if j = 0 then int64.elem m v 0 else int64.elem m v (j + 2))"
proof -
  let ?m1 = "put64 m (v + 8) (get64 m v)"
  let ?m2 = "shift_argv v 3 (nat (sint argc) - 2) ?m1"
  have e1: "int64.elem ?m1 v l = (if l = 1 then int64.elem m v 0 else int64.elem m v l)"
    if "l \<le> nat (sint argc)" for l
    using int64.elem_store_same [of 1 m v "get64 m v"] int64.elem_store_other [of 1 l m v "get64 m v"]
      that assms(1,2) get64_elem [of m v 0] by (auto simp: put64_def)
  have a3: "3 + (nat (sint argc) - 2) = Suc (nat (sint argc))" using assms(1) by simp
  have e2: "int64.elem ?m2 v j = (if j = 0 then int64.elem m v 0 else int64.elem m v (j + 2))"
    using shift_argv_elems [of 3 "nat (sint argc) - 2" j v ?m1] assms(1,2) j e1 [of "j + 2"] e1 [of j] a3
    by auto
  have "int64.elem (drop_rank_args argcp v argc m) v j = int64.elem ?m2 v j"
    unfolding drop_rank_args_def
  proof (rule int64.elem_cong)
    fix t assume "t < (8 :: nat)"
    then show "store_bytes ?m2 argcp (le32 (argc - 2)) (v + of_nat (8 * j + t)) = ?m2 (v + of_nat (8 * j + t))"
      using apart [of j t] j by (intro store_bytes_other) auto
  qed
  with e2 show ?thesis by simp
qed

lemma drop_rank_args_argc: "get32 (drop_rank_args argcp v argc m) argcp = argc - 2"
  using load_store_bytes [of "le32 (argc - 2)" _ argcp] un_le32_le32 [of "argc - 2" "[]"]
  by (simp add: get32_def drop_rank_args_def)

section \<open>The rendezvous of rank 0\<close>

text \<open>The frames obtained from the socket one after the other, with a yield after an empty one.\<close>

inductive heard :: "'w net \<Rightarrow> 'w os \<Rightarrow> i32 \<Rightarrow> 'w \<Rightarrow> u8 list list \<Rightarrow> 'w \<Rightarrow> bool"
  for N :: "'w net" and OS :: "'w os" and sock :: i32 where
  heard_Nil: "heard N OS sock w [] w"
| heard_Cons: "net_recvfrom N sock w = Some (a, w1) \<Longrightarrow> try_recv a = Some fr \<Longrightarrow>
     heard N OS sock (if fr = [] then os_yield OS w1 else w1) frs w' \<Longrightarrow>
     heard N OS sock w (fr # frs) w'"

definition says_hello :: "u8 list \<Rightarrow> nat \<Rightarrow> bool" where
  "says_hello fr r \<longleftrightarrow> HEADER_SIZE \<le> length fr \<and> h_tag (read_header fr) = TAG_HELLO \<and>
     sint (h_src (read_header fr)) = int r"

definition wait_inv :: "i32 \<Rightarrow> bool list \<Rightarrow> int \<Rightarrow> bool" where
  "wait_inv n seen remaining \<longleftrightarrow> sint n \<le> int (length seen) \<and>
     remaining = int (card {r. int r < sint n \<and> \<not> seen ! r})"

lemma finite_ranks: "finite {r. int r < k \<and> P r}"
  by (rule finite_subset [of _ "{..<nat k}"]) auto

lemma hello_from_Some:
  "hello_from fr n seen = Some r \<Longrightarrow> says_hello fr r \<and> int r < sint n \<and> \<not> seen ! r"
  by (auto simp: hello_from_def says_hello_def Let_def split: if_splits)

lemma wait_inv_seen:
  assumes "wait_inv n seen remaining" and "int r < sint n" and "\<not> seen ! r"
  shows "wait_inv n (seen[r := True]) (remaining - 1)"
proof -
  have len: "r < length seen" using assms(1,2) by (simp add: wait_inv_def)
  have "{x. int x < sint n \<and> \<not> seen[r := True] ! x} = {x. int x < sint n \<and> \<not> seen ! x} - {r}"
    using len by (auto simp: nth_list_update_if split: if_splits)
  moreover have "0 < card {x. int x < sint n \<and> \<not> seen ! x}"
    using assms(2,3) finite_ranks by (auto simp: card_gt_0_iff)
  ultimately show ?thesis
    using assms finite_ranks by (auto simp: wait_inv_def card_Diff_singleton)
qed

definition hears_all ::
  "'w net \<Rightarrow> 'w os \<Rightarrow> i32 \<Rightarrow> i32 \<Rightarrow> bool list \<Rightarrow> int \<Rightarrow> 'w \<Rightarrow> i32 \<times> bool list \<times> 'w \<Rightarrow> bool" where
  "hears_all N OS sock n seen remaining w res \<longleftrightarrow>
     (wait_inv n seen remaining \<longrightarrow> fst res = MPI_SUCCESS \<longrightarrow>
       (\<exists>frs. heard N OS sock w frs (snd (snd res)) \<and>
          (\<forall>r. int r < sint n \<longrightarrow> seen ! r \<or> (\<exists>fr\<in>set frs. says_hello fr r))))"

lemma hears_all_done:
  assumes "\<not> remaining > 0"
  shows "hears_all N OS sock n seen remaining w (MPI_SUCCESS, seen, w)"
proof -
  have "seen ! r" if "wait_inv n seen remaining" "int r < sint n" for r
  proof (rule ccontr)
    assume "\<not> seen ! r"
    with that(2) have "0 < card {r. int r < sint n \<and> \<not> seen ! r}"
      using finite_ranks by (auto simp: card_gt_0_iff)
    with that(1) assms show False by (simp add: wait_inv_def)
  qed
  then show ?thesis using heard_Nil unfolding hears_all_def by fastforce
qed

lemma hears_all_frame:
  assumes "net_recvfrom N sock w = Some (a, w1)" and "try_recv a = Some fr"
    and IH: "hears_all N OS sock n seen' remaining' (if fr = [] then os_yield OS w1 else w1) res"
    and "wait_inv n seen remaining \<Longrightarrow> wait_inv n seen' remaining'"
    and "\<And>r. int r < sint n \<Longrightarrow> seen' ! r \<Longrightarrow> wait_inv n seen remaining \<Longrightarrow> seen ! r \<or> says_hello fr r"
  shows "hears_all N OS sock n seen remaining w res"
  unfolding hears_all_def
proof (intro impI)
  assume inv: "wait_inv n seen remaining" and ok: "fst res = MPI_SUCCESS"
  with IH assms(4) obtain frs where
    f: "heard N OS sock (if fr = [] then os_yield OS w1 else w1) frs (snd (snd res))"
      "\<forall>r. int r < sint n \<longrightarrow> seen' ! r \<or> (\<exists>fr\<in>set frs. says_hello fr r)"
    unfolding hears_all_def by blast
  from heard_Cons [OF assms(1,2) f(1)] f(2) assms(5) inv
  show "\<exists>frs. heard N OS sock w frs (snd (snd res)) \<and>
      (\<forall>r. int r < sint n \<longrightarrow> seen ! r \<or> (\<exists>fr\<in>set frs. says_hello fr r))"
    by (intro exI [of _ "fr # frs"]) auto
qed

lemma root_wait_hears_all:
  assumes "root_wait N OS sock n seen remaining w = Some res"
  shows "hears_all N OS sock n seen remaining w res"
proof (rule root_wait.raw_induct [OF _ assms, where P = hears_all])
  fix loop and N :: "'b net" and OS sock n seen remaining w res
  assume IH: "\<And>N OS sock n seen remaining w res.
      loop N OS sock n seen remaining w = Some res \<Longrightarrow> hears_all N OS sock n seen remaining w res"
    and body: "(if remaining > 0
      then (case net_recvfrom N sock w of
              None \<Rightarrow> None
            | Some (a, w) \<Rightarrow>
                (case try_recv a of
                   None \<Rightarrow> Some (MPI_ERR_INTERN, seen, w)
                 | Some fr \<Rightarrow>
                     (case hello_from fr n seen of
                        None \<Rightarrow> loop N OS sock n seen remaining
                                    (if fr = [] then os_yield OS w else w)
                      | Some r \<Rightarrow> loop N OS sock n (seen[r := True]) (remaining - 1)
                                    (if fr = [] then os_yield OS w else w))))
      else Some (MPI_SUCCESS, seen, w)) = Some res"
  show "hears_all N OS sock n seen remaining w res"
  proof (cases "remaining > 0")
    case False
    with body hears_all_done show ?thesis by fastforce
  next
    case True
    with body obtain a w1 where a: "net_recvfrom N sock w = Some (a, w1)"
      by (auto split: option.splits)
    show ?thesis
    proof (cases "try_recv a")
      case None
      with True a body have "res = (MPI_ERR_INTERN, seen, w1)" by simp
      then show ?thesis by (simp add: hears_all_def)
    next
      case (Some fr)
      show ?thesis
      proof (cases "hello_from fr n seen")
        case None
        with True a Some body have "loop N OS sock n seen remaining
            (if fr = [] then os_yield OS w1 else w1) = Some res" by simp
        from hears_all_frame [OF a Some IH [OF this]] show ?thesis by blast
      next
        case (Some r)
        note h = hello_from_Some [OF this]
        from True a \<open>try_recv a = Some fr\<close> Some body have "loop N OS sock n (seen[r := True]) (remaining - 1)
            (if fr = [] then os_yield OS w1 else w1) = Some res" by simp
        from hears_all_frame [OF a \<open>try_recv a = Some fr\<close> IH [OF this]] h wait_inv_seen
        show ?thesis by (metis nth_list_update_neq)
      qed
    qed
  qed
qed

lemma parse_rank_args_text:
  assumes "3 \<le> sint argc" and "0 \<le> sint r" and "sint r < sint n" and "sint n \<le> 16"
    and "bytes_at (mpi_mem s) (get64 (mpi_mem s) (argv + 8)) (int_to_str r)"
    and "bytes_at (mpi_mem s) (get64 (mpi_mem s) (argv + 16)) (int_to_str n)"
  shows "parse_rank_args argc argv s = Some (MPI_SUCCESS, s\<lparr>mpi_rank := r, mpi_size := n\<rparr>)"
proof -
  have c: "cstring (mpi_mem s) p (dec_text (nat (sint v)))"
    if "bytes_at (mpi_mem s) p (int_to_str v)" "0 \<le> sint v" for p v
    using that dec_text_no_nul by (simp add: cstring_bytes_at int_to_str_dec)
  have "0 \<le> sint n" using assms(2,3) by simp
  from parse_digits_dec [OF c [OF assms(5,2)]] parse_digits_dec [OF c [OF assms(6) this]] this
  show ?thesis using assms(1-4) by (simp add: parse_rank_args_def of_nat_nat_sint)
qed

section \<open>Properties\<close>

text \<open>
  C27. The launcher and the argument parser agree. On a system where spawning succeeds,
  \<open>MPI_Launch\<close> starts exactly \<open>n\<close> processes, the \<open>r\<close>th with its rank and the size as decimal
  strings in \<open>argv[1]\<close> and \<open>argv[2]\<close>, and returns one process id each; and a process that finds
  these strings there parses them back to rank \<open>r\<close> of \<open>n\<close>.
\<close>

theorem launch_parse_roundtrip:
  assumes "1 \<le> sint n" and "sint n \<le> 16"
    and "\<And>argv w. 0 \<le> sint (fst (os_spawnv OS path argv w))"
  shows "(\<exists>pids. MPI_Launch OS path n w = (MPI_SUCCESS, pids,
            fold (\<lambda>r w. snd (os_spawnv OS path [path, int_to_str (of_nat r), int_to_str n] w))
              [0..<nat (sint n)] w) \<and> length pids = nat (sint n)) \<and>
         (\<forall>r s argc argv. 0 \<le> sint r \<and> sint r < sint n \<and> 3 \<le> sint argc \<and>
            bytes_at (mpi_mem s) (get64 (mpi_mem s) (argv + 8)) (int_to_str r) \<and>
            bytes_at (mpi_mem s) (get64 (mpi_mem s) (argv + 16)) (int_to_str n) \<longrightarrow>
            parse_rank_args argc argv s = Some (MPI_SUCCESS, s\<lparr>mpi_rank := r, mpi_size := n\<rparr>))"
  using launch_loop_all [OF assms(3), of "int_to_str n" 0 "nat (sint n)" "[]" w] assms(1,2)
    parse_rank_args_text by (auto simp: MPI_Launch_def)

definition counting_os :: "nat os" where
  "counting_os = \<lparr>os_socket = (\<lambda>a b c w. (3, w)), os_bind = (\<lambda>s a w. (0, w)),
     os_close = (\<lambda>s w. (0, w)), os_fcntl = (\<lambda>s c a w. (0, w)), os_yield = (\<lambda>w. w),
     os_spawnv = (\<lambda>p a w. (of_nat (w mod 100), w + 1))\<rparr>"

theorem launch_parse_roundtrip_witness:
  "\<exists>pids. MPI_Launch counting_os [65] 2 7 = (MPI_SUCCESS, pids, 9) \<and> length pids = 2"
proof -
  have "0 \<le> sint (fst (os_spawnv counting_os [65] argv w))" for argv w
    by (simp add: counting_os_def sint_of_nat_small)
  moreover have "[0..<2] = [0, 1 :: nat]" by (simp add: numeral_2_eq_2)
  ultimately show ?thesis
    using conjunct1 [OF launch_parse_roundtrip [of 2 counting_os "[65]" 7]] by (simp add: counting_os_def)
qed



text \<open>
  C28. Rank 0 lets nobody go too early: if its waiting loop returns success, then among the
  frames it received there is a hello from every other rank (the initial \<open>seen\<close> marks only rank
  0), whatever else arrived, repeated or unrelated.
\<close>

theorem rendezvous_root_hears_every_rank:
  assumes "1 \<le> sint n" and "sint n \<le> 16"
    and "root_wait N OS sock n ((replicate 16 False)[0 := True]) (sint n - 1) w =
           Some (MPI_SUCCESS, seen, w')"
  shows "\<exists>frs. heard N OS sock w frs w' \<and>
           (\<forall>r. 1 \<le> r \<and> int r < sint n \<longrightarrow> (\<exists>fr\<in>set frs. says_hello fr r))"
proof -
  define seen0 where "seen0 = (replicate 16 False)[0 := True]"
  have nth: "seen0 ! r \<longleftrightarrow> r = 0" if "int r < sint n" for r
    using that assms(2) by (simp add: seen0_def nth_list_update_if)
  have "int r < sint n \<and> \<not> seen0 ! r \<longleftrightarrow> r \<in> {1..<nat (sint n)}" for r
    using nth [of r] by (auto simp: zless_nat_eq_int_zless)
  then have "{r. int r < sint n \<and> \<not> seen0 ! r} = {1..<nat (sint n)}" by blast
  then have "wait_inv n seen0 (sint n - 1)"
    using assms(1,2) by (simp add: wait_inv_def) (simp add: seen0_def)
  with root_wait_hears_all [OF assms(3) [folded seen0_def]] nth show ?thesis
    by (fastforce simp: hears_all_def)
qed

definition hello1 :: "u8 list" where
  "hello1 = header_bytes \<lparr>h_src = 1, h_tag = TAG_HELLO, h_count = 1, h_type = MPI_BYTE\<rparr> @ [0]"

definition list_os :: "recv_answer list os" where
  "list_os = \<lparr>os_socket = (\<lambda>a b c w. (3, w)), os_bind = (\<lambda>s a w. (0, w)),
     os_close = (\<lambda>s w. (0, w)), os_fcntl = (\<lambda>s c a w. (0, w)), os_yield = (\<lambda>w. w),
     os_spawnv = (\<lambda>p a w. (0, w))\<rparr>"

theorem rendezvous_root_hears_every_rank_witness:
  "\<exists>frs. heard loop_net list_os 3 [Datagram hello1] frs [] \<and>
     (\<forall>r. 1 \<le> r \<and> int r < sint (2 :: i32) \<longrightarrow> (\<exists>fr\<in>set frs. says_hello fr r))"
proof (rule rendezvous_root_hears_every_rank)
  have "try_recv (Datagram hello1) = Some hello1" "hello1 \<noteq> []" by (simp_all add: try_recv_def hello1_def)
  moreover have "hello_from hello1 2 ((replicate 16 False)[0 := True]) = Some 1"
    by (simp add: hello_from_def hello1_def)
  ultimately show "root_wait loop_net list_os 3 2 ((replicate 16 False)[0 := True]) (sint (2 :: i32) - 1)
      [Datagram hello1] = Some (MPI_SUCCESS, ((replicate 16 False)[0 := True])[1 := True], [])"
    by (subst root_wait.simps) (simp, subst root_wait.simps, simp)
qed simp_all

end
