(* ===== verification/Neo_Mpi_Barrier.thy ===== *)
theory Neo_Mpi_Barrier
  imports Neo_Mpi_Coll
begin

text \<open>
  What the barrier and the all-reduce of \<open>src/mpi.c\<close> promise (their definitions are in
  \<open>Neo_Mpi_Coll\<close>): the root of a barrier waits for every token, and blocks while one is missing;
  after an all-reduce every rank has the same result.
\<close>

section \<open>Waiting for what does not come\<close>

text \<open>A receive with nothing to match, on a socket that then has no more answers, does not return.\<close>

lemma recv_loop_blocks:
  assumes "queue_wf q" and "feeds N sock w as w'" and "deliver (msg_wanted k) as (content q) = None"
    and "net_recvfrom N sock w' = None"
  shows "recv_loop N sock rank k (q, w, lg) = None"
  using assms(1-3)
proof (induction as arbitrary: q w lg)
  case Nil
  then show ?case using assms(4) by (subst recv_loop.simps) simp
next
  case (Cons a as)
  from Cons.prems(2) obtain w1 where w1: "net_recvfrom N sock w = Some (a, w1)" "feeds N sock w1 as w'"
    by (auto split: option.splits)
  show ?case
  proof (cases a)
    case (RecvErr e)
    with Cons w1 show ?thesis by (subst recv_loop.simps) (auto split: if_splits)
  next
    case (Datagram d)
    show ?thesis
    proof (cases "frame_message d")
      case None
      with Cons Datagram w1 show ?thesis by (subst recv_loop.simps) simp
    next
      case (Some m)
      with Cons.prems(3) Datagram have no: "\<not> msg_wanted k m" by (auto split: if_splits)
      obtain b q1 where q1: "queue_put m q = Some (b, q1)" "queue_wf q1" "content q1 =
          (if length (content q) < PENDING_SLOTS then content q @ [m] else content q)"
        using unexpected.put_room [OF Cons.prems(1) frame_message_fits [OF Some]]
          unexpected.put_full [OF Cons.prems(1)] Cons.prems(1) by metis
      from Cons.IH [OF q1(2) w1(2)] Cons.prems(3) Some no Datagram w1 q1(1,3) show ?thesis
        by (subst recv_loop.simps) simp
    qed
  qed
qed

lemma deliver_none:
  "\<forall>m\<in>set ms. msg_fits m \<and> \<not> P m \<Longrightarrow> deliver P (arrivals ms) hs = None"
  by (induction ms arbitrary: hs) (auto simp: frame_message_encode)

lemma recv_match_blocks:
  assumes "queue_wf (mpi_pending s)" and "\<forall>m\<in>set ms. msg_fits m"
    and "feeds N (mpi_sock s) (mpi_world s) (arrivals ms) w'" and "net_recvfrom N (mpi_sock s) w' = None"
    and "filter (msg_wanted (source, tag)) (content (mpi_pending s) @ ms) = []"
  shows "recv_match N source tag s = None"
proof -
  have no: "\<forall>m\<in>set (content (mpi_pending s)). \<not> msg_wanted (source, tag) m"
    and d: "deliver (msg_wanted (source, tag)) (arrivals ms) (content (mpi_pending s)) = None"
    using assms(2,5) by (auto simp: filter_empty_conv intro: deliver_none)
  from unexpected.take_miss [OF assms(1)] no
  have "queue_take (source, tag) (mpi_pending s) = Some (None, mpi_pending s)"
    by (simp add: take_first_None)
  with recv_loop_blocks [OF assms(1,3) d assms(4)] show ?thesis by (simp add: recv_match_def)
qed

section \<open>The tokens\<close>

lemma MPI_Recv_token:
  assumes "mpi_ready s \<noteq> 0" and "source = MPI_ANY_SOURCE \<or> 0 \<le> sint source \<and> sint source < sint (mpi_size s)"
    and "recv_match N source tag s = Some (Inr c, s')" and "length (snd c) \<le> 1"
  shows "MPI_Recv N tok 1 MPI_BYTE source tag MPI_COMM_WORLD False s =
           Some (MPI_SUCCESS, None, s'\<lparr>mpi_mem := store_bytes (mpi_mem s') tok (snd c)\<rparr>)"
  using MPI_Recv_gets [of s 1 MPI_BYTE source N tag "fst c" "snd c" s' tok False] assms
  by (simp add: type_size_def)

lemma MPI_Recv_blocks:
  assumes "mpi_ready s \<noteq> 0" and "source = MPI_ANY_SOURCE \<or> 0 \<le> sint source \<and> sint source < sint (mpi_size s)"
    and "recv_match N source tag s = None"
  shows "MPI_Recv N tok 1 MPI_BYTE source tag MPI_COMM_WORLD False s = None"
  using assms by (auto simp: MPI_Recv_def type_size_def Let_def)

lemma recv_tokens_step:
  assumes "mpi_ready s \<noteq> 0" and "queue_wf (mpi_pending s)" and "\<forall>m\<in>set ms. msg_fits m"
    and "feeds N (mpi_sock s) (mpi_world s) (arrivals ms) w'"
    and "length (content (mpi_pending s)) + length ms \<le> 16"
    and "filter (msg_wanted (MPI_ANY_SOURCE, tag)) (content (mpi_pending s) @ ms) = c # cs"
    and "length (snd c) \<le> 1"
  shows "\<exists>q w lg m later. (\<forall>k. recv_tokens N tok tag MPI_COMM_WORLD (Suc k) s =
        recv_tokens N tok tag MPI_COMM_WORLD k (s\<lparr>mpi_pending := q, mpi_world := w, mpi_log := lg, mpi_mem := m\<rparr>)) \<and>
      queue_wf q \<and> filter (msg_wanted (MPI_ANY_SOURCE, tag)) (content q @ later) = cs \<and>
      length (content q) + length later \<le> 16 \<and> (\<forall>m\<in>set later. msg_fits m) \<and>
      feeds N (mpi_sock s) w (arrivals later) w'"
proof -
  from recv_match_next [OF assms(2-6)] obtain q w lg later where
    r: "recv_match N MPI_ANY_SOURCE tag s =
          Some (Inr c, s\<lparr>mpi_pending := q, mpi_world := w, mpi_log := lg\<rparr>)" and
    more: "queue_wf q" "filter (msg_wanted (MPI_ANY_SOURCE, tag)) (content q @ later) = cs"
      "length (content q) + length later \<le> 16" "\<forall>m\<in>set later. msg_fits m"
      "feeds N (mpi_sock s) w (arrivals later) w'" by blast
  have "recv_tokens N tok tag MPI_COMM_WORLD (Suc k) s = recv_tokens N tok tag MPI_COMM_WORLD k
      (s\<lparr>mpi_pending := q, mpi_world := w, mpi_log := lg, mpi_mem := store_bytes (mpi_mem s) tok (snd c)\<rparr>)" for k
    using MPI_Recv_token [OF assms(1) _ r, of tok] assms(7) by simp
  with more show ?thesis by blast
qed

lemma recv_tokens_all:
  assumes "mpi_ready s \<noteq> 0" and "queue_wf (mpi_pending s)" and "\<forall>m\<in>set ms. msg_fits m"
    and "feeds N (mpi_sock s) (mpi_world s) (arrivals ms) w'"
    and "length (content (mpi_pending s)) + length ms \<le> 16"
    and "filter (msg_wanted (MPI_ANY_SOURCE, tag)) (content (mpi_pending s) @ ms) = cs"
    and "\<forall>c\<in>set cs. length (snd c) \<le> 1" and "k \<le> length cs"
  shows "\<exists>q w lg m later. recv_tokens N tok tag MPI_COMM_WORLD k s =
             Some (MPI_SUCCESS, s\<lparr>mpi_pending := q, mpi_world := w, mpi_log := lg, mpi_mem := m\<rparr>) \<and>
           queue_wf q \<and> filter (msg_wanted (MPI_ANY_SOURCE, tag)) (content q @ later) = drop k cs \<and>
           feeds N (mpi_sock s) w (arrivals later) w'"
  using assms
proof (induction k arbitrary: s ms cs)
  case 0
  then show ?case
    by (intro exI [of _ "mpi_pending s"] exI [of _ "mpi_world s"] exI [of _ "mpi_log s"] exI [of _ "mpi_mem s"])
      auto
next
  case (Suc k)
  then obtain c cs' where cs: "cs = c # cs'" by (cases cs) auto
  with Suc.prems have c: "length (snd c) \<le> 1" by simp
  from recv_tokens_step [OF Suc.prems(1-6) [unfolded cs] c, of tok] obtain q w lg m later where
    r: "\<forall>k. recv_tokens N tok tag MPI_COMM_WORLD (Suc k) s =
        recv_tokens N tok tag MPI_COMM_WORLD k (s\<lparr>mpi_pending := q, mpi_world := w, mpi_log := lg, mpi_mem := m\<rparr>)"
      "queue_wf q" "filter (msg_wanted (MPI_ANY_SOURCE, tag)) (content q @ later) = cs'"
      "length (content q) + length later \<le> 16" "\<forall>m\<in>set later. msg_fits m"
      "feeds N (mpi_sock s) w (arrivals later) w'" by blast
  from Suc.IH [of "s\<lparr>mpi_pending := q, mpi_world := w, mpi_log := lg, mpi_mem := m\<rparr>" later cs']
    Suc.prems(1,7,8) cs r show ?case by auto
qed

lemma recv_tokens_blocks:
  assumes "mpi_ready s \<noteq> 0" and "queue_wf (mpi_pending s)" and "\<forall>m\<in>set ms. msg_fits m"
    and "feeds N (mpi_sock s) (mpi_world s) (arrivals ms) w'"
    and "length (content (mpi_pending s)) + length ms \<le> 16"
    and "filter (msg_wanted (MPI_ANY_SOURCE, tag)) (content (mpi_pending s) @ ms) = cs"
    and "\<forall>c\<in>set cs. length (snd c) \<le> 1" and "length cs < k" and "net_recvfrom N (mpi_sock s) w' = None"
  shows "recv_tokens N tok tag MPI_COMM_WORLD k s = None"
  using assms
proof (induction k arbitrary: s ms cs)
  case (Suc k)
  show ?case
  proof (cases cs)
    case Nil
    with MPI_Recv_blocks [OF Suc.prems(1) _ recv_match_blocks [OF Suc.prems(2-4,9)]] Suc.prems(6)
    show ?thesis by simp
  next
    case (Cons c cs')
    with Suc.prems have c: "length (snd c) \<le> 1" by simp
    from recv_tokens_step [OF Suc.prems(1-6) [unfolded Cons] c, of tok] obtain q w lg m later where
      r: "\<forall>k. recv_tokens N tok tag MPI_COMM_WORLD (Suc k) s =
          recv_tokens N tok tag MPI_COMM_WORLD k (s\<lparr>mpi_pending := q, mpi_world := w, mpi_log := lg, mpi_mem := m\<rparr>)"
        "queue_wf q" "filter (msg_wanted (MPI_ANY_SOURCE, tag)) (content q @ later) = cs'"
        "length (content q) + length later \<le> 16" "\<forall>m\<in>set later. msg_fits m"
        "feeds N (mpi_sock s) w (arrivals later) w'" by blast
    from Suc.IH [of "s\<lparr>mpi_pending := q, mpi_world := w, mpi_log := lg, mpi_mem := m\<rparr>" later cs']
      Suc.prems(1,7-9) Cons r show ?thesis by (simp del: recv_tokens.simps)
  qed
qed simp

section \<open>The barrier\<close>

lemma barrier_root:
  assumes "mpi_ready s \<noteq> 0" and "mpi_rank s = 0" and "1 < sint (mpi_size s)"
  shows "MPI_Barrier N tok MPI_COMM_WORLD s =
     (let s1 = s\<lparr>coll_seq := coll_seq s + 1, mpi_mem := (mpi_mem s)(tok := 0)\<rparr> in
      case recv_tokens N tok (coll_tag (coll_seq s + 1) COLL_BARRIER_IN) MPI_COMM_WORLD
             (nat (sint (mpi_size s)) - 1) s1 of
        None \<Rightarrow> None
      | Some (rc, s2) \<Rightarrow>
          if rc \<noteq> MPI_SUCCESS then Some (rc, s2)
          else send_to_ranks N tok 1 MPI_BYTE (coll_tag (coll_seq s + 1) COLL_BARRIER_OUT) MPI_COMM_WORLD
                 (ranks_from 1 (mpi_size s2)) s2)"
proof -
  have "mpi_size s \<noteq> 1" using assms(3) by auto
  with assms show ?thesis by (auto simp: MPI_Barrier_def Let_def split: option.split)
qed

lemma barrier_rank:
  assumes "mpi_ready s \<noteq> 0" and "mpi_rank s \<noteq> 0" and "1 < sint (mpi_size s)"
    and "0 \<le> sint (fst (net_sendto N (mpi_sock s) (addr_for_rank 0) fr (mpi_world s)))"
    and "fr = encode (\<lparr>h_src = mpi_rank s, h_tag = coll_tag (coll_seq s + 1) COLL_BARRIER_IN, h_count = 1,
                       h_type = MPI_BYTE\<rparr>, [0])"
  shows "MPI_Barrier N tok MPI_COMM_WORLD s =
     map_option (\<lambda>(rc, _, s). (rc, s))
       (MPI_Recv N tok 1 MPI_BYTE 0 (coll_tag (coll_seq s + 1) COLL_BARRIER_OUT) MPI_COMM_WORLD False
         (s\<lparr>coll_seq := coll_seq s + 1, mpi_mem := (mpi_mem s)(tok := 0),
            mpi_world := snd (net_sendto N (mpi_sock s) (addr_for_rank 0) fr (mpi_world s))\<rparr>))"
proof -
  let ?s1 = "s\<lparr>coll_seq := coll_seq s + 1, mpi_mem := (mpi_mem s)(tok := 0)\<rparr>"
  let ?tag = "coll_tag (coll_seq s + 1) COLL_BARRIER_IN"
  have one: "mpi_size s \<noteq> 1" using assms(3) by auto
  have "send_valid ?s1 1 MPI_BYTE 0 ?tag"
    using assms(1,3) coll_tag_nonneg [of 1 "coll_seq s + 1"] by (simp add: send_valid_def type_size_def)
  from MPI_Send_valid(1) [OF this, of N tok]
  have "MPI_Send N tok 1 MPI_BYTE 0 ?tag MPI_COMM_WORLD ?s1 = Some (MPI_SUCCESS, ?s1\<lparr>mpi_world :=
      snd (net_sendto N (mpi_sock s) (addr_for_rank 0) fr (mpi_world s))\<rparr>)"
    using assms(4,5) by (simp add: message_of_def type_size_def Let_def split_def not_less)
  with assms(1,2) one show ?thesis
    by (simp add: MPI_Barrier_def Let_def split: option.splits)
qed

section \<open>All-reduce\<close>

lemma int_send_valid:
  assumes "mpi_ready s \<noteq> 0" and "0 \<le> sint r" and "sint r < sint (mpi_size s)"
    and "0 \<le> sint cnt" and "sint cnt \<le> 2048" and "0 \<le> sint tag"
  shows "send_valid s cnt MPI_INT r tag"
  using assms by (simp add: send_valid_def type_size_def)

lemma reduce_other:
  assumes "mpi_ready b \<noteq> 0" and "mpi_rank b \<noteq> 0" and "1 < sint (mpi_size b)"
    and "op_int op = Some g" and "0 \<le> sint cnt" and "sint cnt \<le> 2048"
    and "net_sendto M (mpi_sock b) (addr_for_rank 0) (encode (message_of b sendbuf cnt MPI_INT
           (coll_tag (coll_seq b + 1) COLL_REDUCE))) (mpi_world b) = (n, w)" and "0 \<le> sint n"
  shows "MPI_Reduce M F sendbuf recvbuf cnt MPI_INT op 0 MPI_COMM_WORLD b =
           Some (MPI_SUCCESS, b\<lparr>coll_seq := coll_seq b + 1, mpi_world := w\<rparr>)"
proof -
  let ?b = "b\<lparr>coll_seq := coll_seq b + 1\<rparr>" and ?tag = "coll_tag (coll_seq b + 1) COLL_REDUCE"
  have op: "0 \<le> sint op \<and> sint op \<le> 3" using assms(4) by (auto simp: op_int_def split: if_splits)
  have "sint (cnt * 4) = sint cnt * 4" using sint_mult_i32 [of cnt 4] assms(5,6) by simp
  with assms(1-3,5,6) op have "MPI_Reduce M F sendbuf recvbuf cnt MPI_INT op 0 MPI_COMM_WORLD b =
      MPI_Send M sendbuf cnt MPI_INT 0 ?tag MPI_COMM_WORLD ?b"
    by (simp add: MPI_Reduce_def type_size_def Let_def)
  moreover have "send_valid ?b cnt MPI_INT 0 ?tag"
    using assms(1,3,5,6) coll_tag_nonneg [of 4 "coll_seq b + 1"] by (intro int_send_valid) auto
  moreover have "message_of ?b sendbuf cnt MPI_INT ?tag = message_of b sendbuf cnt MPI_INT ?tag"
    by (simp add: message_of_def)
  ultimately show ?thesis using MPI_Send_valid(1) [of ?b cnt MPI_INT 0 ?tag M sendbuf] assms(7,8) by simp
qed

section \<open>Properties\<close>

text \<open>
  The root of a barrier. Let the messages \<open>ms\<close> be what arrives at rank 0, with at most sixteen
  messages in play, and let \<open>cs\<close> be the tokens of this barrier among those held back and arriving.
  If there are at least as many as there are other ranks, \<open>MPI_Barrier\<close> succeeds, and the releases
  to ranks \<open>1 .. n - 1\<close>, in this order, go out only after the receives. If a token is missing and
  nothing else arrives, the call does not return, and so releases nobody.
\<close>

lemma barrier_root_waits_for_all:
  assumes "mpi_ready s \<noteq> 0" and "mpi_rank s = 0" and "1 < sint (mpi_size s)"
    and "queue_wf (mpi_pending s)" and "\<forall>m\<in>set ms. msg_fits m"
    and "feeds N (mpi_sock s) (mpi_world s) (arrivals ms) w'"
    and "length (content (mpi_pending s)) + length ms \<le> 16"
    and "filter (msg_wanted (MPI_ANY_SOURCE, coll_tag (coll_seq s + 1) COLL_BARRIER_IN))
           (content (mpi_pending s) @ ms) = cs"
    and "\<forall>c\<in>set cs. length (snd c) \<le> 1"
    and "\<And>to fr w. 0 \<le> sint (fst (net_sendto N (mpi_sock s) to fr w))"
  shows "(sint (mpi_size s) - 1 \<le> int (length cs) \<longrightarrow>
           (\<exists>s' w later. MPI_Barrier N tok MPI_COMM_WORLD s = Some (MPI_SUCCESS, s') \<and>
              feeds N (mpi_sock s) w (arrivals later) w' \<and> coll_seq s' = coll_seq s + 1 \<and>
              mpi_world s' = sends_to N (mpi_sock s)
                (encode (message_of s' tok 1 MPI_BYTE (coll_tag (coll_seq s + 1) COLL_BARRIER_OUT)))
                (ranks_from 1 (mpi_size s)) w)) \<and>
         (int (length cs) < sint (mpi_size s) - 1 \<and> net_recvfrom N (mpi_sock s) w' = None \<longrightarrow>
           MPI_Barrier N tok MPI_COMM_WORLD s = None)"
proof (intro conjI impI)
  let ?s = "s\<lparr>coll_seq := coll_seq s + 1, mpi_mem := (mpi_mem s)(tok := 0)\<rparr>"
  let ?in = "coll_tag (coll_seq s + 1) COLL_BARRIER_IN" and ?out = "coll_tag (coll_seq s + 1) COLL_BARRIER_OUT"
  assume "sint (mpi_size s) - 1 \<le> int (length cs)"
  then have k: "nat (sint (mpi_size s)) - 1 \<le> length cs" by linarith
  have "filter (msg_wanted (MPI_ANY_SOURCE, ?in)) (content (mpi_pending ?s) @ ms) = cs" using assms(8) by simp
  from recv_tokens_all [OF _ _ assms(5) _ _ this assms(9) k, of N w' tok] assms(1,4,6,7)
  obtain q w lg m later where
    r: "recv_tokens N tok ?in MPI_COMM_WORLD (nat (sint (mpi_size s)) - 1) ?s = Some (MPI_SUCCESS,
          ?s\<lparr>mpi_pending := q, mpi_world := w, mpi_log := lg, mpi_mem := m\<rparr>)" and
    f: "feeds N (mpi_sock s) w (arrivals later) w'" by auto
  let ?s2 = "?s\<lparr>mpi_pending := q, mpi_world := w, mpi_log := lg, mpi_mem := m\<rparr>"
  have "\<forall>k\<in>set (ranks_from 1 (mpi_size s)). send_valid ?s2 1 MPI_BYTE k ?out"
    using assms(1) coll_tag_nonneg [of 2 "coll_seq s + 1"]
    by (auto simp: send_valid_def type_size_def dest!: ranks_from_bounds)
  from send_to_ranks_all [OF this, of N tok] assms(10) r barrier_root [OF assms(1-3), of N tok] f
  show "\<exists>s' w later. MPI_Barrier N tok MPI_COMM_WORLD s = Some (MPI_SUCCESS, s') \<and>
              feeds N (mpi_sock s) w (arrivals later) w' \<and> coll_seq s' = coll_seq s + 1 \<and>
              mpi_world s' = sends_to N (mpi_sock s)
                (encode (message_of s' tok 1 MPI_BYTE ?out)) (ranks_from 1 (mpi_size s)) w"
    by (auto simp: message_of_def Let_def)
next
  assume "int (length cs) < sint (mpi_size s) - 1 \<and> net_recvfrom N (mpi_sock s) w' = None"
  with recv_tokens_blocks [of "s\<lparr>coll_seq := coll_seq s + 1, mpi_mem := (mpi_mem s)(tok := 0)\<rparr>" ms N w'
      "coll_tag (coll_seq s + 1) COLL_BARRIER_IN" cs "nat (sint (mpi_size s)) - 1" tok] assms(1,4-9)
  show "MPI_Barrier N tok MPI_COMM_WORLD s = None"
    unfolding barrier_root [OF assms(1-3)] by (auto simp: Let_def)
qed

text \<open>
  The other ranks of a barrier. Rank \<open>r\<close> sends rank 0 one token of this barrier, and then: if the
  release of this barrier from rank 0 is among the messages held back or arriving, the call
  succeeds; if it is not and nothing else arrives, the call does not return.
\<close>

lemma barrier_rank_waits_for_release:
  assumes "mpi_ready s \<noteq> 0" and "mpi_rank s \<noteq> 0" and "1 < sint (mpi_size s)"
    and "fr = encode (\<lparr>h_src = mpi_rank s, h_tag = coll_tag (coll_seq s + 1) COLL_BARRIER_IN, h_count = 1,
                       h_type = MPI_BYTE\<rparr>, [0])"
    and "net_sendto N (mpi_sock s) (addr_for_rank 0) fr (mpi_world s) = (n, w)" and "0 \<le> sint n"
    and "queue_wf (mpi_pending s)" and "\<forall>m\<in>set ms. msg_fits m"
    and "feeds N (mpi_sock s) w (arrivals ms) w'"
    and "length (content (mpi_pending s)) + length ms \<le> 16"
    and "filter (msg_wanted (0, coll_tag (coll_seq s + 1) COLL_BARRIER_OUT)) (content (mpi_pending s) @ ms) = cs"
    and "\<forall>c\<in>set cs. length (snd c) \<le> 1"
  shows "(cs \<noteq> [] \<longrightarrow> (\<exists>s'. MPI_Barrier N tok MPI_COMM_WORLD s = Some (MPI_SUCCESS, s') \<and>
            coll_seq s' = coll_seq s + 1)) \<and>
         (cs = [] \<and> net_recvfrom N (mpi_sock s) w' = None \<longrightarrow> MPI_Barrier N tok MPI_COMM_WORLD s = None)"
proof -
  let ?s = "s\<lparr>coll_seq := coll_seq s + 1, mpi_mem := (mpi_mem s)(tok := 0), mpi_world := w\<rparr>"
  let ?out = "coll_tag (coll_seq s + 1) COLL_BARRIER_OUT"
  from barrier_rank [OF assms(1-3) _ assms(4), of N tok] assms(5,6)
  have b: "MPI_Barrier N tok MPI_COMM_WORLD s = map_option (\<lambda>(rc, _, s). (rc, s))
       (MPI_Recv N tok 1 MPI_BYTE 0 ?out MPI_COMM_WORLD False ?s)" by simp
  show ?thesis
  proof (cases cs)
    case Nil
    from recv_match_blocks [of ?s ms N w' 0 ?out] assms(7-9,11) Nil
    have "net_recvfrom N (mpi_sock s) w' = None \<Longrightarrow> recv_match N 0 ?out ?s = None" by simp
    with MPI_Recv_blocks [of ?s 0 N ?out tok] assms(1,3) Nil b show ?thesis by auto
  next
    case (Cons c cs')
    from recv_match_next [of ?s ms N w' 0 ?out c cs'] assms(7-11) Cons obtain q w2 lg where
      "recv_match N 0 ?out ?s = Some (Inr c, ?s\<lparr>mpi_pending := q, mpi_world := w2, mpi_log := lg\<rparr>)" by auto
    from MPI_Recv_token [OF _ _ this, of tok] assms(1,3,12) Cons b show ?thesis by auto
  qed
qed

text \<open>
  C14. All-reduce of \<open>int\<close>s. When the contributions to this call reach rank 0 (in any order, mixed with
  other messages, sixteen in all), \<open>MPI_Allreduce\<close> succeeds there, each element of its receive buffer is
  the sum, product, maximum or minimum of its own and the contributed elements, and the buffer goes out to every
  other rank in one and the same datagram. Another rank \<open>b\<close> at the same sequence number sends its
  contribution and then, when that datagram is next on its socket, succeeds with the bytes of rank 0's
  buffer in its own: after the call all ranks have the same result.
\<close>

theorem allreduce_same_everywhere:
  assumes "mpi_ready a \<noteq> 0" and "mpi_rank a = 0" and "1 < sint (mpi_size a)"
    and "op \<in> {MPI_SUM, MPI_PROD, MPI_MAX, MPI_MIN}" and "0 \<le> sint cnt" and "sint cnt \<le> 2048"
    and "object_at recvbuf (of_nat (4 * nat (sint cnt)))"
    and "object_at sendbuf (of_nat (4 * nat (sint cnt)))"
    and "recvbuf < sendbuf \<or> unat sendbuf + 4 * nat (sint cnt) \<le> unat recvbuf"
    and "queue_wf (mpi_pending a)" and "\<forall>m\<in>set ms. msg_fits m"
    and "feeds N (mpi_sock a) (mpi_world a) (arrivals ms) w'"
    and "length (content (mpi_pending a)) + length ms \<le> 16"
    and "filter (msg_wanted (MPI_ANY_SOURCE, coll_tag (coll_seq a + 1) COLL_REDUCE))
           (content (mpi_pending a) @ ms) = cs"
    and "int (length cs) = sint (mpi_size a) - 1"
    and "\<forall>c\<in>set cs. length (snd c) = 4 * nat (sint cnt)"
    and "\<And>to fr w. 0 \<le> sint (fst (net_sendto N (mpi_sock a) to fr w))"
    and "mpi_ready b \<noteq> 0" and "mpi_rank b \<noteq> 0" and "mpi_size b = mpi_size a" and "coll_seq b = coll_seq a"
    and "queue_wf (mpi_pending b)"
    and "tag = coll_tag (coll_seq a + 2) COLL_BCAST"
    and "\<forall>m\<in>set (content (mpi_pending b)). \<not> msg_wanted (0, tag) m"
    and "net_sendto M (mpi_sock b) (addr_for_rank 0) (encode (message_of b bsend cnt MPI_INT
           (coll_tag (coll_seq b + 1) COLL_REDUCE))) (mpi_world b) = (n, wb)" and "0 \<le> sint n"
  shows "\<exists>a' w. MPI_Allreduce N F sendbuf recvbuf cnt MPI_INT op MPI_COMM_WORLD a = Some (MPI_SUCCESS, a') \<and>
           (\<forall>j<nat (sint cnt). reduced op
              (get32 (mpi_mem a) (sendbuf + of_nat (4 * j)) # map (\<lambda>c. un_le32 (take 4 (drop (4 * j) (snd c)))) cs)
              (get32 (mpi_mem a') (recvbuf + of_nat (4 * j)))) \<and>
           mpi_world a' = sends_to N (mpi_sock a) (encode (message_of a' recvbuf cnt MPI_INT tag))
             (filter (\<lambda>i. i \<noteq> 0) (ranks_from 0 (mpi_size a))) w \<and>
           (net_recvfrom M (mpi_sock b) wb =
                Some (Datagram (encode (message_of a' recvbuf cnt MPI_INT tag)), wb') \<longrightarrow>
              (\<exists>b'. MPI_Allreduce M F bsend brecv cnt MPI_INT op MPI_COMM_WORLD b = Some (MPI_SUCCESS, b') \<and>
                 bytes_at (mpi_mem b') brecv (load_bytes (mpi_mem a') recvbuf (4 * nat (sint cnt)))))"
proof -
  from op_int_ex [OF assms(4)] obtain g where g: "op_int op = Some g" ..
  with reduce_int_reduced [of a op cnt recvbuf sendbuf ms N w' cs F] assms(1-16) obtain a1 where
    r: "MPI_Reduce N F sendbuf recvbuf cnt MPI_INT op 0 MPI_COMM_WORLD a = Some (MPI_SUCCESS, a1)"
      "\<forall>j<nat (sint cnt). reduced op
         (get32 (mpi_mem a) (sendbuf + of_nat (4 * j)) # map (\<lambda>c. un_le32 (take 4 (drop (4 * j) (snd c)))) cs)
         (get32 (mpi_mem a1) (recvbuf + of_nat (4 * j)))" and
    same: "mpi_rank a1 = 0" "mpi_size a1 = mpi_size a" "mpi_sock a1 = mpi_sock a" "mpi_ready a1 = mpi_ready a"
      "coll_seq a1 = coll_seq a + 1" by (auto simp: same_setup_def)
  have two: "x + 1 + 1 = (x + 2 :: u32)" for x by simp
  have tag: "tag = coll_tag (coll_seq a1 + 1) COLL_BCAST" by (simp only: assms(23) same(5) two)
  have v: "send_valid a1 cnt MPI_INT (mpi_rank a1) 0"
    using assms(1,3,5,6) same by (intro int_send_valid) auto
  let ?a = "a1\<lparr>coll_seq := coll_seq a1 + 1, mpi_world := sends_to N (mpi_sock a1)
      (encode (message_of a1 recvbuf cnt MPI_INT tag)) (filter (\<lambda>i. i \<noteq> mpi_rank a1) (ranks_from 0 (mpi_size a1)))
      (mpi_world a1)\<rparr>"
  have m: "message_of ?a recvbuf cnt MPI_INT tag = message_of a1 recvbuf cnt MPI_INT tag"
    by (simp add: message_of_def)
  have "MPI_Bcast N recvbuf cnt MPI_INT (mpi_rank a1) MPI_COMM_WORLD a1 = Some (MPI_SUCCESS, ?a)"
    using assms(3,17) same(2,3) by (intro bcast_root [OF v _ _ tag]) auto
  then have root: "MPI_Allreduce N F sendbuf recvbuf cnt MPI_INT op MPI_COMM_WORLD a = Some (MPI_SUCCESS, ?a)"
    using r(1) same(1) by (simp add: MPI_Allreduce_def)
  let ?b = "b\<lparr>coll_seq := coll_seq b + 1, mpi_world := wb\<rparr>"
  have "\<exists>b'. MPI_Allreduce M F bsend brecv cnt MPI_INT op MPI_COMM_WORLD b = Some (MPI_SUCCESS, b') \<and>
      bytes_at (mpi_mem b') brecv (load_bytes (mpi_mem a1) recvbuf (4 * nat (sint cnt)))"
    if "net_recvfrom M (mpi_sock b) wb = Some (Datagram (encode (message_of a1 recvbuf cnt MPI_INT tag)), wb')"
  proof -
    have "MPI_Reduce M F bsend brecv cnt MPI_INT op 0 MPI_COMM_WORLD b = Some (MPI_SUCCESS, ?b)"
      using assms(3,20) by (intro reduce_other [OF assms(18,19) _ g assms(5,6,25,26)]) simp
    moreover have "tag = coll_tag (coll_seq ?b + 1) COLL_BCAST"
      using assms(21) tag same(5) by simp
    with bcast_other [OF v, of ?b tag M recvbuf wb' brecv] that assms(3,18-20,22,24) same(1-4)
    obtain b' where "MPI_Bcast M brecv cnt MPI_INT 0 MPI_COMM_WORLD ?b = Some (MPI_SUCCESS, b')"
      "bytes_at (mpi_mem b') brecv (load_bytes (mpi_mem a1) recvbuf (nat (sint cnt * 4)))"
      by (auto simp: type_size_def)
    moreover have "nat (sint cnt * 4) = 4 * nat (sint cnt)" by simp
    ultimately show ?thesis by (simp add: MPI_Allreduce_def)
  qed
  with root r(2) same m show ?thesis
    by (intro exI [of _ ?a] exI [of _ "mpi_world a1"]) simp
qed

text \<open>Two ranks sum 7 and 5; the datagram \<open>d\<close> waits on the socket of rank 1.\<close>

definition demo_root :: "recv_answer list mpi" where
  "demo_root = rank_state 0 2 (\<lambda>x. if x = 0 then 7 else 0) (arrivals [demo_contribution])"

definition demo_rank :: "u8 list \<Rightarrow> recv_answer list mpi" where
  "demo_rank d = rank_state 1 2 (\<lambda>x. if x = 0 then 5 else 0) [Datagram d]"

theorem allreduce_same_everywhere_witness:
  "\<exists>a' b'. MPI_Allreduce loop_net no_fpu 0 64 1 MPI_INT MPI_SUM MPI_COMM_WORLD demo_root = Some (MPI_SUCCESS, a') \<and>
     get32 (mpi_mem a') 64 = 12 \<and>
     MPI_Allreduce loop_net no_fpu 0 64 1 MPI_INT MPI_SUM MPI_COMM_WORLD
       (demo_rank (encode (message_of a' 64 1 MPI_INT (coll_tag 2 COLL_BCAST)))) = Some (MPI_SUCCESS, b') \<and>
     bytes_at (mpi_mem b') 64 (load_bytes (mpi_mem a') 64 4)"
proof -
  have seq: "coll_seq demo_root = 0" "content (mpi_pending demo_root) = []"
    by (simp_all add: demo_root_def content_empty)
  have "coll_tag 1 COLL_REDUCE \<noteq> 7" using coll_tag_above(1) [of 4 1] by auto
  then have f: "filter (msg_wanted (MPI_ANY_SOURCE, coll_tag (coll_seq demo_root + 1) COLL_REDUCE))
      (content (mpi_pending demo_root) @ [demo_contribution]) = [demo_contribution]"
    by (simp add: seq msg_wanted_def matches_def demo_contribution_def)
  note feeds = feeds_loop_net [of 3 "arrivals [demo_contribution]" "[]"]
  let ?own = "\<lambda>d. Datagram (encode (message_of (demo_rank d) 0 1 MPI_INT (coll_tag (coll_seq (demo_rank d) + 1) COLL_REDUCE)))"
  note rule = allreduce_same_everywhere [of demo_root MPI_SUM 1 64 0 "[demo_contribution]" loop_net
      "[]" "[demo_contribution]" "demo_rank d" _ loop_net 0 0 "[Datagram d, ?own d]" no_fpu "[?own d]" 64 for d, OF _ _ _ _ _ _ _ _ _ _ _ _ _ f
      _ _ _ _ _ _ _ _ refl]
  have ranks: "\<exists>a'. MPI_Allreduce loop_net no_fpu 0 64 1 MPI_INT MPI_SUM MPI_COMM_WORLD demo_root = Some (MPI_SUCCESS, a') \<and>
     get32 (mpi_mem a') 64 = 12 \<and> (d = encode (message_of a' 64 1 MPI_INT (coll_tag 2 COLL_BCAST)) \<longrightarrow>
       (\<exists>b'. MPI_Allreduce loop_net no_fpu 0 64 1 MPI_INT MPI_SUM MPI_COMM_WORLD (demo_rank d) = Some (MPI_SUCCESS, b') \<and>
          bytes_at (mpi_mem b') 64 (load_bytes (mpi_mem a') 64 4)))" for d
    using rule [of d] feeds
    by (simp add: reduced_def object_at_def empty_queue_wf content_empty msg_fits_def demo_root_def demo_rank_def
        demo_contribution_def le32_def un_le32_def get32_def) blast
  from ranks [of "[]"] obtain a' where "MPI_Allreduce loop_net no_fpu 0 64 1 MPI_INT MPI_SUM MPI_COMM_WORLD demo_root =
      Some (MPI_SUCCESS, a')" by blast
  with ranks [of "encode (message_of a' 64 1 MPI_INT (coll_tag 2 COLL_BCAST))"] show ?thesis by auto
qed

end
