(* ===== verification/Neo_Mpi_World.thy ===== *)
theory Neo_Mpi_World
  imports Neo_Mpi_Barrier
begin

text \<open>
  All ranks of an MPI program at once (\<open>src/mpi.c\<close>). Each rank has its own copy of the library's
  variables; they share only the network. Ranks are interleaved at every \<open>MPI_Send\<close>, \<open>MPI_Recv\<close> and
  \<open>recv_match\<close> call inside the collectives, and between collectives the application sends messages with its own
  tags, receives with any tag and changes its memory. (A call touches no other rank's variables, and a receive takes datagrams
  from its own socket only, so nothing is lost by taking a call as one step.)

  The network is a parameter: a socket layer for every rank over one world, and \<open>inbox w i\<close>, the
  datagrams under way to rank \<open>i\<close> in world \<open>w\<close>. What is assumed of it is \<open>datagrams_conserved\<close>: it may
  lose, delay and reorder datagrams and report errors, but it does not invent or duplicate them.
\<close>

section \<open>The model\<close>

text \<open>
  Where a rank is: in the application after a call that returned \<open>rc\<close> (\<open>BUser rc\<close>); in
  \<open>MPI_Barrier\<close> on rank 0, with a number of tokens still to receive (\<open>BRecv\<close>) or ranks still to release
  (\<open>BSend\<close>); in \<open>MPI_Barrier\<close> on another rank, at the send of its token (\<open>BToken\<close>) or at the receive of the
  release (\<open>BAwait\<close>); in another collective (\<open>BOther\<close>): sending to the ranks left (\<open>OSend\<close>) or receiving
  (\<open>ORecv\<close>) in a broadcast; sending its contribution (\<open>OGive\<close>) or with a number of contributions still to take
  (\<open>OTake\<close>) in a reduction, which is followed by a broadcast when it is part of an all-reduce.
\<close>

datatype opc = OSend addr i32 i32 "i32 list" | ORecv addr i32 i32 i32
  | OGive addr addr i32 i32 i32 bool | OTake addr i32 i32 i32 bool nat

datatype bpc = BUser i32 | BRecv addr nat | BSend addr "i32 list" | BToken addr | BAwait addr | BOther opc

definition barrier_enter :: "addr \<Rightarrow> i32 \<Rightarrow> 'w mpi \<Rightarrow> bpc \<times> 'w mpi" where
  "barrier_enter tok comm s =
     (if comm \<noteq> MPI_COMM_WORLD then (BUser MPI_ERR_COMM, s)
      else if mpi_ready s = 0 then (BUser MPI_ERR_OTHER, s)
      else if mpi_size s = 1 then (BUser MPI_SUCCESS, s)
      else (if mpi_rank s = 0 then BRecv tok (nat (sint (mpi_size s)) - 1) else BToken tok,
            s\<lparr>coll_seq := coll_seq s + 1, mpi_mem := (mpi_mem s)(tok := 0)\<rparr>))"

text \<open>One call of \<open>MPI_Send\<close> or \<open>MPI_Recv\<close>, or the end of a loop; \<open>None\<close> while the call blocks.\<close>

fun barrier_next :: "'w net \<Rightarrow> bpc \<Rightarrow> 'w mpi \<Rightarrow> (bpc \<times> 'w mpi) option" where
  "barrier_next N (BRecv tok 0) s = Some (BSend tok (ranks_from 1 (mpi_size s)), s)"
| "barrier_next N (BRecv tok (Suc k)) s =
     (case MPI_Recv N tok 1 MPI_BYTE MPI_ANY_SOURCE (coll_tag (coll_seq s) COLL_BARRIER_IN) MPI_COMM_WORLD False s of
        None \<Rightarrow> None
      | Some (rc, _, s) \<Rightarrow> Some (if rc \<noteq> MPI_SUCCESS then BUser rc else BRecv tok k, s))"
| "barrier_next N (BSend tok []) s = Some (BUser MPI_SUCCESS, s)"
| "barrier_next N (BSend tok (r # rs)) s =
     (case MPI_Send N tok 1 MPI_BYTE r (coll_tag (coll_seq s) COLL_BARRIER_OUT) MPI_COMM_WORLD s of
        None \<Rightarrow> None
      | Some (rc, s) \<Rightarrow> Some (if rc \<noteq> MPI_SUCCESS then BUser rc else BSend tok rs, s))"
| "barrier_next N (BToken tok) s =
     (case MPI_Send N tok 1 MPI_BYTE 0 (coll_tag (coll_seq s) COLL_BARRIER_IN) MPI_COMM_WORLD s of
        None \<Rightarrow> None
      | Some (rc, s) \<Rightarrow> Some (if rc \<noteq> MPI_SUCCESS then BUser rc else BAwait tok, s))"
| "barrier_next N (BAwait tok) s =
     (case MPI_Recv N tok 1 MPI_BYTE 0 (coll_tag (coll_seq s) COLL_BARRIER_OUT) MPI_COMM_WORLD False s of
        None \<Rightarrow> None
      | Some (rc, _, s) \<Rightarrow> Some (BUser rc, s))"
| "barrier_next N (BUser rc) s = None"
| "barrier_next N (BOther p) s = None"

text \<open>The other collectives in the same way; \<open>all\<close> marks the reduction of an all-reduce.\<close>

definition bcast_enter :: "addr \<Rightarrow> i32 \<Rightarrow> i32 \<Rightarrow> i32 \<Rightarrow> i32 \<Rightarrow> 'w mpi \<Rightarrow> bpc \<times> 'w mpi" where
  "bcast_enter buf cnt type root comm s =
     (if comm \<noteq> MPI_COMM_WORLD then (BUser MPI_ERR_COMM, s)
      else if mpi_ready s = 0 then (BUser MPI_ERR_OTHER, s)
      else if sint root < 0 \<or> sint root \<ge> sint (mpi_size s) then (BUser MPI_ERR_RANK, s)
      else (if mpi_size s = 1 then BUser MPI_SUCCESS
            else if mpi_rank s = root
            then BOther (OSend buf cnt type (filter (\<lambda>i. i \<noteq> root) (ranks_from 0 (mpi_size s))))
            else BOther (ORecv buf cnt type root),
            s\<lparr>coll_seq := coll_seq s + 1\<rparr>))"

definition reduce_enter ::
  "addr \<Rightarrow> addr \<Rightarrow> i32 \<Rightarrow> i32 \<Rightarrow> i32 \<Rightarrow> i32 \<Rightarrow> i32 \<Rightarrow> bool \<Rightarrow> 'w mpi \<Rightarrow> bpc \<times> 'w mpi" where
  "reduce_enter sendbuf recvbuf cnt type op root comm all s =
     (if comm \<noteq> MPI_COMM_WORLD then (BUser MPI_ERR_COMM, s)
      else if mpi_ready s = 0 then (BUser MPI_ERR_OTHER, s)
      else if sint root < 0 \<or> sint root \<ge> sint (mpi_size s) then (BUser MPI_ERR_RANK, s)
      else if sint op < sint MPI_SUM \<or> sint op > sint MPI_MIN then (BUser MPI_ERR_OP, s)
      else if sint (type_size type) < 0 then (BUser MPI_ERR_TYPE, s)
      else if sint (cnt * type_size type) > int MPI_MAX_MESSAGE then (BUser MPI_ERR_COUNT, s)
      else if mpi_rank s \<noteq> root
      then (BOther (OGive sendbuf recvbuf cnt type root all), s\<lparr>coll_seq := coll_seq s + 1\<rparr>)
      else (BOther (OTake recvbuf cnt type op all (nat (sint (mpi_size s)) - 1)),
            s\<lparr>coll_seq := coll_seq s + 1,
              mpi_mem := snd (memcpy recvbuf sendbuf (sext (cnt * type_size type)) (mpi_mem s))\<rparr>))"

definition reduce_leave :: "bool \<Rightarrow> addr \<Rightarrow> i32 \<Rightarrow> i32 \<Rightarrow> i32 \<Rightarrow> 'w mpi \<Rightarrow> bpc \<times> 'w mpi" where
  "reduce_leave all recvbuf cnt type rc s =
     (if rc \<noteq> MPI_SUCCESS \<or> \<not> all then (BUser rc, s) else bcast_enter recvbuf cnt type 0 MPI_COMM_WORLD s)"

fun coll_next :: "'w net \<Rightarrow> fpu \<Rightarrow> opc \<Rightarrow> 'w mpi \<Rightarrow> (bpc \<times> 'w mpi) option" where
  "coll_next N F (OSend buf cnt type []) s = Some (BUser MPI_SUCCESS, s)"
| "coll_next N F (OSend buf cnt type (r # rs)) s =
     (case MPI_Send N buf cnt type r (coll_tag (coll_seq s) COLL_BCAST) MPI_COMM_WORLD s of
        None \<Rightarrow> None
      | Some (rc, s) \<Rightarrow> Some (if rc \<noteq> MPI_SUCCESS then BUser rc else BOther (OSend buf cnt type rs), s))"
| "coll_next N F (ORecv buf cnt type root) s =
     (case MPI_Recv N buf cnt type root (coll_tag (coll_seq s) COLL_BCAST) MPI_COMM_WORLD False s of
        None \<Rightarrow> None
      | Some (rc, _, s) \<Rightarrow> Some (BUser rc, s))"
| "coll_next N F (OGive sendbuf recvbuf cnt type root all) s =
     (case MPI_Send N sendbuf cnt type root (coll_tag (coll_seq s) COLL_REDUCE) MPI_COMM_WORLD s of
        None \<Rightarrow> None
      | Some (rc, s) \<Rightarrow> Some (reduce_leave all recvbuf cnt type rc s))"
| "coll_next N F (OTake recvbuf cnt type op all 0) s = Some (reduce_leave all recvbuf cnt type MPI_SUCCESS s)"
| "coll_next N F (OTake recvbuf cnt type op all (Suc k)) s =
     (case recv_match N MPI_ANY_SOURCE (coll_tag (coll_seq s) COLL_REDUCE) s of
        None \<Rightarrow> None
      | Some (Inl rc, s) \<Rightarrow> Some (reduce_leave all recvbuf cnt type rc s)
      | Some (Inr (h, data), s) \<Rightarrow>
          if of_nat (length data) \<noteq> cnt * type_size type
          then Some (reduce_leave all recvbuf cnt type MPI_ERR_TRUNCATE s)
          else let (rc, m) = reduce_apply F recvbuf data cnt type op (mpi_mem s);
                   s = s\<lparr>mpi_mem := m\<rparr>
               in Some (if rc \<noteq> MPI_SUCCESS then reduce_leave all recvbuf cnt type rc s
                        else (BOther (OTake recvbuf cnt type op all k), s)))"

text \<open>The message \<open>MPI_Send\<close> sends.\<close>

definition frame_of :: "'w mpi \<Rightarrow> addr \<Rightarrow> i32 \<Rightarrow> i32 \<Rightarrow> i32 \<Rightarrow> message" where
  "frame_of s buf cnt type tag =
     (\<lparr>h_src = mpi_rank s, h_tag = tag, h_count = cnt, h_type = type\<rparr>,
      if cnt * type_size type \<noteq> 0 then load_bytes (mpi_mem s) buf (unat (sext (cnt * type_size type))) else [])"

text \<open>The bytes it takes from memory \<open>m\<close>.\<close>

definition payload :: "mem \<Rightarrow> addr \<Rightarrow> i32 \<Rightarrow> i32 \<Rightarrow> u8 list" where
  "payload m buf cnt type =
     (if cnt * type_size type \<noteq> 0 then load_bytes m buf (unat (sext (cnt * type_size type))) else [])"

text \<open>
  The ranks, the world they share, and history that is not part of the program: how many
  collectives a rank has begun (those that got as far as taking a sequence number); the number of the last
  barrier it left with success; and for the \<open>k\<close>-th collective of a rank the send buffer its reduction was called with and the
  memory at the call, before any of the library's code has run; the contributions it sent to
  a reduction, those it took as the root of one, and, once it has taken all, the
  result buffer, count, type and operation of the call, whether it is part of an all-reduce, and the memory then; the
  message it sends as the root of a broadcast; and, once it has received a broadcast, the root, its buffer and its
  memory then.
\<close>

record 'w cluster =
  ranks :: "nat \<Rightarrow> 'w mpi"
  rpcs :: "nat \<Rightarrow> bpc"
  world :: 'w
  entered :: "nat \<Rightarrow> nat"
  left :: "nat \<Rightarrow> nat"
  given :: "nat \<Rightarrow> nat \<Rightarrow> message list"
  folded :: "nat \<Rightarrow> nat \<Rightarrow> message list"
  args :: "nat \<Rightarrow> nat \<Rightarrow> addr \<times> mem"
  results :: "nat \<Rightarrow> nat \<Rightarrow> (addr \<times> i32 \<times> i32 \<times> i32 \<times> bool \<times> mem) option"
  cast :: "nat \<Rightarrow> nat \<Rightarrow> message option"
  delivered :: "nat \<Rightarrow> nat \<Rightarrow> (i32 \<times> addr \<times> mem) option"

definition rank_view :: "'w cluster \<Rightarrow> nat \<Rightarrow> 'w mpi" where
  "rank_view c i = (ranks c i)\<lparr>mpi_world := world c\<rparr>"

definition rank_put :: "nat \<Rightarrow> bpc \<Rightarrow> 'w mpi \<Rightarrow> 'w cluster \<Rightarrow> 'w cluster" where
  "rank_put i pc s c = c\<lparr>ranks := (ranks c)(i := s), rpcs := (rpcs c)(i := pc), world := mpi_world s\<rparr>"

fun in_user :: "bpc \<Rightarrow> bool" where
  "in_user (BUser rc) \<longleftrightarrow> True"
| "in_user pc \<longleftrightarrow> False"

text \<open>\<open>begun s s'\<close>: whether a sequence number was taken between the two states.\<close>

definition begun :: "'w mpi \<Rightarrow> 'w mpi \<Rightarrow> nat" where
  "begun s s' = (if coll_seq s' = coll_seq s then 0 else 1)"

text \<open>What a call adds to the history.\<close>

fun gives :: "opc \<Rightarrow> 'w mpi \<Rightarrow> message list" where
  "gives (OGive sendbuf recvbuf cnt type root all) s = [frame_of s sendbuf cnt type (coll_tag (coll_seq s) COLL_REDUCE)]"
| "gives p s = []"

fun takes :: "'w net \<Rightarrow> opc \<Rightarrow> 'w mpi \<Rightarrow> message list" where
  "takes N (OTake recvbuf cnt type op all (Suc k)) s =
     (case recv_match N MPI_ANY_SOURCE (coll_tag (coll_seq s) COLL_REDUCE) s of Some (Inr m, _) \<Rightarrow> [m] | _ \<Rightarrow> [])"
| "takes N p s = []"

fun result_at :: "opc \<Rightarrow> 'w mpi \<Rightarrow> (addr \<times> i32 \<times> i32 \<times> i32 \<times> bool \<times> mem) option \<Rightarrow>
    (addr \<times> i32 \<times> i32 \<times> i32 \<times> bool \<times> mem) option" where
  "result_at (OTake recvbuf cnt type op all 0) s r = Some (recvbuf, cnt, type, op, all, mpi_mem s)"
| "result_at p s r = r"

fun casts :: "opc \<Rightarrow> 'w mpi \<Rightarrow> message option \<Rightarrow> message option" where
  "casts (OSend buf cnt type (r # rs)) s x = Some (frame_of s buf cnt type (coll_tag (coll_seq s) COLL_BCAST))"
| "casts p s x = x"

fun delivers :: "'w net \<Rightarrow> opc \<Rightarrow> 'w mpi \<Rightarrow> (i32 \<times> addr \<times> mem) option \<Rightarrow> (i32 \<times> addr \<times> mem) option" where
  "delivers N (ORecv buf cnt type root) s x =
     (case MPI_Recv N buf cnt type root (coll_tag (coll_seq s) COLL_BCAST) MPI_COMM_WORLD False s of
        Some (rc, _, s') \<Rightarrow> if rc = MPI_SUCCESS then Some (root, buf, mpi_mem s') else x
      | None \<Rightarrow> x)"
| "delivers N p s x = x"

definition noted :: "'w net \<Rightarrow> nat \<Rightarrow> nat \<Rightarrow> opc \<Rightarrow> 'w mpi \<Rightarrow> 'w cluster \<Rightarrow> 'w cluster" where
  "noted N i e p s c = c\<lparr>
     given := (given c)(i := (given c i)(e := given c i e @ gives p s)),
     folded := (folded c)(i := (folded c i)(e := folded c i e @ takes N p s)),
     results := (results c)(i := (results c i)(e := result_at p s (results c i e))),
     cast := (cast c)(i := (cast c i)(e := casts p s (cast c i e))),
     delivered := (delivered c)(i := (delivered c i)(e := delivers N p s (delivered c i e)))\<rparr>"

inductive cluster_step ::
  "nat \<Rightarrow> (nat \<Rightarrow> 'w net) \<Rightarrow> fpu \<Rightarrow> ('w \<Rightarrow> nat \<Rightarrow> u8 list multiset) \<Rightarrow> 'w cluster \<Rightarrow> 'w cluster \<Rightarrow> bool"
  for n :: nat and Net :: "nat \<Rightarrow> 'w net" and F :: fpu and inbox :: "'w \<Rightarrow> nat \<Rightarrow> u8 list multiset" where
  enters: "i < n \<Longrightarrow> in_user (rpcs c i) \<Longrightarrow> barrier_enter tok comm (rank_view c i) = (pc, s) \<Longrightarrow>
     cluster_step n Net F inbox c
       ((rank_put i pc s c)\<lparr>entered := (entered c)(i := entered c i + begun (rank_view c i) s)\<rparr>)"
| enters_bcast: "i < n \<Longrightarrow> in_user (rpcs c i) \<Longrightarrow> bcast_enter buf cnt type root comm (rank_view c i) = (pc, s) \<Longrightarrow>
     cluster_step n Net F inbox c
       ((rank_put i pc s c)\<lparr>entered := (entered c)(i := entered c i + begun (rank_view c i) s)\<rparr>)"
| enters_reduce: "i < n \<Longrightarrow> in_user (rpcs c i) \<Longrightarrow>
     reduce_enter sendbuf recvbuf cnt type op root comm all (rank_view c i) = (pc, s) \<Longrightarrow> all \<longrightarrow> root = 0 \<Longrightarrow>
     cluster_step n Net F inbox c
       ((rank_put i pc s c)\<lparr>entered := (entered c)(i := entered c i + begun (rank_view c i) s),
          args := (args c)(i := (args c i)(Suc (entered c i) := (sendbuf, mpi_mem (rank_view c i))))\<rparr>)"
| other_advances: "i < n \<Longrightarrow> rpcs c i = BOther p \<Longrightarrow> coll_next (Net i) F p (rank_view c i) = Some (pc, s) \<Longrightarrow>
     cluster_step n Net F inbox c (noted (Net i) i (entered c i) p (rank_view c i)
       ((rank_put i pc s c)\<lparr>entered := (entered c)(i := entered c i + begun (rank_view c i) s)\<rparr>))"
| advances: "i < n \<Longrightarrow> barrier_next (Net i) (rpcs c i) (rank_view c i) = Some (pc, s) \<Longrightarrow>
     cluster_step n Net F inbox c
       ((rank_put i pc s c)\<lparr>left := (left c)(i := if pc = BUser MPI_SUCCESS then entered c i else left c i)\<rparr>)"
| user_sends: "i < n \<Longrightarrow> in_user (rpcs c i) \<Longrightarrow> 0 \<le> sint tag \<Longrightarrow> sint tag \<le> MPI_TAG_UB \<Longrightarrow>
     MPI_Send (Net i) buf cnt type dest tag comm (rank_view c i) = Some (rc, s) \<Longrightarrow>
     cluster_step n Net F inbox c (rank_put i (BUser rc) s c)"
| user_receives: "i < n \<Longrightarrow> in_user (rpcs c i) \<Longrightarrow>
     MPI_Recv (Net i) buf cnt type source tag comm status (rank_view c i) = Some (rc, st, s) \<Longrightarrow>
     cluster_step n Net F inbox c (rank_put i (BUser rc) s c)"
| user_computes: "i < n \<Longrightarrow> rpcs c i = BUser rc \<Longrightarrow>
     cluster_step n Net F inbox c (rank_put i (BUser rc) ((rank_view c i)\<lparr>mpi_mem := m\<rparr>) c)"
| network_loses: "(\<And>j. inbox w' j \<subseteq># inbox (world c) j) \<Longrightarrow>
     cluster_step n Net F inbox c (c\<lparr>world := w'\<rparr>)"

section \<open>The calls of a barrier are the barrier\<close>

text \<open>One rank by itself, call after call.\<close>

definition barrier_calls :: "'w net \<Rightarrow> bpc \<times> 'w mpi \<Rightarrow> bpc \<times> 'w mpi \<Rightarrow> bool" where
  "barrier_calls N x y \<longleftrightarrow> barrier_next N (fst x) (snd x) = Some y"

lemma barrier_calls_iff:
  "(barrier_calls N)\<^sup>*\<^sup>* (pc, s) (BUser rc, s') \<longleftrightarrow>
     (if in_user pc then pc = BUser rc \<and> s = s'
      else \<exists>y. barrier_next N pc s = Some y \<and> (barrier_calls N)\<^sup>*\<^sup>* y (BUser rc, s'))"
proof (cases "in_user pc")
  case True
  then obtain rc1 where "pc = BUser rc1" by (cases pc) auto
  then show ?thesis by (auto simp: barrier_calls_def elim: converse_rtranclpE)
next
  case False
  then have "(pc, s) \<noteq> (BUser rc, s')" by auto
  with False show ?thesis
    by (auto simp: barrier_calls_def elim: converse_rtranclpE intro: converse_rtranclp_into_rtranclp)
qed

lemma MPI_Recv_outcome:
  assumes "MPI_Recv N buf cnt type source tag comm status s = Some (rc, st, s')"
  obtains (refused) "rc \<noteq> MPI_SUCCESS" "s' = s"
    | (failed) "recv_match N source tag s = Some (Inl rc, s')"
    | (got) m s1 v where "recv_match N source tag s = Some (Inr m, s1)" "s' = s1\<lparr>mpi_mem := v\<rparr>"
proof (cases "recv_match N source tag s")
  case None
  with assms refused show thesis by (auto simp: MPI_Recv_def Let_def split: if_splits)
next
  case (Some x)
  obtain y s1 where x: "x = (y, s1)" by (cases x)
  show thesis
  proof (cases y)
    case (Inl e)
    with Some x assms refused failed show thesis by (auto simp: MPI_Recv_def Let_def split: if_splits)
  next
    case (Inr m)
    obtain h d where m: "m = (h, d)" by (cases m)
    from Inr Some x m assms have "rc \<noteq> MPI_SUCCESS \<and> s' = s \<or> s' = s1\<lparr>mpi_mem := mpi_mem s1\<rparr> \<or> (\<exists>v. s' = s1\<lparr>mpi_mem := v\<rparr>)"
      by (auto simp: MPI_Recv_def Let_def split: if_splits)
    with Inr Some x refused got show thesis by blast
  qed
qed

lemma recv_match_setup: "recv_match N source tag s = Some (r, s') \<Longrightarrow> same_setup s s'"
  by (auto simp: recv_match_def same_setup_def split: option.splits)

lemma MPI_Recv_setup: "MPI_Recv N buf cnt type source tag comm status s = Some (rc, st, s') \<Longrightarrow> same_setup s s'"
  by (erule MPI_Recv_outcome) (auto dest: recv_match_setup simp: same_setup_def)

lemma MPI_Send_outcome:
  assumes "MPI_Send N buf cnt type dest tag comm s = Some (rc, s')"
  obtains (refused) "rc \<noteq> MPI_SUCCESS" "s' = s"
    | (sent) m a w where "msg_fits m" "h_tag (fst m) = tag" "0 \<le> sint dest" "sint dest < sint (mpi_size s)"
        "net_sendto N (mpi_sock s) (addr_for_rank dest) (encode m) (mpi_world s) = (a, w)" "s' = s\<lparr>mpi_world := w\<rparr>"
        "m = frame_of s buf cnt type tag"
proof -
  let ?h = "\<lparr>h_src = mpi_rank s, h_tag = tag, h_count = cnt, h_type = type\<rparr>"
  let ?b = "cnt * type_size type"
  let ?p = "if ?b \<noteq> 0 then load_bytes (mpi_mem s) buf (unat (sext ?b)) else []"
  show thesis
  proof (cases "rc \<noteq> MPI_SUCCESS \<and> s' = s")
    case False
    with assms have d: "0 \<le> sint dest" "sint dest < sint (mpi_size s)" and
      r: "send_raw N dest tag type cnt buf ?b s = Some (rc, s')"
      by (auto simp: MPI_Send_def Let_def split: if_splits)
    obtain a w where n: "net_sendto N (mpi_sock s) (addr_for_rank dest) (encode (?h, ?p)) (mpi_world s) = (a, w)"
      by (metis surj_pair)
    from r have "\<not> MPI_MAX_MESSAGE < unat (sext ?b)" by (auto simp: send_raw_def split: if_splits)
    then have "msg_fits (?h, ?p)" by (simp add: msg_fits_def)
    moreover from r n have "s' = s\<lparr>mpi_world := w\<rparr>"
      by (auto simp: send_raw_def encode_def Let_def split: if_splits)
    ultimately show thesis using d n by (intro sent [of "(?h, ?p)" a w]) (auto simp: frame_of_def)
  qed (use refused in blast)
qed

lemma MPI_Send_setup: "MPI_Send N buf cnt type dest tag comm s = Some (rc, s') \<Longrightarrow> same_setup s s'"
  by (erule MPI_Send_outcome) (simp_all add: same_setup_def)

lemma send_to_ranks_calls:
  "(barrier_calls N)\<^sup>*\<^sup>* (BSend tok rs, s) (BUser rc, s') \<longleftrightarrow>
     send_to_ranks N tok 1 MPI_BYTE (coll_tag (coll_seq s) COLL_BARRIER_OUT) MPI_COMM_WORLD rs s = Some (rc, s')"
proof (induction rs arbitrary: s)
  case Nil
  show ?case by (subst barrier_calls_iff) (auto simp: barrier_calls_iff)
next
  case (Cons r rs)
  let ?send = "MPI_Send N tok 1 MPI_BYTE r (coll_tag (coll_seq s) COLL_BARRIER_OUT) MPI_COMM_WORLD s"
  show ?case
  proof (cases ?send)
    case None
    then show ?thesis by (subst barrier_calls_iff) simp
  next
    case (Some x)
    obtain rc1 s1 where x: "x = (rc1, s1)" by (cases x)
    have "coll_seq s1 = coll_seq s" using MPI_Send_setup [OF Some [unfolded x]] by (simp add: same_setup_def)
    with Some x Cons.IH [of s1] show ?thesis
      by (subst barrier_calls_iff) (auto simp: barrier_calls_iff [of N "BUser rc1"])
  qed
qed

lemma recv_tokens_calls:
  "(barrier_calls N)\<^sup>*\<^sup>* (BRecv tok k, s) (BUser rc, s') \<longleftrightarrow>
     (case recv_tokens N tok (coll_tag (coll_seq s) COLL_BARRIER_IN) MPI_COMM_WORLD k s of
        None \<Rightarrow> False
      | Some (rc1, s1) \<Rightarrow>
          if rc1 \<noteq> MPI_SUCCESS then rc1 = rc \<and> s1 = s'
          else send_to_ranks N tok 1 MPI_BYTE (coll_tag (coll_seq s) COLL_BARRIER_OUT) MPI_COMM_WORLD
                 (ranks_from 1 (mpi_size s1)) s1 = Some (rc, s'))"
proof (induction k arbitrary: s)
  case 0
  show ?case by (subst barrier_calls_iff) (simp add: send_to_ranks_calls)
next
  case (Suc k)
  let ?recv = "MPI_Recv N tok 1 MPI_BYTE MPI_ANY_SOURCE (coll_tag (coll_seq s) COLL_BARRIER_IN) MPI_COMM_WORLD False s"
  show ?case
  proof (cases ?recv)
    case None
    then show ?thesis by (subst barrier_calls_iff) simp
  next
    case (Some x)
    obtain rc1 st s1 where x: "x = (rc1, st, s1)" by (cases x)
    have "coll_seq s1 = coll_seq s" using MPI_Recv_setup [OF Some [unfolded x]] by (simp add: same_setup_def)
    note IH = Suc.IH [of s1, unfolded this]
    from Some x show ?thesis by (subst barrier_calls_iff) (simp add: IH barrier_calls_iff [of N "BUser rc1"])
  qed
qed

lemma await_calls:
  "(barrier_calls N)\<^sup>*\<^sup>* (BAwait tok, s) (BUser rc, s') \<longleftrightarrow>
     (\<exists>st. MPI_Recv N tok 1 MPI_BYTE 0 (coll_tag (coll_seq s) COLL_BARRIER_OUT) MPI_COMM_WORLD False s = Some (rc, st, s'))"
  by (subst barrier_calls_iff) (auto simp: barrier_calls_iff [of N "BUser _"] split: option.splits)

lemma token_calls:
  "(barrier_calls N)\<^sup>*\<^sup>* (BToken tok, s) (BUser rc, s') \<longleftrightarrow>
     (case MPI_Send N tok 1 MPI_BYTE 0 (coll_tag (coll_seq s) COLL_BARRIER_IN) MPI_COMM_WORLD s of
        None \<Rightarrow> False
      | Some (rc1, s1) \<Rightarrow>
          if rc1 \<noteq> MPI_SUCCESS then rc1 = rc \<and> s1 = s'
          else \<exists>st. MPI_Recv N tok 1 MPI_BYTE 0 (coll_tag (coll_seq s) COLL_BARRIER_OUT) MPI_COMM_WORLD False s1 =
                 Some (rc, st, s'))"
proof (cases "MPI_Send N tok 1 MPI_BYTE 0 (coll_tag (coll_seq s) COLL_BARRIER_IN) MPI_COMM_WORLD s")
  case None
  then show ?thesis by (subst barrier_calls_iff) simp
next
  case (Some x)
  obtain rc1 s1 where x: "x = (rc1, s1)" by (cases x)
  have "coll_seq s1 = coll_seq s" using MPI_Send_setup [OF Some [unfolded x]] by (simp add: same_setup_def)
  with Some x show ?thesis
    by (subst barrier_calls_iff) (auto simp: barrier_calls_iff [of N "BUser rc1"] await_calls)
qed

lemma barrier_calls_enter:
  "(barrier_calls N)\<^sup>*\<^sup>* (barrier_enter tok comm s) (BUser rc, s') \<longleftrightarrow> MPI_Barrier N tok comm s = Some (rc, s')"
proof (cases "comm \<noteq> MPI_COMM_WORLD \<or> mpi_ready s = 0 \<or> mpi_size s = 1")
  case True
  then show ?thesis
    by (auto simp: MPI_Barrier_def barrier_enter_def barrier_calls_iff [of N "BUser _"])
next
  case False
  then show ?thesis
    by (auto simp: MPI_Barrier_def barrier_enter_def recv_tokens_calls token_calls Let_def split: option.splits)
qed

section \<open>The calls of the other collectives\<close>

definition coll_calls :: "'w net \<Rightarrow> fpu \<Rightarrow> bpc \<times> 'w mpi \<Rightarrow> bpc \<times> 'w mpi \<Rightarrow> bool" where
  "coll_calls N F x y \<longleftrightarrow> (case fst x of BOther p \<Rightarrow> coll_next N F p (snd x) = Some y | _ \<Rightarrow> False)"

lemma coll_calls_user [simp]: "(coll_calls N F)\<^sup>*\<^sup>* (BUser rc1, s) (BUser rc, s') \<longleftrightarrow> rc1 = rc \<and> s = s'"
  by (auto simp: coll_calls_def elim: converse_rtranclpE)

lemma coll_calls_next:
  "(coll_calls N F)\<^sup>*\<^sup>* (BOther p, s) (BUser rc, s') \<longleftrightarrow>
     (case coll_next N F p s of None \<Rightarrow> False | Some y \<Rightarrow> (coll_calls N F)\<^sup>*\<^sup>* y (BUser rc, s'))"
  by (auto simp: coll_calls_def elim: converse_rtranclpE intro: converse_rtranclp_into_rtranclp split: option.splits)

lemma osend_calls:
  "(coll_calls N F)\<^sup>*\<^sup>* (BOther (OSend buf cnt type rs), s) (BUser rc, s') \<longleftrightarrow>
     send_to_ranks N buf cnt type (coll_tag (coll_seq s) COLL_BCAST) MPI_COMM_WORLD rs s = Some (rc, s')"
proof (induction rs arbitrary: s)
  case Nil
  show ?case by (simp add: coll_calls_next)
next
  case (Cons r rs)
  show ?case
  proof (cases "MPI_Send N buf cnt type r (coll_tag (coll_seq s) COLL_BCAST) MPI_COMM_WORLD s")
    case (Some x)
    obtain rc1 s1 where x: "x = (rc1, s1)" by (cases x)
    have "coll_seq s1 = coll_seq s" using MPI_Send_setup [OF Some [unfolded x]] by (simp add: same_setup_def)
    with Some x Cons.IH [of s1] show ?thesis by (simp add: coll_calls_next [of N F "OSend buf cnt type (r # rs)"])
  qed (simp add: coll_calls_next)
qed

lemma bcast_calls:
  "(coll_calls N F)\<^sup>*\<^sup>* (bcast_enter buf cnt type root comm s) (BUser rc, s') \<longleftrightarrow>
     MPI_Bcast N buf cnt type root comm s = Some (rc, s')"
proof -
  have "(coll_calls N F)\<^sup>*\<^sup>* (BOther (ORecv buf cnt type root), s) (BUser rc, s') \<longleftrightarrow>
      map_option (\<lambda>(rc, _, s). (rc, s)) (MPI_Recv N buf cnt type root (coll_tag (coll_seq s) COLL_BCAST)
        MPI_COMM_WORLD False s) = Some (rc, s')" for s
    by (auto simp: coll_calls_next split: option.splits)
  then show ?thesis by (auto simp: bcast_enter_def MPI_Bcast_def Let_def osend_calls)
qed

text \<open>How a reduction goes on once it has its result.\<close>

definition after_reduce ::
  "'w net \<Rightarrow> bool \<Rightarrow> addr \<Rightarrow> i32 \<Rightarrow> i32 \<Rightarrow> (i32 \<times> 'w mpi) option \<Rightarrow> (i32 \<times> 'w mpi) option" where
  "after_reduce N all recvbuf cnt type r =
     (case r of None \<Rightarrow> None
      | Some (rc, s) \<Rightarrow> if rc \<noteq> MPI_SUCCESS \<or> \<not> all then Some (rc, s)
                       else MPI_Bcast N recvbuf cnt type 0 MPI_COMM_WORLD s)"

lemma leave_calls:
  "(coll_calls N F)\<^sup>*\<^sup>* (reduce_leave all recvbuf cnt type rc1 s) (BUser rc, s') \<longleftrightarrow>
     after_reduce N all recvbuf cnt type (Some (rc1, s)) = Some (rc, s')"
  by (simp add: reduce_leave_def after_reduce_def bcast_calls)

lemma otake_calls:
  "(coll_calls N F)\<^sup>*\<^sup>* (BOther (OTake recvbuf cnt type op all k), s) (BUser rc, s') \<longleftrightarrow>
     after_reduce N all recvbuf cnt type
       (reduce_gather N F recvbuf cnt type op (coll_tag (coll_seq s) COLL_REDUCE) k s) = Some (rc, s')"
proof (induction k arbitrary: s)
  case 0
  show ?case by (simp add: coll_calls_next leave_calls)
next
  case (Suc k)
  show ?case
  proof (cases "recv_match N MPI_ANY_SOURCE (coll_tag (coll_seq s) COLL_REDUCE) s")
    case None
    then show ?thesis by (simp add: coll_calls_next after_reduce_def)
  next
    case (Some x)
    obtain r s1 where x: "x = (r, s1)" by (cases x)
    have "coll_seq s1 = coll_seq s" using recv_match_setup [OF Some [unfolded x]] by (simp add: same_setup_def)
    with Suc.IH [of "s1\<lparr>mpi_mem := m\<rparr>" for m] Some x show ?thesis
      by (simp add: coll_calls_next [of N F "OTake recvbuf cnt type op all (Suc k)"] leave_calls Let_def
          split: sum.splits prod.splits)
  qed
qed

lemma reduce_calls:
  "(coll_calls N F)\<^sup>*\<^sup>* (reduce_enter sendbuf recvbuf cnt type op root comm all s) (BUser rc, s') \<longleftrightarrow>
     after_reduce N all recvbuf cnt type (MPI_Reduce N F sendbuf recvbuf cnt type op root comm s) = Some (rc, s')"
proof -
  have "(coll_calls N F)\<^sup>*\<^sup>* (BOther (OGive sendbuf recvbuf cnt type root all), s) (BUser rc, s') \<longleftrightarrow>
      after_reduce N all recvbuf cnt type
        (MPI_Send N sendbuf cnt type root (coll_tag (coll_seq s) COLL_REDUCE) MPI_COMM_WORLD s) = Some (rc, s')" for s
    by (cases "MPI_Send N sendbuf cnt type root (coll_tag (coll_seq s) COLL_REDUCE) MPI_COMM_WORLD s")
      (auto simp: coll_calls_next leave_calls after_reduce_def)
  then show ?thesis
    by (simp add: reduce_enter_def MPI_Reduce_def Let_def otake_calls) (auto simp: after_reduce_def)
qed

lemma allreduce_after:
  "MPI_Allreduce N F sendbuf recvbuf cnt type op comm s =
     after_reduce N True recvbuf cnt type (MPI_Reduce N F sendbuf recvbuf cnt type op 0 comm s)"
proof (cases "comm = MPI_COMM_WORLD")
  case False
  then show ?thesis by (simp add: MPI_Allreduce_def after_reduce_def MPI_Reduce_def)
qed (simp add: MPI_Allreduce_def after_reduce_def cong: option.case_cong if_cong)

section \<open>The calls are the collectives\<close>

text \<open>
  The collectives of this model are those of \<open>Neo_Mpi_Coll\<close>: \<open>MPI_Barrier\<close>, \<open>MPI_Bcast\<close>, \<open>MPI_Reduce\<close> and \<open>MPI_Allreduce\<close>
  return \<open>rc\<close> and leave state \<open>s'\<close> if and only if the calls made one by one lead to \<open>rc\<close> and \<open>s'\<close>, for all arguments, states
  and networks.
\<close>

lemma collectives_are_their_calls:
  "(MPI_Barrier N tok comm s = Some (rc, s') \<longleftrightarrow> (barrier_calls N)\<^sup>*\<^sup>* (barrier_enter tok comm s) (BUser rc, s')) \<and>
   (MPI_Bcast N buf cnt type root comm s = Some (rc, s') \<longleftrightarrow>
     (coll_calls N F)\<^sup>*\<^sup>* (bcast_enter buf cnt type root comm s) (BUser rc, s')) \<and>
   (MPI_Reduce N F sendbuf recvbuf cnt type op root comm s = Some (rc, s') \<longleftrightarrow>
     (coll_calls N F)\<^sup>*\<^sup>* (reduce_enter sendbuf recvbuf cnt type op root comm False s) (BUser rc, s')) \<and>
   (MPI_Allreduce N F sendbuf recvbuf cnt type op comm s = Some (rc, s') \<longleftrightarrow>
     (coll_calls N F)\<^sup>*\<^sup>* (reduce_enter sendbuf recvbuf cnt type op 0 comm True s) (BUser rc, s'))"
proof (intro conjI)
  show "MPI_Barrier N tok comm s = Some (rc, s') \<longleftrightarrow> (barrier_calls N)\<^sup>*\<^sup>* (barrier_enter tok comm s) (BUser rc, s')"
    by (simp add: barrier_calls_enter)
  show "MPI_Allreduce N F sendbuf recvbuf cnt type op comm s = Some (rc, s') \<longleftrightarrow>
      (coll_calls N F)\<^sup>*\<^sup>* (reduce_enter sendbuf recvbuf cnt type op 0 comm True s) (BUser rc, s')"
    by (simp add: reduce_calls allreduce_after)
qed (simp_all add: bcast_calls reduce_calls after_reduce_def split: option.splits prod.splits)

end
