(* ===== verification/Neo_Mpi_Sync.thy ===== *)
theory Neo_Mpi_Sync
  imports Neo_Mpi_World
begin

text \<open>
  What barriers guarantee to a whole MPI program (\<open>src/mpi.c\<close>, the model of \<open>Neo_Mpi_World\<close>): the
  messages of a run are conserved from the sends to the receives, tokens and releases carry the number of
  their collective, and so no rank leaves a barrier before every rank has entered it.
\<close>

section \<open>What is assumed\<close>

definition datagrams_conserved :: "nat \<Rightarrow> (nat \<Rightarrow> 'w net) \<Rightarrow> ('w \<Rightarrow> nat \<Rightarrow> u8 list multiset) \<Rightarrow> bool" where
  "datagrams_conserved n Net inbox \<longleftrightarrow>
     (\<forall>i sock r fr w a w'. i < n \<longrightarrow> r < n \<longrightarrow> net_sendto (Net i) sock (addr_for_rank (of_nat r)) fr w = (a, w') \<longrightarrow>
        (\<forall>j<n. inbox w' j \<subseteq># inbox w j + (if j = r then {#fr#} else {#}))) \<and>
     (\<forall>i sock w d w'. i < n \<longrightarrow> net_recvfrom (Net i) sock w = Some (Datagram d, w') \<longrightarrow>
        (\<forall>j<n. inbox w' j + (if j = i then {#d#} else {#}) \<subseteq># inbox w j)) \<and>
     (\<forall>i sock w e w'. i < n \<longrightarrow> net_recvfrom (Net i) sock w = Some (RecvErr e, w') \<longrightarrow>
        (\<forall>j<n. inbox w' j \<subseteq># inbox w j))"

section \<open>Messages are conserved\<close>

definition decoded :: "u8 list multiset \<Rightarrow> message multiset" where
  "decoded M = image_mset the (filter_mset (\<lambda>x. x \<noteq> None) (image_mset frame_message M))"

text \<open>
  Up to sixteen ranks that have been through \<open>MPI_Init\<close>. The start-up messages a rank has said more than once (\<open>rendezvous\<close>
  repeats them) may still be under way; nothing else is.
\<close>

definition cluster_initial :: "nat \<Rightarrow> ('w \<Rightarrow> nat \<Rightarrow> u8 list multiset) \<Rightarrow> 'w cluster \<Rightarrow> bool" where
  "cluster_initial n inbox c \<longleftrightarrow> 0 < n \<and> n \<le> 16 \<and>
     (\<forall>i<n. mpi_rank (ranks c i) = of_nat i \<and> mpi_size (ranks c i) = of_nat n \<and> coll_seq (ranks c i) = 0 \<and>
        mpi_pending (ranks c i) = empty_queue \<and> in_user (rpcs c i) \<and> (\<forall>m\<in>#decoded (inbox (world c) i). h_tag (fst m) = TAG_HELLO) \<and>
        entered c i = 0 \<and> left c i = 0 \<and> (\<forall>k. given c i k = [] \<and> folded c i k = [] \<and> results c i k = None \<and> cast c i k = None \<and> delivered c i k = None))"

lemma decoded_simps [simp]:
  "decoded {#} = {#}" "decoded (M + N) = decoded M + decoded N"
  "frame_message d = Some m \<Longrightarrow> decoded {#d#} = {#m#}" "frame_message d = None \<Longrightarrow> decoded {#d#} = {#}"
  by (auto simp: decoded_def)

lemma decoded_encode: "msg_fits m \<Longrightarrow> decoded (add_mset (encode m) M) = add_mset m (decoded M)"
  by (simp add: decoded_def frame_message_encode)

lemma sub_add_mset: "A \<subseteq># B \<Longrightarrow> A \<subseteq># add_mset m B" and sub_add_msetD: "add_mset m A \<subseteq># B \<Longrightarrow> A \<subseteq># B"
  by (metis add_mset_add_single mset_subset_eq_add_left subset_mset.order_trans)+

lemma decoded_mono: "M \<subseteq># N \<Longrightarrow> decoded M \<subseteq># decoded N"
  unfolding decoded_def by (intro image_mset_subseteq_mono multiset_filter_mono)

text \<open>What rank \<open>i\<close> may still receive, with queue \<open>q\<close> in world \<open>w\<close>.\<close>

definition stock :: "('w \<Rightarrow> nat \<Rightarrow> u8 list multiset) \<Rightarrow> nat \<Rightarrow> mpi_queue \<Rightarrow> 'w \<Rightarrow> message multiset" where
  "stock inbox i q w = mset (content q) + decoded (inbox w i)"

definition others_keep :: "nat \<Rightarrow> ('w \<Rightarrow> nat \<Rightarrow> u8 list multiset) \<Rightarrow> nat \<Rightarrow> 'w \<Rightarrow> 'w \<Rightarrow> bool" where
  "others_keep n inbox i w w' \<longleftrightarrow> (\<forall>j<n. j \<noteq> i \<longrightarrow> inbox w' j \<subseteq># inbox w j)"

definition recv_conserves :: "nat \<Rightarrow> ('w \<Rightarrow> nat \<Rightarrow> u8 list multiset) \<Rightarrow> nat \<Rightarrow> i32 \<times> i32 \<Rightarrow> mpi_queue \<Rightarrow> 'w \<Rightarrow>
    i32 + message \<Rightarrow> mpi_queue \<Rightarrow> 'w \<Rightarrow> bool" where
  "recv_conserves n inbox i k q w r q' w' \<longleftrightarrow> queue_wf q' \<and> others_keep n inbox i w w' \<and>
     (case r of Inl e \<Rightarrow> e \<noteq> MPI_SUCCESS \<and> stock inbox i q' w' \<subseteq># stock inbox i q w
              | Inr m \<Rightarrow> msg_wanted k m \<and> stock inbox i q' w' + {#m#} \<subseteq># stock inbox i q w)"

lemma recv_conserves_trans:
  assumes "recv_conserves n inbox i k q1 w1 r q' w'" and "others_keep n inbox i w w1"
    and "stock inbox i q1 w1 \<subseteq># stock inbox i q w"
  shows "recv_conserves n inbox i k q w r q' w'"
  using assms unfolding recv_conserves_def others_keep_def
  by (auto split: sum.splits intro: subset_mset.order_trans)

lemma queue_put_content:
  assumes "queue_wf q" and "msg_fits m" and "queue_put m q = Some (b, q1)"
  shows "queue_wf q1" and "mset (content q1) \<subseteq># mset (content q) + {#m#}"
  using unexpected.put_room [OF assms(1,2)] unexpected.put_full [OF assms(1), of m] assms
  by (cases "length (content q) < PENDING_SLOTS"; auto)+

lemma conserved_send:
  assumes "datagrams_conserved n Net inbox" and "i < n" and "r < n"
    and "net_sendto (Net i) sock (addr_for_rank (of_nat r)) fr w = (a, w')" and "j < n"
  shows "inbox w' j \<subseteq># inbox w j + (if j = r then {#fr#} else {#})"
  using assms unfolding datagrams_conserved_def by blast

lemma conserved_recv:
  assumes "datagrams_conserved n Net inbox" and "i < n" and "net_recvfrom (Net i) sock w = Some (a, w')" and "j < n"
  shows "inbox w' j + (if j = i then (case a of Datagram d \<Rightarrow> {#d#} | RecvErr e \<Rightarrow> {#}) else {#}) \<subseteq># inbox w j"
proof (cases a)
  case (RecvErr e)
  with assms show ?thesis unfolding datagrams_conserved_def by simp
next
  case (Datagram d)
  with assms have "inbox w' j + (if j = i then {#d#} else {#}) \<subseteq># inbox w j" unfolding datagrams_conserved_def by blast
  with Datagram show ?thesis by (cases "j = i") auto
qed

lemma recv_round:
  assumes "datagrams_conserved n Net inbox" and "i < n" and "net_recvfrom (Net i) sock w = Some (a, w1)"
  shows "others_keep n inbox i w w1"
    and "a = RecvErr e \<Longrightarrow> stock inbox i q w1 \<subseteq># stock inbox i q w"
    and "a = Datagram d \<Longrightarrow> stock inbox i q w1 + decoded {#d#} \<subseteq># stock inbox i q w"
proof -
  show "others_keep n inbox i w w1"
    unfolding others_keep_def using conserved_recv [OF assms] by fastforce
  note k = decoded_mono [OF conserved_recv [OF assms assms(2)]]
  show "stock inbox i q w1 \<subseteq># stock inbox i q w" if "a = RecvErr e"
    using k that by (simp add: stock_def)
  show "stock inbox i q w1 + decoded {#d#} \<subseteq># stock inbox i q w" if "a = Datagram d"
  proof -
    have "decoded (inbox w1 i + {#d#}) \<subseteq># decoded (inbox w i)" using k that by simp
    then show ?thesis
      by (simp only: stock_def decoded_simps(2) add.assoc subset_mset.add_le_cancel_left)
  qed
qed

text \<open>One round of the loop, where \<open>loop\<close> is the rest of it.\<close>

lemma recv_body_conserves:
  fixes Net :: "nat \<Rightarrow> 'w net"
  assumes net: "datagrams_conserved n Net inbox" "i < n" and wf: "queue_wf q"
    and IH: "\<And>q w lg. loop (q, w, lg) = Some (r, q', w', lg') \<Longrightarrow> queue_wf q \<Longrightarrow> recv_conserves n inbox i k q w r q' w'"
    and body: "(case net_recvfrom (Net i) sock w of
        None \<Rightarrow> None
      | Some (RecvErr e, w) \<Rightarrow> if e = EINTR then loop (q, w, lg) else Some (Inl MPI_ERR_INTERN, q, w, lg)
      | Some (Datagram d, w) \<Rightarrow>
          (case frame_message d of
             None \<Rightarrow> loop (q, w, lg)
           | Some m \<Rightarrow>
               if msg_wanted k m then Some (Inr m, q, w, lg)
               else (case queue_put m q of None \<Rightarrow> None | Some (kept, q) \<Rightarrow> loop (q, w, lgs m kept)))) =
      Some (r, q', w', lg')"
  shows "recv_conserves n inbox i k q w r q' w'"
proof -
  from body obtain a w1 where a: "net_recvfrom (Net i) sock w = Some (a, w1)" by (auto split: option.splits)
  note round = recv_round [OF net a]
  have again: "recv_conserves n inbox i k q w r q' w'"
    if "loop (q1, w1, lg1) = Some (r, q', w', lg')" "queue_wf q1" "stock inbox i q1 w1 \<subseteq># stock inbox i q w" for q1 lg1
    using recv_conserves_trans [OF IH [OF that(1,2)] round(1) that(3)] .
  show ?thesis
  proof (cases a)
    case (RecvErr e)
    show ?thesis
    proof (cases "e = EINTR")
      case True
      with RecvErr body a again [OF _ wf round(2) [OF RecvErr]] show ?thesis by simp
    qed (use RecvErr round(1,2) body a wf in \<open>auto simp: recv_conserves_def\<close>)
  next
    case (Datagram d)
    note d = round(3) [OF Datagram, of q]
    show ?thesis
    proof (cases "frame_message d")
      case None
      with d Datagram body a wf show ?thesis by (auto intro: again)
    next
      case (Some m)
      show ?thesis
      proof (cases "msg_wanted k m")
        case True
        with d Some Datagram body a wf round(1) show ?thesis by (auto simp: recv_conserves_def)
      next
        case False
        with Some Datagram body a obtain kept q1 where q1: "queue_put m q = Some (kept, q1)"
          "loop (q1, w1, lgs m kept) = Some (r, q', w', lg')" by (auto split: option.splits)
        note p = queue_put_content [OF wf frame_message_fits [OF Some] q1(1)]
        have "stock inbox i q1 w1 \<subseteq># stock inbox i q w1 + {#m#}" using p(2) by (simp add: stock_def)
        with d Some have "stock inbox i q1 w1 \<subseteq># stock inbox i q w" by (auto intro: subset_mset.order_trans)
        with again [OF q1(2) p(1)] show ?thesis .
      qed
    qed
  qed
qed

lemma recv_loop_conserves:
  fixes Net :: "nat \<Rightarrow> 'w net"
  assumes net: "datagrams_conserved n Net inbox" and i: "i < n"
    and "queue_wf q" and "recv_loop (Net i) sock rank k (q, w, lg) = Some (r, q', w', lg')"
  shows "recv_conserves n inbox i k q w r q' w'"
proof -
  let ?P = "\<lambda>N sock rank k st res. N = Net i \<longrightarrow> queue_wf (fst st) \<longrightarrow>
      recv_conserves n inbox i k (fst st) (fst (snd st)) (fst res) (fst (snd res)) (fst (snd (snd res)))"
  have "?P (Net i) sock rank k (q, w, lg) (r, q', w', lg')"
  proof (rule recv_loop.raw_induct [OF _ assms(4), where P = ?P], intro impI)
    fix loop and N :: "'w net" and sock rank :: i32 and k st res
    assume IH: "\<And>N sock rank k st res. loop N sock rank k st = Some res \<Longrightarrow> ?P N sock rank k st res"
      and N: "N = Net i" and wf: "queue_wf (fst st)"
      and body: "(case st of (q, w, lg) \<Rightarrow>
        (case net_recvfrom N sock w of
          None \<Rightarrow> None
        | Some (RecvErr e, w) \<Rightarrow>
            if e = EINTR then loop N sock rank k (q, w, lg)
            else Some (Inl MPI_ERR_INTERN, q, w, lg)
        | Some (Datagram d, w) \<Rightarrow>
            (case frame_message d of
               None \<Rightarrow> loop N sock rank k (q, w, lg)
             | Some m \<Rightarrow>
                 if msg_wanted k m then Some (Inr m, q, w, lg)
                 else (case queue_put m q of
                         None \<Rightarrow> None
                       | Some (kept, q) \<Rightarrow>
                           loop N sock rank k
                             (q, w, if kept then lg else lg @ [(rank, h_src (fst m), h_tag (fst m))]))))) = Some res"
    obtain q w lg r q' w' lg' where e: "st = (q, w, lg)" "res = (r, q', w', lg')" by (metis surj_pair)
    have "recv_conserves n inbox i k q w r q' w'"
    proof (rule recv_body_conserves [OF net i _ _ body [unfolded e N prod.case]])
      show "queue_wf q" using wf e by simp
      show "recv_conserves n inbox i k q w r q' w'" if "loop (Net i) sock rank k (q, w, lg) = Some (r, q', w', lg')"
        "queue_wf q" for q w lg
        using IH [OF that(1)] that(2) by simp
    qed
    with e show "recv_conserves n inbox i k (fst st) (fst (snd st)) (fst res) (fst (snd res)) (fst (snd (snd res)))" by simp
  qed
  with assms(3) show ?thesis by simp
qed

lemma recv_match_conserves:
  assumes "datagrams_conserved n Net inbox" and "i < n" and wf: "queue_wf (mpi_pending s)"
    and r: "recv_match (Net i) source tag s = Some (r, s')"
  shows "recv_conserves n inbox i (source, tag) (mpi_pending s) (mpi_world s) r (mpi_pending s') (mpi_world s')"
proof (cases "take_first (msg_wanted (source, tag)) (content (mpi_pending s))")
  case None
  note miss = unexpected.take_miss [OF wf None]
  from r miss obtain q w lg where
    "recv_loop (Net i) (mpi_sock s) (mpi_rank s) (source, tag) (mpi_pending s, mpi_world s, mpi_log s) = Some (r, q, w, lg)"
    "s' = s\<lparr>mpi_pending := q, mpi_world := w, mpi_log := lg\<rparr>" by (auto simp: recv_match_def)
  with recv_loop_conserves [OF assms(1,2) wf] show ?thesis by fastforce
next
  case (Some p)
  obtain m ms where p: "p = (m, ms)" by (cases p)
  from unexpected.take_hit [OF wf Some [unfolded p]] obtain q where
    q: "queue_take (source, tag) (mpi_pending s) = Some (Some m, q)" "queue_wf q" "content q = ms" by blast
  from take_first_Some_split [OF Some [unfolded p]] obtain as bs where
    "content (mpi_pending s) = as @ m # bs" "ms = as @ bs" "msg_wanted (source, tag) m" by blast
  with q r show ?thesis by (auto simp: recv_match_def recv_conserves_def others_keep_def stock_def)
qed

lemma MPI_Recv_conserves:
  assumes "datagrams_conserved n Net inbox" and "i < n" and "queue_wf (mpi_pending s)"
    and "MPI_Recv (Net i) buf cnt type source tag comm status s = Some (rc, st, s')"
  shows "queue_wf (mpi_pending s')" and "others_keep n inbox i (mpi_world s) (mpi_world s')"
    and "stock inbox i (mpi_pending s') (mpi_world s') \<subseteq># stock inbox i (mpi_pending s) (mpi_world s)"
    and "rc = MPI_SUCCESS \<Longrightarrow> \<exists>m. msg_wanted (source, tag) m \<and>
      stock inbox i (mpi_pending s') (mpi_world s') + {#m#} \<subseteq># stock inbox i (mpi_pending s) (mpi_world s)"
proof -
  have "queue_wf (mpi_pending s') \<and> others_keep n inbox i (mpi_world s) (mpi_world s') \<and>
    stock inbox i (mpi_pending s') (mpi_world s') \<subseteq># stock inbox i (mpi_pending s) (mpi_world s) \<and>
    (rc = MPI_SUCCESS \<longrightarrow> (\<exists>m. msg_wanted (source, tag) m \<and>
      stock inbox i (mpi_pending s') (mpi_world s') + {#m#} \<subseteq># stock inbox i (mpi_pending s) (mpi_world s)))"
    using assms(4)
  proof (cases rule: MPI_Recv_outcome)
    case refused
    then show ?thesis using assms(3) by (simp add: others_keep_def)
  next
    case failed
    from recv_match_conserves [OF assms(1-3) failed] show ?thesis by (simp add: recv_conserves_def)
  next
    case (got m s1 v)
    note k = recv_match_conserves [OF assms(1-3) got(1)]
    then have "\<exists>m. msg_wanted (source, tag) m \<and>
      stock inbox i (mpi_pending s') (mpi_world s') + {#m#} \<subseteq># stock inbox i (mpi_pending s) (mpi_world s)"
      using got(2) by (intro exI [of _ m]) (simp add: recv_conserves_def)
    moreover have "stock inbox i (mpi_pending s') (mpi_world s') \<subseteq># stock inbox i (mpi_pending s) (mpi_world s)"
      using k got(2) by (auto simp: recv_conserves_def dest: sub_add_msetD)
    ultimately show ?thesis using k got(2) by (simp add: recv_conserves_def)
  qed
  then show "queue_wf (mpi_pending s')" "others_keep n inbox i (mpi_world s) (mpi_world s')"
    "stock inbox i (mpi_pending s') (mpi_world s') \<subseteq># stock inbox i (mpi_pending s) (mpi_world s)"
    "rc = MPI_SUCCESS \<Longrightarrow> \<exists>m. msg_wanted (source, tag) m \<and>
      stock inbox i (mpi_pending s') (mpi_world s') + {#m#} \<subseteq># stock inbox i (mpi_pending s) (mpi_world s)" by blast+
qed

lemma MPI_Send_conserves:
  assumes "datagrams_conserved n Net inbox" and "i < n" and "mpi_size s = of_nat n" and "n \<le> 16"
    and "MPI_Send (Net i) buf cnt type dest tag comm s = Some (rc, s')"
  shows "mpi_pending s' = mpi_pending s"
    and "j < n \<Longrightarrow> decoded (inbox (mpi_world s') j)
      \<subseteq># decoded (inbox (mpi_world s) j) + (if dest = of_nat j then {#frame_of s buf cnt type tag#} else {#})"
proof -
  show "mpi_pending s' = mpi_pending s" using assms(5) by (cases rule: MPI_Send_outcome) simp_all
  show "decoded (inbox (mpi_world s') j)
      \<subseteq># decoded (inbox (mpi_world s) j) + (if dest = of_nat j then {#frame_of s buf cnt type tag#} else {#})" if "j < n"
    using assms(5)
  proof (cases rule: MPI_Send_outcome)
    case (sent m a w)
    define r where "r = nat (sint dest)"
    have "sint (of_nat n :: i32) = int n" using assms(4) by (intro sint_of_nat_small) simp
    with sent(3,4) assms(3) have r: "r < n" "dest = of_nat r" by (auto simp: r_def of_nat_nat_sint)
    from decoded_mono [OF conserved_send [OF assms(1,2) r(1) sent(5) [unfolded r(2)] \<open>j < n\<close>]] r
    show ?thesis by (cases "j = r") (auto simp: sent(6) sent(7) [symmetric] decoded_encode [OF sent(1)] intro: sub_add_mset)
  qed simp
qed

section \<open>The invariant\<close>

definition tag_in :: "nat \<Rightarrow> i32" where
  "tag_in k = coll_tag (of_nat k) COLL_BARRIER_IN"

definition tag_out :: "nat \<Rightarrow> i32" where
  "tag_out k = coll_tag (of_nat k) COLL_BARRIER_OUT"

lemma take_bit_of_nat_inject:
  assumes "take_bit 24 (of_nat k :: u32) = take_bit 24 (of_nat l)" and "k < 2 ^ 24" and "l < 2 ^ 24"
  shows "k = l"
proof -
  have "unat (take_bit 24 (of_nat k :: u32)) = k" if "k < 2 ^ 24" for k
    using that by (simp add: unsigned_take_bit_eq unsigned_of_nat take_bit_nat_eq_self)
  with assms show ?thesis by metis
qed

lemma barrier_tags:
  "k < 2 ^ 24 \<Longrightarrow> l < 2 ^ 24 \<Longrightarrow> tag_in k = tag_in l \<longleftrightarrow> k = l"
  "k < 2 ^ 24 \<Longrightarrow> l < 2 ^ 24 \<Longrightarrow> tag_out k = tag_out l \<longleftrightarrow> k = l"
  "tag_in k \<noteq> tag_out l" "tag_out k \<noteq> tag_in l"
  "sint t \<le> MPI_TAG_UB \<Longrightarrow> t \<noteq> tag_in k" "sint t \<le> MPI_TAG_UB \<Longrightarrow> t \<noteq> tag_out k"
  using coll_tag_inject [of 1 1 "of_nat k" "of_nat l"] coll_tag_inject [of 2 2 "of_nat k" "of_nat l"]
    coll_tag_inject [of 1 2 "of_nat k" "of_nat l"] coll_tag_inject [of 2 1 "of_nat k" "of_nat l"]
    coll_tag_above(1) [of 1 "of_nat k"] coll_tag_above(1) [of 2 "of_nat k"] take_bit_of_nat_inject [of k l]
  by (auto simp: tag_in_def tag_out_def)

definition tagged :: "message multiset \<Rightarrow> i32 \<Rightarrow> nat" where
  "tagged M t = size (filter_mset (\<lambda>m. h_tag (fst m) = t) M)"

lemma tagged_mono: "M \<subseteq># N \<Longrightarrow> tagged M t \<le> tagged N t"
  unfolding tagged_def by (intro size_mset_mono multiset_filter_mono)

lemma tagged_add [simp]: "tagged (add_mset m M) t = tagged M t + (if h_tag (fst m) = t then 1 else 0)"
  "tagged {#} t = 0"
  by (auto simp: tagged_def)

text \<open>
  The numbers below are: \<open>E i\<close> collectives begun by rank \<open>i\<close>, \<open>L i\<close> the last barrier it left, \<open>P i\<close> where it is,
  \<open>S i\<close> what it may still receive. Rank \<open>r\<close> counts for barrier \<open>k\<close> once it has sent its token (or has
  failed to); rank 0 has taken \<open>taken n k P E\<close> tokens of barrier \<open>k\<close>.
\<close>

fun at_token :: "bpc \<Rightarrow> bool" where
  "at_token (BToken tok) \<longleftrightarrow> True"
| "at_token pc \<longleftrightarrow> False"

definition counts :: "(nat \<Rightarrow> bpc) \<Rightarrow> (nat \<Rightarrow> nat) \<Rightarrow> nat \<Rightarrow> nat \<Rightarrow> bool" where
  "counts P E k r \<longleftrightarrow> k < E r \<or> k = E r \<and> \<not> at_token (P r)"

fun taken :: "nat \<Rightarrow> bpc \<Rightarrow> nat" where
  "taken n (BRecv tok j) = n - 1 - j"
| "taken n pc = 0"

definition token_inv :: "nat \<Rightarrow> (nat \<Rightarrow> bpc) \<Rightarrow> (nat \<Rightarrow> nat) \<Rightarrow> message multiset \<Rightarrow> bool" where
  "token_inv n P E M \<longleftrightarrow> (\<forall>k<2 ^ 24. tagged M (tag_in k) + (if k = E 0 then taken n (P 0) else 0)
     \<le> card {r \<in> {1..<n}. counts P E k r})"

definition release_inv :: "nat \<Rightarrow> (nat \<Rightarrow> nat) \<Rightarrow> message multiset \<Rightarrow> bool" where
  "release_inv n E M \<longleftrightarrow> (\<forall>k<2 ^ 24. tagged M (tag_out k) \<noteq> 0 \<longrightarrow> (\<forall>j<n. k \<le> E j))"

fun role :: "nat \<Rightarrow> nat \<Rightarrow> (nat \<Rightarrow> nat) \<Rightarrow> bpc \<Rightarrow> bool" where
  "role n i E (BUser rc) \<longleftrightarrow> True"
| "role n i E (BRecv tok j) \<longleftrightarrow> i = 0 \<and> j < n"
| "role n i E (BSend tok rs) \<longleftrightarrow> i = 0 \<and> (\<forall>j<n. E 0 \<le> E j)"
| "role n i E (BToken tok) \<longleftrightarrow> i \<noteq> 0"
| "role n i E (BAwait tok) \<longleftrightarrow> i \<noteq> 0"
| "role n i E (BOther p) \<longleftrightarrow> True"

definition sync_inv :: "nat \<Rightarrow> (nat \<Rightarrow> bpc) \<Rightarrow> (nat \<Rightarrow> nat) \<Rightarrow> (nat \<Rightarrow> nat) \<Rightarrow> (nat \<Rightarrow> message multiset) \<Rightarrow> bool" where
  "sync_inv n P E L S \<longleftrightarrow> token_inv n P E (S 0) \<and> (\<forall>i<n. release_inv n E (S i)) \<and>
     (\<forall>i<n. role n i E (P i)) \<and> (\<forall>i<n. \<forall>j<n. L i \<le> E j)"

lemma sync_role: "sync_inv n P E L S \<Longrightarrow> i < n \<Longrightarrow> P i = pc \<Longrightarrow> role n i E pc"
  by (auto simp: sync_inv_def)

lemma sync_tokens:
  "sync_inv n P E L S \<Longrightarrow> k < 2 ^ 24 \<Longrightarrow>
     tagged (S 0) (tag_in k) + (if k = E 0 then taken n (P 0) else 0) \<le> card {r \<in> {1..<n}. counts P E k r}"
  unfolding sync_inv_def token_inv_def by blast

lemma sync_released:
  "sync_inv n P E L S \<Longrightarrow> i < n \<Longrightarrow> k < 2 ^ 24 \<Longrightarrow> tagged (S i) (tag_out k) \<noteq> 0 \<Longrightarrow> j < n \<Longrightarrow> k \<le> E j"
  unfolding sync_inv_def release_inv_def by blast

lemma sync_shrink:
  assumes "sync_inv n P E L S" and "0 < n" and "\<And>i. i < n \<Longrightarrow> S' i \<subseteq># S i"
  shows "sync_inv n P E L S'"
proof -
  have le: "tagged (S' i) t \<le> tagged (S i) t" if "i < n" for i t using assms(3) that by (intro tagged_mono)
  have "token_inv n P E (S' 0)"
    using assms(1) le [OF assms(2)] unfolding sync_inv_def token_inv_def
    by (meson add_le_mono1 order_trans)
  moreover have "release_inv n E (S' i)" if "i < n" for i
    using assms(1) le [OF that] that unfolding sync_inv_def release_inv_def by (metis le_zero_eq)
  ultimately show ?thesis using assms(1) by (simp add: sync_inv_def)
qed

lemma counts_mono:
  assumes "\<And>r k. r \<in> {1..<n} \<Longrightarrow> counts P E k r \<Longrightarrow> counts P' E' k r"
  shows "card {r \<in> {1..<n}. counts P E k r} \<le> card {r \<in> {1..<n}. counts P' E' k r}"
  using assms by (intro card_mono) auto

lemma sync_pc:
  assumes "sync_inv n P E L S" and "i < n" and "role n i E pc" and "i = 0 \<Longrightarrow> taken n pc \<le> taken n (P 0)"
    and "at_token pc \<Longrightarrow> at_token (P i)"
  shows "sync_inv n (P(i := pc)) E L S"
proof -
  have "token_inv n (P(i := pc)) E (S 0)" unfolding token_inv_def
  proof (intro allI impI)
    fix k :: nat assume "k < 2 ^ 24"
    with assms(1) have "tagged (S 0) (tag_in k) + (if k = E 0 then taken n (P 0) else 0)
        \<le> card {r \<in> {1..<n}. counts P E k r}" by (simp add: sync_inv_def token_inv_def)
    moreover have "card {r \<in> {1..<n}. counts P E k r} \<le> card {r \<in> {1..<n}. counts (P(i := pc)) E k r}"
      using assms(5) by (intro counts_mono) (auto simp: counts_def)
    ultimately show "tagged (S 0) (tag_in k) + (if k = E 0 then taken n ((P(i := pc)) 0) else 0)
        \<le> card {r \<in> {1..<n}. counts (P(i := pc)) E k r}" using assms(4) by (auto split: if_splits)
  qed
  with assms(1,3) show ?thesis by (simp add: sync_inv_def)
qed

lemma sync_leave:
  "sync_inv n P E L S \<Longrightarrow> (pc = BUser MPI_SUCCESS \<Longrightarrow> \<forall>j<n. E i \<le> E j) \<Longrightarrow>
     sync_inv n P E (L(i := if pc = BUser MPI_SUCCESS then E i else L i)) S"
  by (cases "pc = BUser MPI_SUCCESS") (simp_all add: sync_inv_def)

lemma sync_move:
  assumes "sync_inv n P E L S" and "i < n" and "\<And>j. j < n \<Longrightarrow> S' j \<subseteq># S j" and "role n i E pc"
    and "i = 0 \<Longrightarrow> taken n pc \<le> taken n (P 0)" and "at_token pc \<Longrightarrow> at_token (P i)"
  shows "sync_inv n (P(i := pc)) E L S'"
  using sync_pc [OF sync_shrink [OF assms(1) _ assms(3)] assms(2,4-6)] assms(2) by simp

text \<open>A message that is neither a token nor a release too early may be under way.\<close>

lemma sync_add:
  assumes "sync_inv n P E L S" and "0 < n" and "\<And>k. t \<noteq> tag_in k"
    and "\<And>k. k < 2 ^ 24 \<Longrightarrow> t = tag_out k \<Longrightarrow> \<forall>j<n. k \<le> E j"
    and "\<And>i. i < n \<Longrightarrow> S' i \<subseteq># S i + (if Q i then {#m#} else {#})" and "h_tag (fst m) = t"
  shows "sync_inv n P E L S'"
proof -
  let ?S = "\<lambda>i. S i + (if Q i then {#m#} else {#})"
  have "token_inv n P E (?S 0)" using assms(1,3,6) by (auto simp: sync_inv_def token_inv_def)
  moreover have "release_inv n E (?S i)" if "i < n" for i
    using assms(1,4,6) that by (auto simp: sync_inv_def release_inv_def)
  ultimately have "sync_inv n P E L ?S" using assms(1) by (simp add: sync_inv_def)
  from sync_shrink [OF this assms(2,5)] show ?thesis .
qed

text \<open>A rank begins its next collective.\<close>

lemma sync_enter:
  assumes "sync_inv n P E L S" and "i < n" and "role n i (E(i := Suc (E i))) pc" and "taken n pc = 0"
  shows "sync_inv n (P(i := pc)) (E(i := Suc (E i))) L S"
proof -
  have "counts (P(i := pc)) (E(i := Suc (E i))) k r" if "r \<in> {1..<n}" "counts P E k r" for r k
    using that by (auto simp: counts_def)
  note c = counts_mono [of n P E, OF this]
  have "token_inv n (P(i := pc)) (E(i := Suc (E i))) (S 0)" unfolding token_inv_def
  proof (intro allI impI)
    fix k :: nat assume "k < 2 ^ 24"
    with assms(1) have "tagged (S 0) (tag_in k) \<le> card {r \<in> {1..<n}. counts P E k r}"
      and "tagged (S 0) (tag_in k) + (if k = E 0 then taken n (P 0) else 0) \<le> card {r \<in> {1..<n}. counts P E k r}"
      by (simp_all add: sync_inv_def token_inv_def) (meson add_leD1)
    then show "tagged (S 0) (tag_in k) + (if k = (E(i := Suc (E i))) 0 then taken n ((P(i := pc)) 0) else 0)
        \<le> card {r \<in> {1..<n}. counts (P(i := pc)) (E(i := Suc (E i))) k r}"
      using c [of k] assms(4) by (auto split: if_splits)
  qed
  moreover have "release_inv n (E(i := Suc (E i))) (S j)" if "j < n" for j
    using assms(1) that by (fastforce simp: sync_inv_def release_inv_def intro: le_SucI)
  moreover have "role n j (E(i := Suc (E i))) ((P(i := pc)) j)" if "j < n" for j
  proof (cases "j = i")
    case False
    have "role n j E (P j)" using assms(1) that by (simp add: sync_inv_def)
    with False show ?thesis by (cases "P j") (auto intro: le_SucI)
  qed (use assms(3) in simp)
  ultimately show ?thesis using assms(1) by (auto simp: sync_inv_def intro: le_SucI)
qed

lemma sync_token:
  assumes "sync_inv n P E L S" and "i < n" and "P i = BToken tok" and "E i < 2 ^ 24"
    and "\<not> at_token pc" and "role n i E pc" and "h_tag (fst m) = tag_in (E i)"
    and "\<And>j. j < n \<Longrightarrow> S' j \<subseteq># S j + (if Q j then {#m#} else {#})"
  shows "sync_inv n (P(i := pc)) E L S'"
proof -
  let ?S = "\<lambda>j. S j + (if Q j then {#m#} else {#})"
  have i: "i \<noteq> 0" using sync_role [OF assms(1-3)] by simp
  have "token_inv n (P(i := pc)) E (?S 0)" unfolding token_inv_def
  proof (intro allI impI)
    fix k :: nat assume k: "k < 2 ^ 24"
    let ?A = "{r \<in> {1..<n}. counts P E k r}"
    have eq: "{r \<in> {1..<n}. counts (P(i := pc)) E k r} = (if k = E i then insert i ?A else ?A)"
      using i assms(2,3,5) by (auto simp: counts_def)
    have "i \<notin> ?A" if "k = E i" using that assms(3) by (simp add: counts_def)
    then have "card {r \<in> {1..<n}. counts (P(i := pc)) E k r} = card ?A + (if k = E i then 1 else 0)"
      unfolding eq by (simp split: if_split)
    moreover have "tagged (S 0) (tag_in k) + (if k = E 0 then taken n (P 0) else 0) \<le> card {r \<in> {1..<n}. counts P E k r}"
      by (rule sync_tokens [OF assms(1) k])
    moreover have "tagged (?S 0) (tag_in k) \<le> tagged (S 0) (tag_in k) + (if k = E i then 1 else 0)"
      using assms(4,7) k by (simp add: barrier_tags(1))
    moreover have "(if k = E 0 then taken n ((P(i := pc)) 0) else 0) = (if k = E 0 then taken n (P 0) else 0)"
      using i by simp
    ultimately show "tagged (?S 0) (tag_in k) + (if k = E 0 then taken n ((P(i := pc)) 0) else 0)
        \<le> card {r \<in> {1..<n}. counts (P(i := pc)) E k r}" by linarith
  qed
  moreover have "release_inv n E (?S j)" if "j < n" for j
    using assms(1,7) that by (auto simp: sync_inv_def release_inv_def barrier_tags)
  ultimately have "sync_inv n (P(i := pc)) E L ?S" using assms(1,6) by (simp add: sync_inv_def)
  from sync_shrink [OF this _ assms(8)] assms(2) show ?thesis by simp
qed

lemma sync_receive:
  assumes "sync_inv n P E L S" and "0 < n" and "P 0 = BRecv tok (Suc j)" and "h_tag (fst m) = tag_in (E 0)"
    and "\<And>i. i < n \<Longrightarrow> S' i \<subseteq># S i" and "S' 0 + {#m#} \<subseteq># S 0"
  shows "sync_inv n (P(0 := BRecv tok j)) E L S'"
proof -
  have r: "Suc j < n" using sync_role [OF assms(1-3)] by simp
  have "token_inv n (P(0 := BRecv tok j)) E (S' 0)" unfolding token_inv_def
  proof (intro allI impI)
    fix k :: nat assume k: "k < 2 ^ 24"
    have "tagged (S' 0) (tag_in k) + (if k = E 0 then 1 else 0) \<le> tagged (S 0) (tag_in k)"
      using tagged_mono [OF assms(6), of "tag_in k"] by (cases "k = E 0") (simp_all add: assms(4))
    moreover have "tagged (S 0) (tag_in k) + (if k = E 0 then taken n (P 0) else 0) \<le> card {r \<in> {1..<n}. counts P E k r}"
      by (rule sync_tokens [OF assms(1) k])
    moreover have "card {r \<in> {1..<n}. counts (P(0 := BRecv tok j)) E k r} = card {r \<in> {1..<n}. counts P E k r}"
      by (rule arg_cong [where f = card]) (auto simp: counts_def)
    moreover have "(if k = E 0 then taken n ((P(0 := BRecv tok j)) 0) else 0) =
        (if k = E 0 then taken n (P 0) else 0) + (if k = E 0 then 1 else 0)"
      using assms(3) r by (simp add: Suc_diff_Suc)
    ultimately show "tagged (S' 0) (tag_in k) + (if k = E 0 then taken n ((P(0 := BRecv tok j)) 0) else 0)
        \<le> card {r \<in> {1..<n}. counts (P(0 := BRecv tok j)) E k r}" by linarith
  qed
  moreover have "sync_inv n P E L S'" using sync_shrink [OF assms(1,2,5)] .
  ultimately show ?thesis using r by (simp add: sync_inv_def)
qed

text \<open>When rank 0 has all its tokens, every rank has begun this barrier.\<close>

lemma sync_all_tokens:
  assumes "sync_inv n P E L S" and "0 < n" and "P 0 = BRecv tok 0" and "E 0 < 2 ^ 24"
  shows "\<forall>j<n. E 0 \<le> E j"
proof (intro allI impI)
  fix j assume j: "j < n"
  have "n - 1 \<le> card {r \<in> {1..<n}. counts P E (E 0) r}"
    using sync_tokens [OF assms(1,4)] assms(3) by simp
  moreover have "{r \<in> {1..<n}. counts P E (E 0) r} \<subseteq> {1..<n}" by auto
  ultimately have "{r \<in> {1..<n}. counts P E (E 0) r} = {1..<n}"
    by (metis card_atLeastLessThan card_seteq finite_atLeastLessThan)
  then have "counts P E (E 0) j" if "j \<in> {1..<n}" using that by blast
  with j show "E 0 \<le> E j" by (cases "j = 0") (auto simp: counts_def)
qed

section \<open>The cluster keeps the invariant\<close>

definition may_receive :: "('w \<Rightarrow> nat \<Rightarrow> u8 list multiset) \<Rightarrow> 'w cluster \<Rightarrow> nat \<Rightarrow> message multiset" where
  "may_receive inbox c i = stock inbox i (mpi_pending (ranks c i)) (world c)"

definition rank_ok :: "nat \<Rightarrow> nat \<Rightarrow> nat \<Rightarrow> 'w mpi \<Rightarrow> bool" where
  "rank_ok n i e s \<longleftrightarrow> mpi_rank s = of_nat i \<and> mpi_size s = of_nat n \<and> coll_seq s = of_nat e \<and> queue_wf (mpi_pending s)"

definition cluster_sync :: "nat \<Rightarrow> ('w \<Rightarrow> nat \<Rightarrow> u8 list multiset) \<Rightarrow> 'w cluster \<Rightarrow> bool" where
  "cluster_sync n inbox c \<longleftrightarrow> ((\<forall>i<n. entered c i < 2 ^ 24) \<longrightarrow>
     sync_inv n (rpcs c) (entered c) (left c) (may_receive inbox c))"

definition cluster_inv :: "nat \<Rightarrow> ('w \<Rightarrow> nat \<Rightarrow> u8 list multiset) \<Rightarrow> 'w cluster \<Rightarrow> bool" where
  "cluster_inv n inbox c \<longleftrightarrow> 0 < n \<and> n \<le> 16 \<and> (\<forall>i<n. rank_ok n i (entered c i) (ranks c i)) \<and> cluster_sync n inbox c"

lemma rank_put_simps [simp]:
  "ranks (rank_put i pc s c) = (ranks c)(i := s)" "rpcs (rank_put i pc s c) = (rpcs c)(i := pc)"
  "world (rank_put i pc s c) = mpi_world s" "entered (rank_put i pc s c) = entered c"
  "left (rank_put i pc s c) = left c"
  by (simp_all add: rank_put_def)

lemma may_receive_simps [simp]:
  "may_receive inbox (c\<lparr>left := l\<rparr>) = may_receive inbox c" "may_receive inbox (c\<lparr>entered := e\<rparr>) = may_receive inbox c"
  by (simp_all add: may_receive_def fun_eq_iff)

lemma may_receive_history [simp]:
  "may_receive inbox (noted N i e p s c) = may_receive inbox c" "may_receive inbox (c\<lparr>args := z\<rparr>) = may_receive inbox c"
  "may_receive inbox (c\<lparr>entered := en, args := z\<rparr>) = may_receive inbox c"
  by (simp_all add: may_receive_def noted_def fun_eq_iff)

lemma noted_simps [simp]:
  "ranks (noted N i e p s c) = ranks c" "rpcs (noted N i e p s c) = rpcs c" "world (noted N i e p s c) = world c"
  "entered (noted N i e p s c) = entered c" "left (noted N i e p s c) = left c" "args (noted N i e p s c) = args c"
  by (simp_all add: noted_def)

lemma cluster_inv_history [simp]:
  "cluster_inv n inbox (noted N i e p s c) = cluster_inv n inbox c"
  "cluster_inv n inbox (c\<lparr>entered := en, args := z\<rparr>) = cluster_inv n inbox (c\<lparr>entered := en\<rparr>)"
  by (simp_all add: cluster_inv_def cluster_sync_def)

lemma rank_view_simps [simp]:
  "mpi_world (rank_view c i) = world c" "mpi_pending (rank_view c i) = mpi_pending (ranks c i)"
  "mpi_size (rank_view c i) = mpi_size (ranks c i)" "mpi_rank (rank_view c i) = mpi_rank (ranks c i)"
  "coll_seq (rank_view c i) = coll_seq (ranks c i)" "rank_ok n i e (rank_view c i) \<longleftrightarrow> rank_ok n i e (ranks c i)"
  by (simp_all add: rank_view_def rank_ok_def)

lemma rank_view_put [simp]:
  "rank_view (rank_put i pc s c) i = s" "rank_view (c\<lparr>entered := e\<rparr>) = rank_view c" "rank_view (c\<lparr>left := l\<rparr>) = rank_view c"
  by (simp_all add: rank_view_def fun_eq_iff)

lemma inv_rank: "cluster_inv n inbox c \<Longrightarrow> i < n \<Longrightarrow> rank_ok n i (entered c i) (ranks c i)"
  by (simp add: cluster_inv_def)

lemma received:
  assumes "datagrams_conserved n Net inbox" and "i < n" and "rank_ok n i e (ranks c i)"
    and "MPI_Recv (Net i) buf cnt type source tag comm status (rank_view c i) = Some (rc, st, s)"
  shows "rank_ok n i e s"
    and "j < n \<Longrightarrow> may_receive inbox (rank_put i pc s c) j \<subseteq># may_receive inbox c j"
    and "rc = MPI_SUCCESS \<Longrightarrow> \<exists>m. msg_wanted (source, tag) m \<and>
      may_receive inbox (rank_put i pc s c) i + {#m#} \<subseteq># may_receive inbox c i"
proof -
  have wf: "queue_wf (mpi_pending (rank_view c i))" using assms(3) by (simp add: rank_ok_def)
  note r = MPI_Recv_conserves [OF assms(1,2) wf assms(4)]
  show "rank_ok n i e s" using MPI_Recv_setup [OF assms(4)] assms(3) r(1) by (simp add: same_setup_def rank_ok_def)
  show "may_receive inbox (rank_put i pc s c) j \<subseteq># may_receive inbox c j" if "j < n"
    using r(2,3) that by (cases "j = i") (simp_all add: may_receive_def others_keep_def stock_def decoded_mono)
  show "\<exists>m. msg_wanted (source, tag) m \<and>
      may_receive inbox (rank_put i pc s c) i + {#m#} \<subseteq># may_receive inbox c i" if "rc = MPI_SUCCESS"
    using r(4) [OF that] by (simp add: may_receive_def)
qed

lemma sent:
  assumes "datagrams_conserved n Net inbox" and "i < n" and "rank_ok n i e (ranks c i)" and "n \<le> 16"
    and "MPI_Send (Net i) buf cnt type dest tag comm (rank_view c i) = Some (rc, s)"
  obtains m where "rank_ok n i e s" "h_tag (fst m) = tag"
    "\<And>j pc. j < n \<Longrightarrow> may_receive inbox (rank_put i pc s c) j \<subseteq>#
       may_receive inbox c j + (if dest = of_nat j then {#m#} else {#})"
    "m = frame_of (rank_view c i) buf cnt type tag"
proof -
  let ?m = "frame_of (rank_view c i) buf cnt type tag"
  have n: "mpi_size (rank_view c i) = of_nat n" using assms(3) by (simp add: rank_ok_def)
  note m = MPI_Send_conserves [OF assms(1,2) n assms(4,5)]
  have "may_receive inbox (rank_put i pc s c) j \<subseteq># may_receive inbox c j + (if dest = of_nat j then {#?m#} else {#})"
    if "j < n" for j pc
  proof -
    have "mpi_pending (ranks (rank_put i pc s c) j) = mpi_pending (ranks c j)" using m(1) by simp
    moreover have "decoded (inbox (mpi_world s) j)
      \<subseteq># decoded (inbox (world c) j) + (if dest = of_nat j then {#?m#} else {#})" using m(2) [OF that] by simp
    ultimately show ?thesis by (simp only: may_receive_def stock_def rank_put_simps add.assoc subset_mset.add_le_cancel_left)
  qed
  moreover have "rank_ok n i e s"
    using MPI_Send_setup [OF assms(5)] assms(3) m(1) by (simp add: same_setup_def rank_ok_def)
  ultimately show thesis using that [of ?m] by (simp add: frame_of_def)
qed

lemma barrier_wanted: "msg_wanted (source, coll_tag seq op) m \<Longrightarrow> 1 \<le> op \<Longrightarrow> op < 5 \<Longrightarrow> h_tag (fst m) = coll_tag seq op"
  using coll_tag_nonneg [of op seq] by (auto simp: msg_wanted_def matches_def split: if_splits)

lemma may_receive_view [simp]: "may_receive inbox (rank_put i pc (rank_view c i) c) = may_receive inbox c"
  by (simp add: may_receive_def fun_eq_iff)

lemma at_barrier_tags:
  "rank_ok n i e s \<Longrightarrow> coll_tag (coll_seq s) COLL_BARRIER_IN = tag_in e"
  "rank_ok n i e s \<Longrightarrow> coll_tag (coll_seq s) COLL_BARRIER_OUT = tag_out e"
  by (simp_all add: rank_ok_def tag_in_def tag_out_def)

lemma cluster_inv_put:
  assumes "cluster_inv n inbox c" and "i < n" and "rank_ok n i (entered c i) s"
    and "\<forall>i<n. entered c i < 2 ^ 24 \<Longrightarrow> sync_inv n (rpcs c) (entered c) (left c) (may_receive inbox c) \<Longrightarrow>
      sync_inv n ((rpcs c)(i := pc)) (entered c) l (may_receive inbox (rank_put i pc s c))"
  shows "cluster_inv n inbox ((rank_put i pc s c)\<lparr>left := l\<rparr>)"
  using assms by (simp add: cluster_inv_def cluster_sync_def)

lemma advance_receive:
  assumes "datagrams_conserved n Net inbox" and "cluster_inv n inbox c" and "i < n" and "rpcs c i = BRecv tok (Suc k)"
    and "barrier_next (Net i) (rpcs c i) (rank_view c i) = Some (pc, s)"
  shows "cluster_inv n inbox ((rank_put i pc s c)\<lparr>left :=
    (left c)(i := if pc = BUser MPI_SUCCESS then entered c i else left c i)\<rparr>)"
proof -
  note ok = inv_rank [OF assms(2,3)]
  let ?tag = "coll_tag (coll_seq (rank_view c i)) COLL_BARRIER_IN"
  have tag: "?tag = tag_in (entered c i)" using at_barrier_tags [OF ok] by simp
  from assms(4,5) obtain rc st where
    r: "MPI_Recv (Net i) tok 1 MPI_BYTE MPI_ANY_SOURCE ?tag MPI_COMM_WORLD False (rank_view c i) = Some (rc, st, s)"
      "pc = (if rc \<noteq> MPI_SUCCESS then BUser rc else BRecv tok k)" by (auto split: option.splits prod.splits)
  note got = received [OF assms(1,3) ok r(1)]
  show ?thesis
  proof (rule cluster_inv_put [OF assms(2,3) got(1)], rule sync_leave)
    assume inv: "sync_inv n (rpcs c) (entered c) (left c) (may_receive inbox c)"
    from sync_role [OF inv assms(3,4)] have i: "i = 0" "Suc k < n" by simp_all
    show "sync_inv n ((rpcs c)(i := pc)) (entered c) (left c) (may_receive inbox (rank_put i pc s c))"
    proof (cases "rc = MPI_SUCCESS")
      case True
      with got(3) obtain m where m: "msg_wanted (MPI_ANY_SOURCE, ?tag) m"
        "may_receive inbox (rank_put i pc s c) i + {#m#} \<subseteq># may_receive inbox c i" by blast
      have "h_tag (fst m) = tag_in (entered c 0)" using barrier_wanted [OF m(1)] tag i by simp
      from sync_receive [OF inv _ _ this, of tok k] got(2) m(2) i assms(4) True r(2) show ?thesis by simp
    next
      case False
      with r(2) show ?thesis by (intro sync_move [OF inv assms(3) got(2)]) simp_all
    qed
  qed (use r(2) in \<open>simp split: if_splits\<close>)
qed

lemma advance_release:
  assumes "datagrams_conserved n Net inbox" and "cluster_inv n inbox c" and "i < n" and "rpcs c i = BSend tok (r # rs)"
    and "barrier_next (Net i) (rpcs c i) (rank_view c i) = Some (pc, s)"
  shows "cluster_inv n inbox ((rank_put i pc s c)\<lparr>left :=
    (left c)(i := if pc = BUser MPI_SUCCESS then entered c i else left c i)\<rparr>)"
proof -
  note ok = inv_rank [OF assms(2,3)]
  let ?tag = "coll_tag (coll_seq (rank_view c i)) COLL_BARRIER_OUT"
  have tag: "?tag = tag_out (entered c i)" using at_barrier_tags [OF ok] by simp
  from assms(4,5) obtain rc where
    r: "MPI_Send (Net i) tok 1 MPI_BYTE r ?tag MPI_COMM_WORLD (rank_view c i) = Some (rc, s)"
      "pc = (if rc \<noteq> MPI_SUCCESS then BUser rc else BSend tok rs)" by (auto split: option.splits prod.splits)
  have "n \<le> 16" using assms(2) by (simp add: cluster_inv_def)
  from sent [OF assms(1,3) ok this r(1)] obtain m where m: "rank_ok n i (entered c i) s" "h_tag (fst m) = ?tag"
    "\<And>j pc. j < n \<Longrightarrow> may_receive inbox (rank_put i pc s c) j \<subseteq>#
       may_receive inbox c j + (if r = of_nat j then {#m#} else {#})" by blast
  show ?thesis
  proof (rule cluster_inv_put [OF assms(2,3) m(1)], rule sync_leave)
    assume inv: "sync_inv n (rpcs c) (entered c) (left c) (may_receive inbox c)" and
      small: "\<forall>i<n. entered c i < 2 ^ 24"
    from sync_role [OF inv assms(3,4)] have i: "i = 0" "\<forall>j<n. entered c 0 \<le> entered c j" by simp_all
    have "sync_inv n (rpcs c) (entered c) (left c) (may_receive inbox (rank_put i pc s c))"
    proof (rule sync_add [OF inv _ _ _ m(3) m(2)])
      show "\<forall>j<n. k \<le> entered c j" if "k < 2 ^ 24" "?tag = tag_out k" for k
      proof -
        have "entered c 0 = k"
          using barrier_tags(2) [of "entered c 0" k] that(2) [unfolded tag] that(1) small assms(3) i(1) by blast
        with i(2) show ?thesis by blast
      qed
      show "?tag \<noteq> tag_in k" for k unfolding tag by (rule barrier_tags(4))
    qed (use assms(3) in simp)
    then show "sync_inv n ((rpcs c)(i := pc)) (entered c) (left c) (may_receive inbox (rank_put i pc s c))"
      using r(2) i by (intro sync_pc [OF _ assms(3)]) (simp_all split: if_splits)
  qed (use r(2) in \<open>simp split: if_splits\<close>)
qed

lemma advance_token:
  assumes "datagrams_conserved n Net inbox" and "cluster_inv n inbox c" and "i < n" and "rpcs c i = BToken tok"
    and "barrier_next (Net i) (rpcs c i) (rank_view c i) = Some (pc, s)"
  shows "cluster_inv n inbox ((rank_put i pc s c)\<lparr>left :=
    (left c)(i := if pc = BUser MPI_SUCCESS then entered c i else left c i)\<rparr>)"
proof -
  note ok = inv_rank [OF assms(2,3)]
  let ?tag = "coll_tag (coll_seq (rank_view c i)) COLL_BARRIER_IN"
  have tag: "?tag = tag_in (entered c i)" using at_barrier_tags [OF ok] by simp
  from assms(4,5) obtain rc where
    r: "MPI_Send (Net i) tok 1 MPI_BYTE 0 ?tag MPI_COMM_WORLD (rank_view c i) = Some (rc, s)"
      "pc = (if rc \<noteq> MPI_SUCCESS then BUser rc else BAwait tok)" by (auto split: option.splits prod.splits)
  have "n \<le> 16" using assms(2) by (simp add: cluster_inv_def)
  from sent [OF assms(1,3) ok this r(1)] obtain m where m: "rank_ok n i (entered c i) s" "h_tag (fst m) = ?tag"
    "\<And>j pc. j < n \<Longrightarrow> may_receive inbox (rank_put i pc s c) j \<subseteq>#
       may_receive inbox c j + (if (0 :: i32) = of_nat j then {#m#} else {#})" by blast
  show ?thesis
  proof (rule cluster_inv_put [OF assms(2,3) m(1)], rule sync_leave)
    assume inv: "sync_inv n (rpcs c) (entered c) (left c) (may_receive inbox c)" and
      small: "\<forall>i<n. entered c i < 2 ^ 24"
    have "i \<noteq> 0" using sync_role [OF inv assms(3,4)] by simp
    with r(2) have "\<not> at_token pc" "role n i (entered c) pc" by simp_all
    with small assms(3) show "sync_inv n ((rpcs c)(i := pc)) (entered c) (left c) (may_receive inbox (rank_put i pc s c))"
      by (intro sync_token [OF inv assms(3,4) _ _ _ m(2) [unfolded tag] m(3)]) blast+
  qed (use r(2) in \<open>simp split: if_splits\<close>)
qed

lemma advance_released:
  assumes "datagrams_conserved n Net inbox" and "cluster_inv n inbox c" and "i < n" and "rpcs c i = BAwait tok"
    and "barrier_next (Net i) (rpcs c i) (rank_view c i) = Some (pc, s)"
  shows "cluster_inv n inbox ((rank_put i pc s c)\<lparr>left :=
    (left c)(i := if pc = BUser MPI_SUCCESS then entered c i else left c i)\<rparr>)"
proof -
  note ok = inv_rank [OF assms(2,3)]
  let ?tag = "coll_tag (coll_seq (rank_view c i)) COLL_BARRIER_OUT"
  have tag: "?tag = tag_out (entered c i)" using at_barrier_tags [OF ok] by simp
  from assms(4,5) obtain rc st where
    r: "MPI_Recv (Net i) tok 1 MPI_BYTE 0 ?tag MPI_COMM_WORLD False (rank_view c i) = Some (rc, st, s)"
      "pc = BUser rc" by (auto split: option.splits prod.splits)
  note got = received [OF assms(1,3) ok r(1)]
  show ?thesis
  proof (rule cluster_inv_put [OF assms(2,3) got(1)], rule sync_leave)
    assume inv: "sync_inv n (rpcs c) (entered c) (left c) (may_receive inbox c)"
    then show "sync_inv n ((rpcs c)(i := pc)) (entered c) (left c) (may_receive inbox (rank_put i pc s c))"
      using r(2) by (intro sync_move [OF _ assms(3) got(2)]) simp_all
    assume small: "\<forall>i<n. entered c i < 2 ^ 24" and "pc = BUser MPI_SUCCESS"
    with r(2) got(3) obtain m where m: "msg_wanted (0, ?tag) m"
      "may_receive inbox (rank_put i pc s c) i + {#m#} \<subseteq># may_receive inbox c i" by blast
    have "h_tag (fst m) = tag_out (entered c i)" using barrier_wanted [OF m(1)] tag by simp
    with tagged_mono [OF m(2), of "tag_out (entered c i)"]
    have "tagged (may_receive inbox c i) (tag_out (entered c i)) \<noteq> 0" by simp
    with sync_released [OF inv assms(3)] small assms(3) show "\<forall>j<n. entered c i \<le> entered c j" by blast
  qed
qed

lemma advance_inv:
  assumes "datagrams_conserved n Net inbox" and "cluster_inv n inbox c" and "i < n"
    and "barrier_next (Net i) (rpcs c i) (rank_view c i) = Some (pc, s)"
  shows "cluster_inv n inbox ((rank_put i pc s c)\<lparr>left :=
    (left c)(i := if pc = BUser MPI_SUCCESS then entered c i else left c i)\<rparr>)"
proof (cases "rpcs c i")
  case (BRecv tok k)
  show ?thesis
  proof (cases k)
    case 0
    with BRecv assms(4) have pc: "pc = BSend tok (ranks_from 1 (mpi_size (rank_view c i)))" "s = rank_view c i" by auto
    show ?thesis
    proof (rule cluster_inv_put [OF assms(2,3)], simp add: pc inv_rank [OF assms(2,3)], rule sync_leave)
      assume inv: "sync_inv n (rpcs c) (entered c) (left c) (may_receive inbox c)" and
        small: "\<forall>i<n. entered c i < 2 ^ 24"
      from sync_role [OF inv assms(3) BRecv] have i: "i = 0" by simp
      with sync_all_tokens [OF inv, of tok] small assms(3) BRecv 0 have "\<forall>j<n. entered c 0 \<le> entered c j" by simp
      with i have "sync_inv n ((rpcs c)(i := pc)) (entered c) (left c) (may_receive inbox c)"
        by (intro sync_pc [OF inv assms(3)]) (simp_all add: pc)
      then show "sync_inv n ((rpcs c)(i := pc)) (entered c) (left c) (may_receive inbox (rank_put i pc s c))"
        by (simp add: pc)
    qed (simp add: pc)
  qed (use advance_receive [OF assms(1-3) _ assms(4)] BRecv in blast)
next
  case (BSend tok rs)
  show ?thesis
  proof (cases rs)
    case Nil
    with BSend assms(4) have pc: "pc = BUser MPI_SUCCESS" "s = rank_view c i" by auto
    show ?thesis
    proof (rule cluster_inv_put [OF assms(2,3)], simp add: pc inv_rank [OF assms(2,3)], rule sync_leave)
      assume inv: "sync_inv n (rpcs c) (entered c) (left c) (may_receive inbox c)"
      then show "sync_inv n ((rpcs c)(i := pc)) (entered c) (left c) (may_receive inbox (rank_put i pc s c))"
        using pc by (simp, intro sync_pc [OF _ assms(3)]) simp_all
      show "\<forall>j<n. entered c i \<le> entered c j" using sync_role [OF inv assms(3) BSend] by simp
    qed
  qed (use advance_release [OF assms(1-3) _ assms(4)] BSend in blast)
qed (use advance_token [OF assms(1-3) _ assms(4)] advance_released [OF assms(1-3) _ assms(4)] assms(4) in simp_all)

text \<open>Steps that have nothing to do with a barrier, except that they may take the next sequence number.\<close>

definition neutral :: "bpc \<Rightarrow> bool" where
  "neutral pc \<longleftrightarrow> in_user pc \<or> (\<exists>p. pc = BOther p)"

lemma neutral_simps [simp]: "neutral (BUser rc)" "neutral (BOther p)"
  by (simp_all add: neutral_def)

lemma neutral_pc: "neutral pc \<Longrightarrow> role n i E pc \<and> taken n pc = 0 \<and> \<not> at_token pc"
  by (cases pc) (auto simp: neutral_def)

lemma quiet_inv:
  assumes inv: "cluster_inv n inbox c" and i: "i < n" and pc: "neutral pc"
    and e: "e = entered c i \<or> e = Suc (entered c i)" and ok: "rank_ok n i e s"
    and tag: "\<And>k. h_tag (fst m) \<noteq> tag_in k" "\<And>k. h_tag (fst m) \<noteq> tag_out k"
    and get: "\<And>j. j < n \<Longrightarrow> may_receive inbox (rank_put i pc s c) j \<subseteq># may_receive inbox c j + (if Q j then {#m#} else {#})"
  shows "cluster_inv n inbox ((rank_put i pc s c)\<lparr>entered := (entered c)(i := e)\<rparr>)"
proof -
  have "sync_inv n ((rpcs c)(i := pc)) ((entered c)(i := e)) (left c) (may_receive inbox (rank_put i pc s c))"
    if "\<forall>j<n. ((entered c)(i := e)) j < 2 ^ 24"
  proof -
    have "\<forall>j<n. entered c j < 2 ^ 24" using that e by (metis Suc_lessD fun_upd_apply)
    with inv have "sync_inv n (rpcs c) (entered c) (left c) (may_receive inbox c)"
      by (simp add: cluster_inv_def cluster_sync_def)
    from sync_add [OF this _ tag(1) _ get refl] i tag(2)
    have "sync_inv n (rpcs c) (entered c) (left c) (may_receive inbox (rank_put i pc s c))" by blast
    with e show ?thesis
      using sync_enter [OF _ i] sync_pc [OF _ i] neutral_pc [OF pc] by (metis fun_upd_triv le0)
  qed
  with inv ok show ?thesis by (auto simp: cluster_inv_def cluster_sync_def)
qed

lemma quiet_inv_shrink:
  assumes "cluster_inv n inbox c" and "i < n" and "neutral pc" and "e = entered c i \<or> e = Suc (entered c i)"
    and "rank_ok n i e s" and "\<And>j. j < n \<Longrightarrow> may_receive inbox (rank_put i pc s c) j \<subseteq># may_receive inbox c j"
  shows "cluster_inv n inbox ((rank_put i pc s c)\<lparr>entered := (entered c)(i := e)\<rparr>)"
  by (rule quiet_inv [OF assms(1-5), of "(\<lparr>h_src = 0, h_tag = 0, h_count = 0, h_type = 0\<rparr>, [])" "\<lambda>_. False"])
    (use assms(6) barrier_tags(5,6) [of 0] in simp_all)

lemma entered_same [simp]: "(rank_put i pc s c)\<lparr>entered := entered c\<rparr> = rank_put i pc s c"
  by (simp add: rank_put_def)

lemma begun_cases:
  "coll_seq s' = coll_seq s \<Longrightarrow> begun s s' = 0" "coll_seq s' = coll_seq s + 1 \<Longrightarrow> begun s s' = 1"
  by (simp_all add: begun_def)

text \<open>What changes of a rank besides its memory.\<close>

definition seq_moved :: "'w mpi \<Rightarrow> 'w mpi \<Rightarrow> bool" where
  "seq_moved s s' \<longleftrightarrow> (\<exists>q m. s' = s\<lparr>coll_seq := q, mpi_mem := m\<rparr> \<and> (q = coll_seq s \<or> q = coll_seq s + 1))"

lemma seq_moved_intros:
  "seq_moved s s" "seq_moved s (s\<lparr>coll_seq := coll_seq s + 1\<rparr>)" "seq_moved s (s\<lparr>mpi_mem := m\<rparr>)"
  "seq_moved s (s\<lparr>coll_seq := coll_seq s + 1, mpi_mem := m\<rparr>)"
  unfolding seq_moved_def
  by (intro exI [of _ "coll_seq s"] exI [of _ "coll_seq s + 1"] exI [of _ "mpi_mem s"] exI [of _ m]; simp)+

lemma seq_moved_mem: "seq_moved (s\<lparr>mpi_mem := m\<rparr>) s' \<Longrightarrow> seq_moved s s'"
  by (auto simp: seq_moved_def)

lemma moved_ok:
  assumes "seq_moved s s'" and "rank_ok n i e s"
  shows "rank_ok n i (e + begun s s') s'" and "begun s s' = 0 \<or> begun s s' = 1"
    and "may_receive inbox (rank_put i pc s' c) = may_receive inbox (rank_put i pc s c)"
  using assms by (auto simp: seq_moved_def rank_ok_def begun_cases may_receive_def fun_eq_iff begun_def)

lemma enter_moves:
  "bcast_enter buf cnt type root comm s = (pc, s') \<Longrightarrow> neutral pc \<and> seq_moved s s'"
  "reduce_enter sendbuf recvbuf cnt type op root comm all s = (pc, s') \<Longrightarrow> neutral pc \<and> seq_moved s s'"
  "reduce_leave all recvbuf cnt type rc s = (pc, s') \<Longrightarrow> neutral pc \<and> seq_moved s s'"
proof -
  note same = seq_moved_intros
  show b: "neutral pc \<and> seq_moved s s'" if "bcast_enter buf cnt type root comm s = (pc, s')" for buf cnt type root comm
    using that same by (auto simp: bcast_enter_def split: if_splits)
  show "neutral pc \<and> seq_moved s s'" if "reduce_enter sendbuf recvbuf cnt type op root comm all s = (pc, s')"
    using that same by (auto simp: reduce_enter_def split: if_splits)
  show "neutral pc \<and> seq_moved s s'" if "reduce_leave all recvbuf cnt type rc s = (pc, s')"
    using that same b by (auto simp: reduce_leave_def split: if_splits)
qed

lemma moved_inv:
  assumes inv: "cluster_inv n inbox c" and i: "i < n" and pc: "neutral pc" and s: "seq_moved s s'"
    and ok: "rank_ok n i (entered c i) s"
    and tag: "\<And>k. h_tag (fst m) \<noteq> tag_in k" "\<And>k. h_tag (fst m) \<noteq> tag_out k"
    and get: "\<And>j. j < n \<Longrightarrow> may_receive inbox (rank_put i pc s c) j \<subseteq># may_receive inbox c j + (if Q j then {#m#} else {#})"
  shows "cluster_inv n inbox
    ((rank_put i pc s' c)\<lparr>entered := (entered c)(i := entered c i + begun (rank_view c i) s')\<rparr>)"
proof (rule quiet_inv [where Q = Q, OF inv i pc _ _ tag])
  have begun: "begun (rank_view c i) s' = begun s s'"
    using ok inv_rank [OF inv i] by (simp add: begun_def rank_ok_def)
  show "entered c i + begun (rank_view c i) s' = entered c i \<or> entered c i + begun (rank_view c i) s' = Suc (entered c i)"
    using moved_ok(2) [OF s ok] by (auto simp: begun)
  show "rank_ok n i (entered c i + begun (rank_view c i) s') s'" using moved_ok(1) [OF s ok] by (simp add: begun)
qed (use moved_ok(3) [OF s ok] get in simp)

lemma moved_inv_shrink:
  assumes "cluster_inv n inbox c" and "i < n" and "neutral pc" and "seq_moved s s'"
    and "rank_ok n i (entered c i) s"
    and "\<And>j. j < n \<Longrightarrow> may_receive inbox (rank_put i pc s c) j \<subseteq># may_receive inbox c j"
  shows "cluster_inv n inbox
    ((rank_put i pc s' c)\<lparr>entered := (entered c)(i := entered c i + begun (rank_view c i) s')\<rparr>)"
  by (rule moved_inv [OF assms(1-5), of "(\<lparr>h_src = 0, h_tag = 0, h_count = 0, h_type = 0\<rparr>, [])" "\<lambda>_. False"])
    (use assms(6) barrier_tags(5,6) [of 0] in simp_all)

lemma begin_inv:
  assumes "cluster_inv n inbox c" and "i < n" and "neutral pc \<and> seq_moved (rank_view c i) s"
  shows "cluster_inv n inbox
    ((rank_put i pc s c)\<lparr>entered := (entered c)(i := entered c i + begun (rank_view c i) s)\<rparr>)"
  using assms inv_rank [OF assms(1,2)] by (intro moved_inv_shrink [where s = "rank_view c i"]) simp_all

lemma enter_inv:
  assumes "cluster_inv n inbox c" and "i < n" and "in_user (rpcs c i)"
    and "barrier_enter tok comm (rank_view c i) = (pc, s)"
  shows "cluster_inv n inbox ((rank_put i pc s c)\<lparr>entered := (entered c)(i := entered c i + begun (rank_view c i) s)\<rparr>)"
proof (cases "in_user pc")
  case True
  with assms(4) have "s = rank_view c i" by (auto simp: barrier_enter_def split: if_splits)
  with True assms(1,2) show ?thesis
    by (intro begin_inv) (simp_all add: neutral_def seq_moved_intros)
next
  case False
  note ok = inv_rank [OF assms(1,2)]
  have n: "n \<le> 16" using assms(1) by (simp add: cluster_inv_def)
  have "sint (of_nat i :: i32) = int i" using n assms(2) by (intro sint_of_nat_small) simp
  then have i: "(of_nat i :: i32) = 0 \<longleftrightarrow> i = 0" by auto
  have "nat (sint (of_nat n :: i32)) = n" using n by (subst sint_of_nat_small) simp_all
  with False assms(4) ok i have pc: "pc = (if i = 0 then BRecv tok (n - 1) else BToken tok)" and
    s: "s = (rank_view c i)\<lparr>coll_seq := coll_seq (ranks c i) + 1, mpi_mem := (mpi_mem (rank_view c i))(tok := 0)\<rparr>"
    by (auto simp: barrier_enter_def rank_ok_def split: if_splits)
  have same: "may_receive inbox (rank_put i pc s c) = may_receive inbox c" and one: "begun (rank_view c i) s = 1"
    by (simp_all add: s may_receive_def fun_eq_iff begun_def)
  have "rank_ok n i (Suc (entered c i)) s" using ok by (simp add: s rank_ok_def)
  moreover have "sync_inv n ((rpcs c)(i := pc)) ((entered c)(i := Suc (entered c i))) (left c) (may_receive inbox c)"
    if "\<forall>j<n. ((entered c)(i := Suc (entered c i))) j < 2 ^ 24"
  proof -
    have "\<forall>j<n. entered c j < 2 ^ 24" using that by (metis Suc_lessD fun_upd_apply)
    with assms(1) have "sync_inv n (rpcs c) (entered c) (left c) (may_receive inbox c)"
      by (simp add: cluster_inv_def cluster_sync_def)
    then show ?thesis by (rule sync_enter [OF _ assms(2)]) (use assms(2) pc in simp_all)
  qed
  ultimately show ?thesis using assms(1) same one by (auto simp: cluster_inv_def cluster_sync_def)
qed

lemma coll_tags_other:
  "coll_tag q COLL_BCAST \<noteq> tag_in k" "coll_tag q COLL_BCAST \<noteq> tag_out k"
  "coll_tag q COLL_REDUCE \<noteq> tag_in k" "coll_tag q COLL_REDUCE \<noteq> tag_out k"
  using coll_tag_inject [of 3 1 q "of_nat k"] coll_tag_inject [of 3 2 q "of_nat k"]
    coll_tag_inject [of 4 1 q "of_nat k"] coll_tag_inject [of 4 2 q "of_nat k"]
  by (auto simp: tag_in_def tag_out_def)

lemma matched:
  assumes "datagrams_conserved n Net inbox" and "i < n" and "rank_ok n i e (ranks c i)"
    and "recv_match (Net i) source tag (rank_view c i) = Some (r, s)"
  shows "rank_ok n i e s" and "j < n \<Longrightarrow> may_receive inbox (rank_put i pc s c) j \<subseteq># may_receive inbox c j"
    and "r = Inr m \<Longrightarrow> msg_wanted (source, tag) m \<and> may_receive inbox (rank_put i pc s c) i + {#m#} \<subseteq># may_receive inbox c i"
proof -
  have wf: "queue_wf (mpi_pending (rank_view c i))" using assms(3) by (simp add: rank_ok_def)
  note r = recv_match_conserves [OF assms(1,2) wf assms(4)]
  show "rank_ok n i e s" using recv_match_setup [OF assms(4)] assms(3) r
    by (simp add: same_setup_def rank_ok_def recv_conserves_def)
  have "stock inbox i (mpi_pending s) (mpi_world s) \<subseteq># stock inbox i (mpi_pending (ranks c i)) (world c)"
    using r by (auto simp: recv_conserves_def split: sum.splits intro: sub_add_msetD)
  with r show "may_receive inbox (rank_put i pc s c) j \<subseteq># may_receive inbox c j" if "j < n"
    using that by (cases "j = i") (simp_all add: may_receive_def recv_conserves_def others_keep_def stock_def decoded_mono)
  show "msg_wanted (source, tag) m \<and> may_receive inbox (rank_put i pc s c) i + {#m#} \<subseteq># may_receive inbox c i" if "r = Inr m"
    using r that by (simp add: recv_conserves_def may_receive_def)
qed

lemma sent_inv:
  assumes "datagrams_conserved n Net inbox" and inv: "cluster_inv n inbox c" and i: "i < n"
    and "MPI_Send (Net i) buf cnt type dest tag comm (rank_view c i) = Some (rc, s)"
    and "\<And>k. tag \<noteq> tag_in k" and "\<And>k. tag \<noteq> tag_out k" and "neutral pc" and "seq_moved s s'"
  shows "cluster_inv n inbox
    ((rank_put i pc s' c)\<lparr>entered := (entered c)(i := entered c i + begun (rank_view c i) s')\<rparr>)"
proof -
  have "n \<le> 16" using inv by (simp add: cluster_inv_def)
  from sent [OF assms(1,3) inv_rank [OF inv i] this assms(4)] obtain m where
    m: "rank_ok n i (entered c i) s" "h_tag (fst m) = tag" "\<And>j pc. j < n \<Longrightarrow> may_receive inbox (rank_put i pc s c) j \<subseteq>#
       may_receive inbox c j + (if dest = of_nat j then {#m#} else {#})" by blast
  show ?thesis by (rule moved_inv [OF inv i assms(7,8) m(1) _ _ m(3)]) (use m(2) assms(5,6) in simp_all)
qed

lemma other_inv:
  assumes net: "datagrams_conserved n Net inbox" and inv: "cluster_inv n inbox c" and i: "i < n"
    and next_: "coll_next (Net i) F p (rank_view c i) = Some (pc, s)"
  shows "cluster_inv n inbox ((rank_put i pc s c)\<lparr>entered := (entered c)(i := entered c i + begun (rank_view c i) s)\<rparr>)"
proof (cases p)
  case (OSend buf cnt type rs)
  show ?thesis
  proof (cases rs)
    case Nil
    with OSend next_ show ?thesis by (intro begin_inv [OF inv i]) (auto simp: seq_moved_intros)
  next
    case (Cons r rs')
    with OSend next_ obtain rc where
      r: "MPI_Send (Net i) buf cnt type r (coll_tag (coll_seq (rank_view c i)) COLL_BCAST) MPI_COMM_WORLD (rank_view c i) = Some (rc, s)"
      "pc = (if rc \<noteq> MPI_SUCCESS then BUser rc else BOther (OSend buf cnt type rs'))"
      by (auto split: option.splits prod.splits)
    then show ?thesis by (intro sent_inv [OF net inv i r(1) coll_tags_other(1,2)]) (simp_all add: seq_moved_intros)
  qed
next
  case (ORecv buf cnt type root)
  with next_ obtain rc st where r: "MPI_Recv (Net i) buf cnt type root
      (coll_tag (coll_seq (rank_view c i)) COLL_BCAST) MPI_COMM_WORLD False (rank_view c i) = Some (rc, st, s)"
    "pc = BUser rc" by (auto split: option.splits prod.splits)
  note got = received [OF net i inv_rank [OF inv i] r(1)]
  from r(2) show ?thesis by (intro moved_inv_shrink [OF inv i _ _ got(1,2)]) (simp_all add: seq_moved_intros)
next
  case (OGive sendbuf recvbuf cnt type root all)
  with next_ obtain rc s1 where
    r: "MPI_Send (Net i) sendbuf cnt type root (coll_tag (coll_seq (rank_view c i)) COLL_REDUCE) MPI_COMM_WORLD (rank_view c i) =
        Some (rc, s1)" "reduce_leave all recvbuf cnt type rc s1 = (pc, s)"
    by (auto split: option.splits prod.splits)
  then show ?thesis using enter_moves(3) [OF r(2)] by (intro sent_inv [OF net inv i r(1) coll_tags_other(3,4)]) simp_all
next
  case (OTake recvbuf cnt type op all k)
  show ?thesis
  proof (cases k)
    case 0
    with OTake next_ show ?thesis by (intro begin_inv [OF inv i] enter_moves(3)) simp
  next
    case (Suc k')
    with OTake next_ obtain r s1 where
      m: "recv_match (Net i) MPI_ANY_SOURCE (coll_tag (coll_seq (rank_view c i)) COLL_REDUCE) (rank_view c i) = Some (r, s1)"
      by (auto split: option.splits)
    note got = matched [OF net i inv_rank [OF inv i] m]
    have "neutral pc \<and> seq_moved s1 s"
      using OTake Suc next_ m by (auto simp: Let_def seq_moved_intros dest!: enter_moves(3) seq_moved_mem
        split: sum.splits prod.splits if_splits)
    then show ?thesis by (intro moved_inv_shrink [OF inv i _ _ got(1,2)]) simp_all
  qed
qed

lemma cluster_step_inv:
  assumes net: "datagrams_conserved n Net inbox" and "cluster_step n Net F inbox c c'" and inv: "cluster_inv n inbox c"
  shows "cluster_inv n inbox c'"
  using assms(2)
proof cases
  case (enters i tok comm pc s)
  with enter_inv [OF inv] show ?thesis by simp
next
  case (enters_bcast i buf cnt type root comm pc s)
  with begin_inv [OF inv] enter_moves(1) show ?thesis by blast
next
  case (enters_reduce i sendbuf recvbuf cnt type op root comm all pc s)
  with begin_inv [OF inv enters_reduce(2) enter_moves(2) [OF enters_reduce(4)]] show ?thesis by simp
next
  case (other_advances i p pc s)
  with other_inv [OF net inv] show ?thesis by simp
next
  case (advances i pc s)
  with advance_inv [OF net inv] show ?thesis by simp
next
  case (user_sends i tag buf cnt type dest comm rc s)
  have "coll_seq s = coll_seq (rank_view c i)" using MPI_Send_setup [OF user_sends(6)] by (simp add: same_setup_def)
  then have "begun (rank_view c i) s = 0" by (rule begun_cases)
  with sent_inv [OF net inv user_sends(2,6) barrier_tags(5,6) [OF user_sends(5)] _ seq_moved_intros(1), of "BUser rc"]
  show ?thesis by (simp add: user_sends(1))
next
  case (user_receives i buf cnt type source tag comm status rc st s)
  note got = received [OF net user_receives(2) inv_rank [OF inv user_receives(2)] user_receives(4)]
  from quiet_inv_shrink [OF inv user_receives(2) _ _ got(1,2), of "BUser rc"] show ?thesis by (simp add: user_receives(1))
next
  case (user_computes i rc m)
  have "begun (rank_view c i) ((rank_view c i)\<lparr>mpi_mem := m\<rparr>) = 0" by (simp add: begun_def)
  with begin_inv [OF inv user_computes(2), of "BUser rc" "(rank_view c i)\<lparr>mpi_mem := m\<rparr>"] show ?thesis
    by (simp add: user_computes(1) seq_moved_intros)
next
  case (network_loses w')
  have "sync_inv n (rpcs c) (entered c) (left c) (may_receive inbox c')"
    if "sync_inv n (rpcs c) (entered c) (left c) (may_receive inbox c)" "0 < n"
    using network_loses by (intro sync_shrink [OF that]) (simp add: may_receive_def stock_def decoded_mono)
  with inv network_loses(1) show ?thesis by (simp add: cluster_inv_def cluster_sync_def)
qed

text \<open>At the start no message of a collective is under way.\<close>

lemma initial_untagged:
  assumes "cluster_initial n inbox c" and "i < n" and "m \<in># may_receive inbox c i" and "b < 5"
  shows "h_tag (fst m) \<noteq> coll_tag q b"
proof -
  have "m \<in># decoded (inbox (world c) i)"
    using assms(1-3) by (simp add: cluster_initial_def may_receive_def stock_def content_empty)
  with assms(1,2) have "h_tag (fst m) = TAG_HELLO" unfolding cluster_initial_def by blast
  with coll_tag_above(2) [OF assms(4), of q] show ?thesis by metis
qed

interpretation mpi_cluster: invariant_system "cluster_initial n inbox" "cluster_step n Net F inbox"
    "\<lambda>c. datagrams_conserved n Net inbox \<longrightarrow> cluster_inv n inbox c" for n inbox Net F
proof
  fix c :: "'a cluster"
  assume c: "cluster_initial n inbox c"
  note none = initial_untagged [OF c]
  have "tagged (may_receive inbox c i) (tag_in k) = 0" "tagged (may_receive inbox c i) (tag_out k) = 0" if "i < n" for i k
    using none [OF that, where b = 1 and q = "of_nat k"] none [OF that, where b = 2 and q = "of_nat k"]
    by (auto simp: tagged_def tag_in_def tag_out_def)
  moreover have "taken n (rpcs c 0) = 0" using c by (cases "rpcs c 0") (auto simp: cluster_initial_def)
  moreover have "role n i (entered c) (rpcs c i)" if "i < n" for i
    using c that by (cases "rpcs c i") (auto simp: cluster_initial_def)
  ultimately have "sync_inv n (rpcs c) (entered c) (left c) (may_receive inbox c)"
    using c by (auto simp: cluster_initial_def sync_inv_def token_inv_def release_inv_def)
  with c show "datagrams_conserved n Net inbox \<longrightarrow> cluster_inv n inbox c"
    by (simp add: cluster_inv_def cluster_sync_def cluster_initial_def rank_ok_def empty_queue_wf)
qed (use cluster_step_inv in blast)

section \<open>Properties\<close>

text \<open>
  C7. A barrier synchronises. Up to sixteen ranks run any interleaving of barriers, broadcasts, reductions,
  all-reduces, sends with application tags, receives and computation over a network that may lose, delay and
  reorder datagrams. When rank \<open>i\<close> has left a barrier with success, and that was the \<open>k\<close>-th collective it
  began, every rank has begun its \<open>k\<close>-th collective: tokens and releases of different collectives are never
  taken for one another, until the sequence number wraps after \<open>2 ^ 24\<close> collectives.
\<close>

theorem barrier_synchronises:
  assumes "datagrams_conserved n Net inbox"
    and "reachable (cluster_initial n inbox) (cluster_step n Net F inbox) c"
    and "\<forall>r<n. entered c r < 2 ^ 24" and "i < n" and "j < n"
  shows "left c i \<le> entered c j"
proof -
  have "cluster_inv n inbox c" using mpi_cluster.reachable_inv [OF assms(2)] assms(1) by blast
  with assms(3-5) show ?thesis by (simp add: cluster_inv_def cluster_sync_def sync_inv_def)
qed

text \<open>
  A network of mailboxes, and two ranks: rank 1 sends its token; rank 0 receives it, releases rank 1
  and leaves the barrier.
\<close>

definition post_net :: "nat \<Rightarrow> (nat \<Rightarrow> u8 list list) net" where
  "post_net i =
     \<lparr>net_sendto = (\<lambda>sock to fr w. (0, \<lambda>j. if to = addr_for_rank (of_nat j) then w j @ [fr] else w j)),
      net_recvfrom = (\<lambda>sock w. case w i of [] \<Rightarrow> None | d # ds \<Rightarrow> Some (Datagram d, w(i := ds)))\<rparr>"

definition post_box :: "(nat \<Rightarrow> u8 list list) \<Rightarrow> nat \<Rightarrow> u8 list multiset" where
  "post_box w j = mset (w j)"

definition duo :: "(nat \<Rightarrow> u8 list list) cluster" where
  "duo = \<lparr>ranks = (\<lambda>i. rank_state (of_nat i) 2 (\<lambda>_. 0) (\<lambda>_. [])), rpcs = (\<lambda>_. BUser 0), world = (\<lambda>_. []),
          entered = (\<lambda>_. 0), left = (\<lambda>_. 0), given = (\<lambda>_ _. []), folded = (\<lambda>_ _. []), args = (\<lambda>_ _. (0, \<lambda>_. 0)),
          results = (\<lambda>_ _. None), cast = (\<lambda>_ _. None), delivered = (\<lambda>_ _. None)\<rparr>"

lemma post_net_conserves: "datagrams_conserved 2 post_net post_box"
proof -
  have "addr_for_rank 0 \<noteq> addr_for_rank 1" by (simp add: addr_for_rank_def htons_def)
  then show ?thesis
    by (auto simp: datagrams_conserved_def post_net_def post_box_def less_2_cases_iff split: list.splits if_splits)
qed

lemma duo_initial: "cluster_initial 2 post_box duo"
  by (simp add: cluster_initial_def duo_def post_box_def)

text \<open>What one rank does alone, the cluster can do.\<close>

lemma rank_runs:
  assumes "(barrier_calls (Net i))\<^sup>*\<^sup>* (rpcs c i, rank_view c i) (pc, s)" and "i < n"
  shows "\<exists>c'. (cluster_step n Net F inbox)\<^sup>*\<^sup>* c c' \<and> rpcs c' i = pc \<and> entered c' = entered c \<and>
    (\<not> in_user (rpcs c i) \<longrightarrow> pc = BUser MPI_SUCCESS \<longrightarrow> left c' i = entered c i)"
proof -
  have "\<exists>c'. (cluster_step n Net F inbox)\<^sup>*\<^sup>* c c' \<and> rpcs c' i = fst y \<and> rank_view c' i = snd y \<and> entered c' = entered c \<and>
      (\<not> in_user (rpcs c i) \<longrightarrow> fst y = BUser MPI_SUCCESS \<longrightarrow> left c' i = entered c i)"
    if "(barrier_calls (Net i))\<^sup>*\<^sup>* (rpcs c i, rank_view c i) y" for y
    using that
  proof (induction rule: rtranclp_induct)
    case base
    then show ?case by (intro exI [of _ c]) auto
  next
    case (step y z)
    then obtain c' where c': "(cluster_step n Net F inbox)\<^sup>*\<^sup>* c c'" "rpcs c' i = fst y" "rank_view c' i = snd y"
      "entered c' = entered c" by blast
    obtain pc s where z: "z = (pc, s)" by (cases z)
    let ?c = "(rank_put i pc s c')\<lparr>left := (left c')(i := if pc = BUser MPI_SUCCESS then entered c' i else left c' i)\<rparr>"
    have "cluster_step n Net F inbox c' ?c"
      using step.hyps(2) c' z assms(2) by (intro advances) (simp_all add: barrier_calls_def)
    with c' z show ?case
      by (intro exI [of _ ?c]) (auto simp: rank_view_def rank_put_def)
  qed
  from this [OF assms(1)] show ?thesis by auto
qed

definition demo_token :: message where
  "demo_token = (\<lparr>h_src = 1, h_tag = coll_tag 1 COLL_BARRIER_IN, h_count = 1, h_type = MPI_BYTE\<rparr>, [0])"

lemma duo_token:
  "\<exists>c. (cluster_step 2 post_net no_fpu post_box)\<^sup>*\<^sup>* duo c \<and> ranks c 0 = rank_state 0 2 (\<lambda>_. 0) (\<lambda>_. []) \<and>
     rpcs c 0 = BUser 0 \<and> world c 0 = [encode demo_token] \<and> entered c = (\<lambda>_. 0)(1 := 1)"
proof -
  let ?s = "(rank_view duo 1)\<lparr>coll_seq := 1, mpi_mem := (\<lambda>_. 0)(64 := 0)\<rparr>"
  let ?c = "(rank_put 1 (BToken 64) ?s duo)\<lparr>entered := (\<lambda>_. 0)(1 := 1)\<rparr>"
  have "barrier_enter 64 MPI_COMM_WORLD (rank_view duo 1) = (BToken 64, ?s)"
    by (simp add: barrier_enter_def rank_view_def duo_def)
  from enters [where F = no_fpu and Net = post_net and inbox = post_box and n = 2, OF _ _ this] have "cluster_step 2 post_net no_fpu post_box duo ?c"
    by (simp add: duo_def begun_def)
  moreover let ?t = "coll_tag (coll_seq ?s) COLL_BARRIER_IN"
  let ?s2 = "?s\<lparr>mpi_world := snd (net_sendto (post_net 1) 3 (addr_for_rank 0) (encode demo_token) (\<lambda>_. []))\<rparr>"
  have "send_valid ?s 1 MPI_BYTE 0 ?t"
    using coll_tag_nonneg [of 1 1] by (simp add: send_valid_def type_size_def rank_view_def duo_def)
  from MPI_Send_valid(1) [OF this, of "post_net 1" 64]
  have "MPI_Send (post_net 1) 64 1 MPI_BYTE 0 ?t MPI_COMM_WORLD ?s = Some (MPI_SUCCESS, ?s2)"
    by (simp add: message_of_def type_size_def rank_view_def duo_def demo_token_def post_net_def)
  then have "barrier_next (post_net 1) (rpcs ?c 1) (rank_view ?c 1) = Some (BAwait 64, ?s2)"
    by simp
  from advances [where Net = post_net and i = 1 and n = 2 and inbox = post_box and F = no_fpu, OF _ this] have
    "cluster_step 2 post_net no_fpu post_box ?c ((rank_put 1 (BAwait 64) ?s2 ?c)\<lparr>left := (left ?c)(1 := left ?c 1)\<rparr>)" by simp
  ultimately show ?thesis
    by (intro exI [of _ "(rank_put 1 (BAwait 64) ?s2 ?c)\<lparr>left := (left ?c)(1 := left ?c 1)\<rparr>"] conjI,
        meson r_into_rtranclp rtranclp.rtrancl_into_rtrancl)
      (simp_all add: rank_put_def duo_def post_net_def)
qed

lemma duo_barrier:
  "\<exists>c. (cluster_step 2 post_net no_fpu post_box)\<^sup>*\<^sup>* duo c \<and> entered c = (\<lambda>_. 0)(1 := 1, 0 := 1) \<and> left c 0 = 1"
proof -
  from duo_token obtain c where c: "(cluster_step 2 post_net no_fpu post_box)\<^sup>*\<^sup>* duo c" "ranks c 0 = rank_state 0 2 (\<lambda>_. 0) (\<lambda>_. [])"
     "rpcs c 0 = BUser 0" "world c 0 = [encode demo_token]" "entered c = (\<lambda>_. 0)(1 := 1)" by blast
  let ?s = "(rank_view c 0)\<lparr>coll_seq := 1, mpi_mem := (\<lambda>_. 0)(64 := 0)\<rparr>"
  let ?c = "(rank_put 0 (BRecv 64 1) ?s c)\<lparr>entered := (entered c)(0 := 1)\<rparr>"
  have "barrier_enter 64 MPI_COMM_WORLD (rank_view c 0) = (BRecv 64 1, ?s)"
    using c(2) by (simp add: barrier_enter_def rank_view_def)
  from enters [where F = no_fpu and Net = post_net and inbox = post_box and n = 2, OF _ _ this] have step: "cluster_step 2 post_net no_fpu post_box c ?c"
    using c(2,3,5) by (simp add: begun_def)
  have "filter (msg_wanted (MPI_ANY_SOURCE, coll_tag 1 COLL_BARRIER_IN)) (content (mpi_pending ?s) @ [demo_token]) = [demo_token]"
    using c(2) by (simp add: rank_view_def content_empty msg_wanted_def matches_def demo_token_def)
  from recv_tokens_all [OF _ _ _ _ _ this, of "post_net 0" "(world c)(0 := [])" 1 64] c(2,4) obtain s1 where
    r: "recv_tokens (post_net 0) 64 (coll_tag 1 COLL_BARRIER_IN) MPI_COMM_WORLD 1 ?s = Some (MPI_SUCCESS, s1)" and
    s1: "mpi_ready s1 = 1" "mpi_size s1 = 2"
    by (auto simp: rank_view_def content_empty empty_queue_wf msg_fits_def demo_token_def post_net_def)
  have "\<forall>k\<in>set (ranks_from 1 2). send_valid s1 1 MPI_BYTE k (coll_tag 1 COLL_BARRIER_OUT)"
    using s1 coll_tag_nonneg [of 2 1] by (auto simp: send_valid_def type_size_def dest!: ranks_from_bounds)
  from send_to_ranks_all [OF this, of "post_net 0" 64] obtain s2 where
    "send_to_ranks (post_net 0) 64 1 MPI_BYTE (coll_tag 1 COLL_BARRIER_OUT) MPI_COMM_WORLD (ranks_from 1 2) s1 =
       Some (MPI_SUCCESS, s2)" by (auto simp: post_net_def)
  with r s1 have "(barrier_calls (post_net 0))\<^sup>*\<^sup>* (rpcs ?c 0, rank_view ?c 0) (BUser MPI_SUCCESS, s2)"
    by (simp add: recv_tokens_calls del: recv_tokens.simps)
  from rank_runs [where Net = post_net and i = 0 and n = 2 and inbox = post_box and F = no_fpu, OF this] obtain c' where
    "(cluster_step 2 post_net no_fpu post_box)\<^sup>*\<^sup>* ?c c'" "entered c' = entered ?c" "left c' 0 = entered ?c 0" by auto
  with c(1,5) step show ?thesis by (intro exI [of _ c']) (auto intro: rtranclp_trans converse_rtranclp_into_rtranclp)
qed

theorem barrier_synchronises_witness:
  "\<exists>c. reachable (cluster_initial 2 post_box) (cluster_step 2 post_net no_fpu post_box) c \<and>
     left c 0 = 1 \<and> left c 0 \<le> entered c 1"
proof -
  from duo_barrier obtain c where
    c: "(cluster_step 2 post_net no_fpu post_box)\<^sup>*\<^sup>* duo c" "entered c = (\<lambda>_. 0)(1 := 1, 0 := 1)" "left c 0 = 1" by blast
  have r: "reachable (cluster_initial 2 post_box) (cluster_step 2 post_net no_fpu post_box) c"
    using c(1) by (rule reachable_steps [rotated]) (rule reach_init, rule duo_initial)
  from barrier_synchronises [OF post_net_conserves r, of 0 1] c(2) have "left c 0 \<le> entered c 1" by simp
  with r c(3) show ?thesis by blast
qed

end
