(* ===== verification/Neo_Mpi_Fold.thy ===== *)
theory Neo_Mpi_Fold
  imports Neo_Mpi_Sync
begin

text \<open>
  What a reduction combines, in a whole MPI program (\<open>MPI_Reduce\<close> and \<open>MPI_Allreduce\<close> of
  \<open>src/mpi.c\<close>, the model of \<open>Neo_Mpi_World\<close>). The root accepts contributions in the order of
  their arrival and from anyone; that it still combines one contribution of every other rank, and the one
  made in the same collective, rests on the numbered tags and on the conservation of messages.
\<close>

section \<open>The invariant\<close>

definition tag_red :: "nat \<Rightarrow> i32" where
  "tag_red k = coll_tag (of_nat k) COLL_REDUCE"

text \<open>The root's memory after the contributions \<open>ms\<close>, in this order.\<close>

definition combined :: "fpu \<Rightarrow> addr \<Rightarrow> i32 \<Rightarrow> i32 \<Rightarrow> i32 \<Rightarrow> message list \<Rightarrow> mem \<Rightarrow> mem" where
  "combined F recvbuf cnt type op ms = fold (\<lambda>x m. snd (reduce_apply F recvbuf (snd x) cnt type op m)) ms"

text \<open>The root's memory before it takes any: the send buffer of the call copied to the receive buffer.\<close>

definition seeded :: "addr \<Rightarrow> i32 \<Rightarrow> i32 \<Rightarrow> addr \<times> mem \<Rightarrow> mem" where
  "seeded recvbuf cnt type a = snd (memcpy recvbuf (fst a) (sext (cnt * type_size type)) (snd a))"

text \<open>A contribution is the send buffer of the call its sender made.\<close>

definition honest :: "addr \<times> mem \<Rightarrow> message \<Rightarrow> bool" where
  "honest a x \<longleftrightarrow> snd x = payload (snd a) (fst a) (h_count (fst x)) (h_type (fst x))"

definition right_size :: "i32 \<Rightarrow> i32 \<Rightarrow> message list \<Rightarrow> bool" where
  "right_size cnt type ms \<longleftrightarrow> (\<forall>x\<in>set ms. of_nat (length (snd x)) = cnt * type_size type)"

text \<open>
  Rank \<open>i\<close> at \<open>pc\<close> in its \<open>e\<close>-th collective, with memory \<open>m\<close>, contributions \<open>G\<close> sent, \<open>D\<close> taken,
  send buffers and memories \<open>Z\<close> of the calls and results \<open>R\<close>.
\<close>

fun folding :: "nat \<Rightarrow> fpu \<Rightarrow> nat \<Rightarrow> bpc \<Rightarrow> mem \<Rightarrow> message list \<Rightarrow> message list \<Rightarrow> addr \<times> mem \<Rightarrow> bool \<Rightarrow> bool" where
  "folding n F i (BOther (OGive sendbuf recvbuf cnt type root all)) m g d z r \<longleftrightarrow>
     root \<noteq> of_nat i \<and> g = [] \<and> (sendbuf, m) = z"
| "folding n F i (BOther (OTake recvbuf cnt type op all k)) m g d z r \<longleftrightarrow>
     \<not> r \<and> length d + k = n - 1 \<and> right_size cnt type d \<and> m = combined F recvbuf cnt type op d (seeded recvbuf cnt type z)"
| "folding n F i pc m g d z r \<longleftrightarrow> True"

definition fold_rank :: "nat \<Rightarrow> fpu \<Rightarrow> nat \<Rightarrow> bpc \<Rightarrow> nat \<Rightarrow> mem \<Rightarrow> (nat \<Rightarrow> message list) \<Rightarrow> (nat \<Rightarrow> message list) \<Rightarrow>
    (nat \<Rightarrow> addr \<times> mem) \<Rightarrow> (nat \<Rightarrow> (addr \<times> i32 \<times> i32 \<times> i32 \<times> bool \<times> mem) option) \<Rightarrow> bool" where
  "fold_rank n F i pc e m G D Z R \<longleftrightarrow>
     (\<forall>k. length (G k) \<le> 1) \<and> (\<forall>k>e. G k = [] \<and> D k = [] \<and> R k = None) \<and>
     folding n F i pc m (G e) (D e) (Z e) (R e \<noteq> None) \<and> (\<forall>k. \<forall>x\<in>set (G k). honest (Z k) x) \<and>
     (\<forall>k recvbuf cnt type op all m. R k = Some (recvbuf, cnt, type, op, all, m) \<longrightarrow>
        length (D k) = n - 1 \<and> right_size cnt type (D k) \<and> m = combined F recvbuf cnt type op (D k) (seeded recvbuf cnt type (Z k)))"

text \<open>What may still arrive and what was taken is part of what the others sent.\<close>

definition flow :: "nat \<Rightarrow> (nat \<Rightarrow> message multiset) \<Rightarrow> (nat \<Rightarrow> nat \<Rightarrow> message list) \<Rightarrow> (nat \<Rightarrow> nat \<Rightarrow> message list) \<Rightarrow> bool" where
  "flow n S G D \<longleftrightarrow> (\<forall>d<n. \<forall>k<2 ^ 24. filter_mset (\<lambda>m. h_tag (fst m) = tag_red k) (S d) + mset (D d k) \<subseteq>#
     (\<Sum>r\<in>{..<n} - {d}. mset (G r k)))"

definition fold_inv :: "nat \<Rightarrow> fpu \<Rightarrow> ('w \<Rightarrow> nat \<Rightarrow> u8 list multiset) \<Rightarrow> 'w cluster \<Rightarrow> bool" where
  "fold_inv n F inbox c \<longleftrightarrow>
     (\<forall>i<n. fold_rank n F i (rpcs c i) (entered c i) (mpi_mem (ranks c i)) (given c i) (folded c i) (args c i) (results c i)) \<and>
     ((\<forall>i<n. entered c i < 2 ^ 24) \<longrightarrow> flow n (may_receive inbox c) (given c) (folded c))"

lemma red_tags:
  "k < 2 ^ 24 \<Longrightarrow> l < 2 ^ 24 \<Longrightarrow> tag_red k = tag_red l \<longleftrightarrow> k = l"
  "tag_in l \<noteq> tag_red k" "tag_out l \<noteq> tag_red k" "coll_tag q COLL_BCAST \<noteq> tag_red k"
  "sint t \<le> MPI_TAG_UB \<Longrightarrow> t \<noteq> tag_red k"
  using coll_tag_inject [of 4 4 "of_nat k" "of_nat l"] coll_tag_inject [of 1 4 "of_nat l" "of_nat k"]
    coll_tag_inject [of 2 4 "of_nat l" "of_nat k"] coll_tag_inject [of 3 4 q "of_nat k"]
    coll_tag_above(1) [of 4 "of_nat k"] take_bit_of_nat_inject [of k l]
  by (auto simp: tag_red_def tag_in_def tag_out_def)

section \<open>Flow\<close>

lemma flow_shrink:
  assumes "flow n S G D" and "\<And>j. j < n \<Longrightarrow> S' j \<subseteq># S j + (if Q j then {#m#} else {#})"
    and "\<And>k. h_tag (fst m) \<noteq> tag_red k"
  shows "flow n S' G D"
  unfolding flow_def
proof (intro allI impI)
  fix d k :: nat assume d: "d < n" "k < 2 ^ 24"
  let ?f = "filter_mset (\<lambda>m. h_tag (fst m) = tag_red k)"
  have "?f (S' d) \<subseteq># ?f (S d)"
    using multiset_filter_mono [OF assms(2) [OF d(1)], of "\<lambda>m. h_tag (fst m) = tag_red k"] assms(3) by (simp split: if_splits)
  with assms(1) d show "?f (S' d) + mset (D d k) \<subseteq># (\<Sum>r\<in>{..<n} - {d}. mset (G r k))"
    unfolding flow_def by (meson subset_mset.add_right_mono subset_mset.order_trans)
qed

lemma flow_give:
  assumes "flow n S G D" and "i < n" and "\<And>j. j < n \<Longrightarrow> S' j \<subseteq># S j + (if Q j then {#m#} else {#})"
    and "\<not> Q i" and "h_tag (fst m) = tag_red e" and "e < 2 ^ 24"
  shows "flow n S' (G(i := (G i)(e := G i e @ [m]))) D"
  unfolding flow_def
proof (intro allI impI)
  fix d k :: nat assume d: "d < n" "k < 2 ^ 24"
  let ?f = "filter_mset (\<lambda>m. h_tag (fst m) = tag_red k)" and ?G = "G(i := (G i)(e := G i e @ [m]))"
  let ?x = "if d \<noteq> i \<and> k = e then {#m#} else {#}"
  have t: "h_tag (fst m) = tag_red k \<longleftrightarrow> k = e" using assms(5,6) d(2) red_tags(1) [of e k] by auto
  have "?f (S' d) \<subseteq># ?f (S d) + ?f (if Q d then {#m#} else {#})"
    using multiset_filter_mono [OF assms(3) [OF d(1)], of "\<lambda>m. h_tag (fst m) = tag_red k"] by simp
  moreover have "?f (if Q d then {#m#} else {#}) \<subseteq># ?x" using t assms(4) by (cases m) auto
  ultimately have "?f (S' d) \<subseteq># ?f (S d) + ?x" by (meson subset_mset.add_left_mono subset_mset.order_trans)
  then have "?f (S' d) + mset (D d k) \<subseteq># (?f (S d) + mset (D d k)) + ?x"
    using subset_mset.add_right_mono [of "?f (S' d)" "?f (S d) + ?x" "mset (D d k)"] by (simp only: ac_simps)
  moreover have "?f (S d) + mset (D d k) \<subseteq># (\<Sum>r\<in>{..<n} - {d}. mset (G r k))" using assms(1) d by (simp add: flow_def)
  moreover have "(\<Sum>r\<in>{..<n} - {d}. mset (?G r k)) = (\<Sum>r\<in>{..<n} - {d}. mset (G r k)) + ?x"
  proof (cases "d \<noteq> i \<and> k = e")
    case True
    have A: "{..<n} - {d} = insert i ({..<n} - {d, i})" using True assms(2) by auto
    show ?thesis using True unfolding A by simp
  next
    case False
    have "(\<Sum>r\<in>{..<n} - {d}. mset (?G r k)) = (\<Sum>r\<in>{..<n} - {d}. mset (G r k))" using False by (intro sum.cong) auto
    moreover have "?x = {#}" using False by (rule if_not_P)
    ultimately show ?thesis by (simp only: add_0_right)
  qed
  ultimately show "?f (S' d) + mset (D d k) \<subseteq># (\<Sum>r\<in>{..<n} - {d}. mset (?G r k))"
    using subset_mset.add_right_mono [of "?f (S d) + mset (D d k)" _ ?x] by (simp only: subset_mset.order_trans)
qed

lemma flow_take:
  assumes "flow n S G D" and "\<And>j. j < n \<Longrightarrow> S' j \<subseteq># S j" and "S' i + {#m#} \<subseteq># S i"
    and "h_tag (fst m) = tag_red e" and "e < 2 ^ 24"
  shows "flow n S' G (D(i := (D i)(e := D i e @ [m])))"
  unfolding flow_def
proof (intro allI impI)
  fix d k :: nat assume d: "d < n" "k < 2 ^ 24"
  let ?f = "filter_mset (\<lambda>m. h_tag (fst m) = tag_red k)" and ?D = "D(i := (D i)(e := D i e @ [m]))"
  have "?f (S' d) + mset (?D d k) \<subseteq># ?f (S d) + mset (D d k)"
  proof (cases "d = i \<and> k = e")
    case True
    have "?f (S' i) + {#m#} \<subseteq># ?f (S i)"
      using multiset_filter_mono [OF assms(3), of "\<lambda>m. h_tag (fst m) = tag_red k"] True assms(4) by simp
    with True show ?thesis by (simp add: subset_mset.add_right_mono)
  qed (use multiset_filter_mono [OF assms(2) [OF d(1)]] in \<open>auto simp: subset_mset.add_right_mono\<close>)
  moreover have "?f (S d) + mset (D d k) \<subseteq># (\<Sum>r\<in>{..<n} - {d}. mset (G r k))" using assms(1) d by (simp add: flow_def)
  ultimately show "?f (S' d) + mset (?D d k) \<subseteq># (\<Sum>r\<in>{..<n} - {d}. mset (G r k))" by (rule subset_mset.order_trans)
qed

section \<open>Steps\<close>

lemma fold_step:
  assumes inv: "fold_inv n F inbox c" and i: "i < n" and e: "entered c i \<le> e"
    and rank: "fold_rank n F i pc e (mpi_mem s) G D Z R"
    and flow: "\<forall>j<n. ((entered c)(i := e)) j < 2 ^ 24 \<Longrightarrow> flow n (may_receive inbox c) (given c) (folded c) \<Longrightarrow>
      flow n (may_receive inbox c') ((given c)(i := G)) ((folded c)(i := D))"
    and c': "ranks c' = (ranks c)(i := s)" "rpcs c' = (rpcs c)(i := pc)" "entered c' = (entered c)(i := e)"
      "given c' = (given c)(i := G)" "folded c' = (folded c)(i := D)" "args c' = (args c)(i := Z)" "results c' = (results c)(i := R)"
  shows "fold_inv n F inbox c'"
  unfolding fold_inv_def
proof (intro conjI impI allI)
  fix j assume "j < n"
  with inv rank show "fold_rank n F j (rpcs c' j) (entered c' j) (mpi_mem (ranks c' j)) (given c' j) (folded c' j) (args c' j) (results c' j)"
    by (cases "j = i") (simp_all add: c' fold_inv_def)
next
  assume small: "\<forall>j<n. entered c' j < 2 ^ 24"
  have "\<forall>j<n. entered c j < 2 ^ 24"
    using small e unfolding c'(3) by (metis fun_upd_apply le_less_trans)
  with inv small show "flow n (may_receive inbox c') (given c') (folded c')"
    unfolding c' by (intro flow) (simp_all add: fold_inv_def)
qed

text \<open>Program positions outside the reductions.\<close>

fun calm :: "bpc \<Rightarrow> bool" where
  "calm (BOther (OGive sendbuf recvbuf cnt type root all)) \<longleftrightarrow> False"
| "calm (BOther (OTake recvbuf cnt type op all k)) \<longleftrightarrow> False"
| "calm pc \<longleftrightarrow> True"

lemma calm_folding: "calm pc \<Longrightarrow> folding n F i pc m g d z r"
  by (cases pc rule: calm.cases) simp_all

lemma fold_rankD: "fold_inv n F inbox c \<Longrightarrow> i < n \<Longrightarrow>
    fold_rank n F i (rpcs c i) (entered c i) (mpi_mem (ranks c i)) (given c i) (folded c i) (args c i) (results c i)"
  by (simp add: fold_inv_def)

lemma fold_rank_calm:
  "fold_rank n F i pc0 e0 m0 G D Z R \<Longrightarrow> calm pc \<Longrightarrow> e0 \<le> e \<Longrightarrow> fold_rank n F i pc e m G D Z R"
  by (auto simp: fold_rank_def calm_folding)

lemma fold_quiet:
  assumes "fold_inv n F inbox c" and "i < n" and "calm pc" and "entered c i \<le> e" and "\<And>k. h_tag (fst m) \<noteq> tag_red k"
    and "\<And>j. j < n \<Longrightarrow> may_receive inbox (rank_put i pc s c) j \<subseteq># may_receive inbox c j + (if Q j then {#m#} else {#})"
  shows "fold_inv n F inbox ((rank_put i pc s c)\<lparr>entered := (entered c)(i := e)\<rparr>)"
proof (rule fold_step [OF assms(1,2,4)])
  show "fold_rank n F i pc e (mpi_mem s) (given c i) (folded c i) (args c i) (results c i)"
    by (rule fold_rank_calm [OF fold_rankD [OF assms(1,2)] assms(3,4)])
  assume "flow n (may_receive inbox c) (given c) (folded c)"
  from flow_shrink [OF this assms(6,5)]
  show "flow n (may_receive inbox ((rank_put i pc s c)\<lparr>entered := (entered c)(i := e)\<rparr>))
     ((given c)(i := given c i)) ((folded c)(i := folded c i))" by simp
qed (simp_all add: rank_put_def)

lemma fold_quiet_shrink:
  assumes "fold_inv n F inbox c" and "i < n" and "calm pc" and "entered c i \<le> e"
    and "\<And>j. j < n \<Longrightarrow> may_receive inbox (rank_put i pc s c) j \<subseteq># may_receive inbox c j"
  shows "fold_inv n F inbox ((rank_put i pc s c)\<lparr>entered := (entered c)(i := e)\<rparr>)"
  by (rule fold_quiet [OF assms(1-4), of "(\<lparr>h_src = 0, h_tag = 0, h_count = 0, h_type = 0\<rparr>, [])" s "\<lambda>_. False"])
    (use assms(5) red_tags(5) [of 0] in simp_all)

lemma fold_history [simp]:
  "fold_inv n F inbox (c\<lparr>left := l\<rparr>) = fold_inv n F inbox c"
  by (simp add: fold_inv_def)

lemma enter_calm:
  "barrier_enter tok comm s = (pc, s') \<Longrightarrow> calm pc" "bcast_enter buf cnt type root comm s = (pc, s') \<Longrightarrow> calm pc"
  "reduce_leave all recvbuf cnt type rc s = (pc, s') \<Longrightarrow> calm pc"
  by (auto simp: barrier_enter_def bcast_enter_def reduce_leave_def split: if_splits)

text \<open>The calls of a barrier send nothing another collective could take, and lead to no other collective.\<close>

lemma barrier_call_effect:
  assumes net: "datagrams_conserved n Net inbox" and inv: "cluster_inv n inbox c" and i: "i < n"
    and step: "barrier_next (Net i) (rpcs c i) (rank_view c i) = Some (pc, s)"
  obtains m Q k where "\<forall>p. pc \<noteq> BOther p" "h_tag (fst m) = tag_in k \<or> h_tag (fst m) = tag_out k"
    "\<And>j. j < n \<Longrightarrow> may_receive inbox (rank_put i pc s c) j \<subseteq># may_receive inbox c j + (if Q j then {#m#} else {#})"
proof -
  note res = that
  note ok = inv_rank [OF inv i]
  have "n \<le> 16" using inv by (simp add: cluster_inv_def)
  note sent = sent [OF net i ok this]
  note got = received(2) [OF net i ok]
  have none: thesis if "\<forall>p. pc \<noteq> BOther p" "\<And>j. j < n \<Longrightarrow> may_receive inbox (rank_put i pc s c) j \<subseteq># may_receive inbox c j"
    by (rule res [of "(\<lparr>h_src = 0, h_tag = tag_in 0, h_count = 0, h_type = 0\<rparr>, [])" 0 "\<lambda>_. False"]) (use that in simp_all)
  have send: thesis if "MPI_Send (Net i) buf cnt type dest tag comm (rank_view c i) = Some (rc, s)" "\<forall>p. pc \<noteq> BOther p"
    "tag = tag_in (entered c i) \<or> tag = tag_out (entered c i)" for buf cnt type dest tag comm rc
  proof -
    from sent [OF that(1)] obtain m where m: "h_tag (fst m) = tag"
      "\<And>j pc. j < n \<Longrightarrow> may_receive inbox (rank_put i pc s c) j \<subseteq>#
         may_receive inbox c j + (if dest = of_nat j then {#m#} else {#})" by blast
    show thesis by (rule res [OF that(2) _ m(2)]) (use m(1) that(3) in blast)
  qed
  show thesis
  proof (cases "(Net i, rpcs c i, rank_view c i)" rule: barrier_next.cases)
    case (2 N tok k s0)
    with step none got show thesis by (auto split: option.splits prod.splits if_splits)
  next
    case (4 N tok r rs s0)
    with step obtain rc where
      "MPI_Send (Net i) tok 1 MPI_BYTE r (coll_tag (coll_seq (rank_view c i)) COLL_BARRIER_OUT) MPI_COMM_WORLD (rank_view c i) = Some (rc, s)"
      "\<forall>p. pc \<noteq> BOther p" by (auto split: option.splits prod.splits)
    from send [OF this] at_barrier_tags(2) [OF ok] show thesis by simp
  next
    case (5 N tok s0)
    with step obtain rc where
      "MPI_Send (Net i) tok 1 MPI_BYTE 0 (coll_tag (coll_seq (rank_view c i)) COLL_BARRIER_IN) MPI_COMM_WORLD (rank_view c i) = Some (rc, s)"
      "\<forall>p. pc \<noteq> BOther p" by (auto split: option.splits prod.splits)
    from send [OF this] at_barrier_tags(1) [OF ok] show thesis by simp
  next
    case (6 N tok s0)
    with step none got show thesis by (auto split: option.splits prod.splits if_splits)
  qed (use step none in auto)
qed

lemma fold_rank_called:
  "fold_rank n F i pc0 e m0 G D Z R \<Longrightarrow> calm pc \<Longrightarrow> fold_rank n F i pc e m G D (Z(Suc e := z)) R"
  by (auto simp: fold_rank_def calm_folding)

lemma fold_rank_begin:
  "fold_rank n F i pc0 e m0 G D Z R \<Longrightarrow> folding n F i pc m [] [] z False \<Longrightarrow>
     fold_rank n F i pc (Suc e) m G D (Z(Suc e := z)) R"
  by (auto simp: fold_rank_def)

lemma fold_enters:
  assumes inv: "cluster_inv n inbox c" and fold: "fold_inv n F inbox c" and i: "i < n"
    and enter: "reduce_enter sendbuf recvbuf cnt type op root comm all (rank_view c i) = (pc, s)"
  shows "fold_inv n F inbox ((rank_put i pc s c)\<lparr>entered := (entered c)(i := entered c i + begun (rank_view c i) s),
    args := (args c)(i := (args c i)(Suc (entered c i) := (sendbuf, mpi_mem (rank_view c i))))\<rparr>)"
proof (rule fold_step [OF fold i])
  note ok = inv_rank [OF inv i]
  have n: "0 < n" "n \<le> 16" using inv by (simp_all add: cluster_inv_def)
  then have "nat (sint (of_nat n :: i32)) = n" by (subst sint_of_nat_small) simp_all
  with enter ok have "calm pc \<and> s = rank_view c i \<or> coll_seq s \<noteq> coll_seq (rank_view c i) \<and> folding n F i pc (mpi_mem s) [] []
      (sendbuf, mpi_mem (rank_view c i)) False"
    by (auto simp: reduce_enter_def rank_ok_def combined_def right_size_def seeded_def split: if_splits)
  then show "fold_rank n F i pc (entered c i + begun (rank_view c i) s) (mpi_mem s) (given c i) (folded c i)
      ((args c i)(Suc (entered c i) := (sendbuf, mpi_mem (rank_view c i)))) (results c i)"
    using fold_rank_called [OF fold_rankD [OF fold i]] fold_rank_begin [OF fold_rankD [OF fold i]] by (auto simp: begun_def)
  have "may_receive inbox (rank_put i pc s c) = may_receive inbox c"
    using moved_ok(3) [OF conjunct2 [OF enter_moves(2) [OF enter]]] ok by (metis may_receive_view rank_view_simps(6))
  then show "flow n (may_receive inbox ((rank_put i pc s c)\<lparr>entered := (entered c)(i := entered c i + begun (rank_view c i) s),
      args := (args c)(i := (args c i)(Suc (entered c i) := (sendbuf, mpi_mem (rank_view c i))))\<rparr>)) ((given c)(i := given c i)) ((folded c)(i := folded c i))"
    if "flow n (may_receive inbox c) (given c) (folded c)" using that by simp
qed (simp_all add: rank_put_def)

lemma fold_noted_none [simp]:
  assumes "gives p s = []" and "takes N p s = []" and "\<And>r. result_at p s r = r"
  shows "fold_inv n F inbox (noted N i e p s c) = fold_inv n F inbox c"
proof -
  have "given (noted N i e p s c) = given c" "folded (noted N i e p s c) = folded c" "results (noted N i e p s c) = results c"
    using assms by (simp_all add: noted_def)
  then show ?thesis by (simp add: fold_inv_def)
qed

lemma fold_gives:
  assumes net: "datagrams_conserved n Net inbox" and inv: "cluster_inv n inbox c" and fold: "fold_inv n F inbox c" and i: "i < n"
    and pc0: "rpcs c i = BOther p" "p = OGive sendbuf recvbuf cnt type root all"
    and step: "coll_next (Net i) F p (rank_view c i) = Some (pc, s)"
  shows "fold_inv n F inbox (noted (Net i) i (entered c i) p (rank_view c i)
    ((rank_put i pc s c)\<lparr>entered := (entered c)(i := entered c i + begun (rank_view c i) s)\<rparr>))"
proof -
  let ?e = "entered c i" and ?tag = "coll_tag (coll_seq (rank_view c i)) COLL_REDUCE"
  note ok = inv_rank [OF inv i]
  have n: "n \<le> 16" using inv by (simp add: cluster_inv_def)
  have tag: "?tag = tag_red ?e" using ok by (simp add: rank_ok_def tag_red_def)
  let ?m = "frame_of (rank_view c i) sendbuf cnt type ?tag"
  from step pc0 obtain rc s1 where
    send: "MPI_Send (Net i) sendbuf cnt type root ?tag MPI_COMM_WORLD (rank_view c i) = Some (rc, s1)" and
    leave: "reduce_leave all recvbuf cnt type rc s1 = (pc, s)" by (auto split: option.splits prod.splits)
  from sent [OF net i ok n send] have s1: "rank_ok n i ?e s1" "\<And>j pc. j < n \<Longrightarrow> may_receive inbox (rank_put i pc s1 c) j \<subseteq>#
       may_receive inbox c j + (if root = of_nat j then {#?m#} else {#})" by blast+
  note same = moved_ok(3) [OF conjunct2 [OF enter_moves(3) [OF leave]] s1(1)]
  have r: "root \<noteq> of_nat i" "given c i ?e = []" "(sendbuf, mpi_mem (ranks c i)) = args c i ?e"
    using fold_rankD [OF fold i] pc0 by (simp_all add: fold_rank_def)
  have honest: "honest (args c i ?e) ?m"
    unfolding r(3) [symmetric] by (simp add: honest_def frame_of_def payload_def rank_view_def)
  show ?thesis
  proof (rule fold_step [OF fold i])
    show "fold_rank n F i pc (?e + begun (rank_view c i) s) (mpi_mem s) ((given c i)(?e := [?m])) (folded c i) (args c i) (results c i)"
      using fold_rankD [OF fold i] calm_folding [OF enter_calm(3) [OF leave]] honest by (auto simp: fold_rank_def)
    assume small: "\<forall>j<n. ((entered c)(i := ?e + begun (rank_view c i) s)) j < 2 ^ 24"
      and flow: "flow n (may_receive inbox c) (given c) (folded c)"
    have "?e < 2 ^ 24" using small i by fastforce
    moreover have "h_tag (fst ?m) = tag_red ?e" using tag by (simp add: frame_of_def)
    ultimately have "flow n (may_receive inbox (rank_put i pc s1 c)) ((given c)(i := (given c i)(?e := [] @ [?m]))) (folded c)"
      using flow_give [where Q = "\<lambda>j. root = of_nat j" and S' = "may_receive inbox (rank_put i pc s1 c)" and e = ?e, OF flow i s1(2)] r by simp
    then show "flow n (may_receive inbox (noted (Net i) i ?e p (rank_view c i) ((rank_put i pc s c)\<lparr>entered := (entered c)(i := ?e + begun (rank_view c i) s)\<rparr>)))
        ((given c)(i := (given c i)(?e := [?m]))) ((folded c)(i := folded c i))" using same by simp
  qed (use pc0 r in \<open>simp_all add: noted_def rank_put_def\<close>)
qed

lemma combined_snoc:
  "combined F recvbuf cnt type op (d @ [x]) z =
     snd (reduce_apply F recvbuf (snd x) cnt type op (combined F recvbuf cnt type op d z))"
  by (simp add: combined_def)

lemma recv_match_mem: "recv_match N source tag s = Some (r, s') \<Longrightarrow> mpi_mem s' = mpi_mem s"
  by (auto simp: recv_match_def split: option.splits)

lemma fold_fails:
  assumes inv: "fold_inv n F inbox c" and i: "i < n" and ok: "rank_ok n i (entered c i) s1"
    and get: "\<And>j. j < n \<Longrightarrow> may_receive inbox (rank_put i pc s1 c) j \<subseteq># may_receive inbox c j"
    and leave: "reduce_leave all recvbuf cnt type rc s1 = (pc, s)"
  shows "fold_inv n F inbox ((rank_put i pc s c)\<lparr>entered := (entered c)(i := entered c i + begun (rank_view c i) s)\<rparr>)"
  using get moved_ok(3) [OF conjunct2 [OF enter_moves(3) [OF leave]] ok]
  by (intro fold_quiet_shrink [OF inv i enter_calm(3) [OF leave]]) simp_all

text \<open>A contribution of the wrong size, or of a type without arithmetic, ends the reduction; any other is combined.\<close>

lemma take_outcome:
  assumes "coll_next N F (OTake recvbuf cnt type op all (Suc k)) s0 = Some (pc, s)"
    and "recv_match N MPI_ANY_SOURCE (coll_tag (coll_seq s0) COLL_REDUCE) s0 = Some (Inr x, s1)"
  shows "seq_moved s1 s"
    and "calm pc \<or> pc = BOther (OTake recvbuf cnt type op all k) \<and> coll_seq s = coll_seq s1 \<and>
      right_size cnt type [x] \<and> mpi_mem s = snd (reduce_apply F recvbuf (snd x) cnt type op (mpi_mem s1))"
proof -
  obtain rc v where v: "reduce_apply F recvbuf (snd x) cnt type op (mpi_mem s1) = (rc, v)" by (metis surj_pair)
  show "seq_moved s1 s" using assms v
    by (auto simp: Let_def seq_moved_intros dest!: enter_moves(3) seq_moved_mem split: prod.splits if_splits)
  show "calm pc \<or> pc = BOther (OTake recvbuf cnt type op all k) \<and> coll_seq s = coll_seq s1 \<and>
      right_size cnt type [x] \<and> mpi_mem s = snd (reduce_apply F recvbuf (snd x) cnt type op (mpi_mem s1))"
    using assms v by (auto simp: Let_def right_size_def dest: enter_calm(3) split: prod.splits if_splits)
qed

lemma fold_takes:
  assumes net: "datagrams_conserved n Net inbox" and inv: "cluster_inv n inbox c" and fold: "fold_inv n F inbox c" and i: "i < n"
    and pc0: "rpcs c i = BOther p" "p = OTake recvbuf cnt type op all (Suc k)"
    and step: "coll_next (Net i) F p (rank_view c i) = Some (pc, s)"
  shows "fold_inv n F inbox (noted (Net i) i (entered c i) p (rank_view c i)
    ((rank_put i pc s c)\<lparr>entered := (entered c)(i := entered c i + begun (rank_view c i) s)\<rparr>))"
proof -
  let ?e = "entered c i" and ?tag = "coll_tag (coll_seq (rank_view c i)) COLL_REDUCE"
  note ok = inv_rank [OF inv i]
  have tag: "?tag = tag_red ?e" using ok by (simp add: rank_ok_def tag_red_def)
  from step pc0 obtain r s1 where m: "recv_match (Net i) MPI_ANY_SOURCE ?tag (rank_view c i) = Some (r, s1)"
    by (auto split: option.splits)
  note got = matched [OF net i ok m]
  show ?thesis
  proof (cases r)
    case (Inl rc)
    with step pc0 m have "reduce_leave all recvbuf cnt type rc s1 = (pc, s)" by simp
    from fold_fails [OF fold i got(1,2) this] m Inl pc0 show ?thesis by simp
  next
    case (Inr x)
    note wanted = got(3) [OF Inr]
    have fr: "folding n F i (BOther p) (mpi_mem (ranks c i)) (given c i ?e) (folded c i ?e) (args c i ?e) (results c i ?e \<noteq> None)"
      using fold_rankD [OF fold i] pc0 by (simp add: fold_rank_def)
    note pc = take_outcome [OF step [unfolded pc0(2)] m [unfolded Inr]]
    note same = moved_ok(3) [OF pc(1) got(1)]
    show ?thesis
    proof (rule fold_step [OF fold i])
      have "folding n F i pc (mpi_mem s) (given c i (?e + begun (rank_view c i) s))
          (((folded c i)(?e := folded c i ?e @ [x])) (?e + begun (rank_view c i) s))
          (args c i (?e + begun (rank_view c i) s)) (results c i (?e + begun (rank_view c i) s) \<noteq> None)"
      proof (cases "calm pc")
        case False
        with pc(2) recv_match_setup [OF m] recv_match_mem [OF m] fr pc0 show ?thesis
          by (auto simp: begun_def same_setup_def combined_snoc right_size_def rank_view_def)
      qed (rule calm_folding)
      with fold_rankD [OF fold i] fr pc0
      show "fold_rank n F i pc (?e + begun (rank_view c i) s) (mpi_mem s) (given c i)
          ((folded c i)(?e := folded c i ?e @ [x])) (args c i) (results c i)" by (auto simp: fold_rank_def)
      assume small: "\<forall>j<n. ((entered c)(i := ?e + begun (rank_view c i) s)) j < 2 ^ 24"
        and flow: "flow n (may_receive inbox c) (given c) (folded c)"
      have "?e < 2 ^ 24" using small i by fastforce
      moreover have "h_tag (fst x) = tag_red ?e" using barrier_wanted [OF conjunct1 [OF wanted]] tag by simp
      ultimately have "flow n (may_receive inbox (rank_put i pc s1 c)) (given c)
          ((folded c)(i := (folded c i)(?e := folded c i ?e @ [x])))"
        using flow_take [where S' = "may_receive inbox (rank_put i pc s1 c)" and e = ?e, OF flow got(2) conjunct2 [OF wanted]] by simp
      then show "flow n (may_receive inbox (noted (Net i) i ?e p (rank_view c i)
            ((rank_put i pc s c)\<lparr>entered := (entered c)(i := ?e + begun (rank_view c i) s)\<rparr>)))
          ((given c)(i := given c i)) ((folded c)(i := (folded c i)(?e := folded c i ?e @ [x])))" using same by simp
    qed (use pc0 m Inr in \<open>simp_all add: noted_def rank_put_def\<close>)
  qed
qed

lemma fold_finishes:
  assumes inv: "cluster_inv n inbox c" and fold: "fold_inv n F inbox c" and i: "i < n"
    and pc0: "rpcs c i = BOther p" "p = OTake recvbuf cnt type op all 0"
    and step: "coll_next N F p (rank_view c i) = Some (pc, s)"
  shows "fold_inv n F inbox (noted N i (entered c i) p (rank_view c i)
    ((rank_put i pc s c)\<lparr>entered := (entered c)(i := entered c i + begun (rank_view c i) s)\<rparr>))"
proof -
  let ?e = "entered c i"
  let ?R = "(results c i)(?e := Some (recvbuf, cnt, type, op, all, mpi_mem (ranks c i)))"
  note ok = inv_rank [OF inv i]
  from step pc0 have leave: "reduce_leave all recvbuf cnt type MPI_SUCCESS (rank_view c i) = (pc, s)" by simp
  note same = moved_ok(3) [OF conjunct2 [OF enter_moves(3) [OF leave]], of n i ?e]
  show ?thesis
  proof (rule fold_step [OF fold i])
    show "fold_rank n F i pc (?e + begun (rank_view c i) s) (mpi_mem s) (given c i) (folded c i) (args c i) ?R"
      using fold_rankD [OF fold i] pc0 calm_folding [OF enter_calm(3) [OF leave]] by (auto simp: fold_rank_def)
    show "flow n (may_receive inbox (noted N i ?e p (rank_view c i)
          ((rank_put i pc s c)\<lparr>entered := (entered c)(i := ?e + begun (rank_view c i) s)\<rparr>)))
        ((given c)(i := given c i)) ((folded c)(i := folded c i))" if "flow n (may_receive inbox c) (given c) (folded c)"
      using that same ok by simp
  qed (use pc0 in \<open>simp_all add: noted_def rank_put_def rank_view_def\<close>)
qed

lemma fold_other:
  assumes net: "datagrams_conserved n Net inbox" and inv: "cluster_inv n inbox c" and fold: "fold_inv n F inbox c" and i: "i < n"
    and pc0: "rpcs c i = BOther p" and step: "coll_next (Net i) F p (rank_view c i) = Some (pc, s)"
  shows "fold_inv n F inbox (noted (Net i) i (entered c i) p (rank_view c i)
    ((rank_put i pc s c)\<lparr>entered := (entered c)(i := entered c i + begun (rank_view c i) s)\<rparr>))"
proof (cases p)
  case (OSend buf cnt type rs)
  show ?thesis
  proof (cases rs)
    case Nil
    with OSend step fold i show ?thesis by (auto intro!: fold_quiet_shrink)
  next
    case (Cons r rs')
    with OSend step obtain rc where send: "MPI_Send (Net i) buf cnt type r (coll_tag (coll_seq (rank_view c i)) COLL_BCAST)
        MPI_COMM_WORLD (rank_view c i) = Some (rc, s)" and "calm pc" by (auto split: option.splits prod.splits)
    have "n \<le> 16" using inv by (simp add: cluster_inv_def)
    from sent [OF net i inv_rank [OF inv i] this send] obtain m where m: "h_tag (fst m) = coll_tag (coll_seq (rank_view c i)) COLL_BCAST"
      "\<And>j pc. j < n \<Longrightarrow> may_receive inbox (rank_put i pc s c) j \<subseteq>#
         may_receive inbox c j + (if r = of_nat j then {#m#} else {#})" by blast
    have "fold_inv n F inbox ((rank_put i pc s c)\<lparr>entered := (entered c)(i := entered c i + begun (rank_view c i) s)\<rparr>)"
      by (rule fold_quiet [OF fold i \<open>calm pc\<close> _ _ m(2)]) (use m(1) red_tags(4) in simp_all)
    with OSend show ?thesis by simp
  qed
next
  case (ORecv buf cnt type root)
  with step obtain rc st where r: "MPI_Recv (Net i) buf cnt type root
      (coll_tag (coll_seq (rank_view c i)) COLL_BCAST) MPI_COMM_WORLD False (rank_view c i) = Some (rc, st, s)"
    and pc: "pc = BUser rc" by (auto split: option.splits prod.splits)
  from fold_quiet_shrink [OF fold i _ _ received(2) [OF net i inv_rank [OF inv i] r], of pc] pc ORecv show ?thesis by simp
next
  case (OGive sendbuf recvbuf cnt type root all)
  then show ?thesis by (rule fold_gives [OF net inv fold i pc0 _ step])
next
  case (OTake recvbuf cnt type op all k)
  show ?thesis
  proof (cases k)
    case 0
    with OTake show ?thesis by (intro fold_finishes [OF inv fold i pc0 _ step]) simp
  next
    case (Suc k')
    with OTake show ?thesis by (intro fold_takes [OF net inv fold i pc0 _ step]) simp
  qed
qed

lemma fold_inv_step:
  assumes net: "datagrams_conserved n Net inbox" and "cluster_step n Net F inbox c c'"
    and inv: "cluster_inv n inbox c" and fold: "fold_inv n F inbox c"
  shows "fold_inv n F inbox c'"
  using assms(2)
proof cases
  case (enters i tok comm pc s)
  have "may_receive inbox (rank_put i pc s c) = may_receive inbox c"
    using enters(4) by (auto simp: barrier_enter_def may_receive_def fun_eq_iff split: if_splits)
  with enters show ?thesis by (auto intro!: fold_quiet_shrink [OF fold] dest: enter_calm(1))
next
  case (enters_bcast i buf cnt type root comm pc s)
  have "may_receive inbox (rank_put i pc s c) = may_receive inbox c"
    using enters_bcast(4) by (auto simp: bcast_enter_def may_receive_def fun_eq_iff split: if_splits)
  with enters_bcast show ?thesis by (auto intro!: fold_quiet_shrink [OF fold] dest: enter_calm(2))
next
  case (enters_reduce i sendbuf recvbuf cnt type op root comm all pc s)
  with fold_enters [OF inv fold] show ?thesis by simp
next
  case (other_advances i p pc s)
  with fold_other [OF net inv fold] show ?thesis by simp
next
  case (advances i pc s)
  obtain m Q k where
    m: "\<forall>p. pc \<noteq> BOther p" "h_tag (fst m) = tag_in k \<or> h_tag (fst m) = tag_out k"
    "\<And>j. j < n \<Longrightarrow> may_receive inbox (rank_put i pc s c) j \<subseteq># may_receive inbox c j + (if Q j then {#m#} else {#})"
    by (rule barrier_call_effect [OF net inv advances(2,3)], rule that, assumption+)
  have "calm pc" using m(1) by (cases pc) simp_all
  have tag: "h_tag (fst m) \<noteq> tag_red l" for l using m(2) red_tags(2,3) by auto
  from fold_quiet [OF fold advances(2) \<open>calm pc\<close> _ tag m(3), of "entered c i"] advances(1) show ?thesis by simp
next
  case (user_sends i tag buf cnt type dest comm rc s)
  have "n \<le> 16" using inv by (simp add: cluster_inv_def)
  from sent [OF net user_sends(2) inv_rank [OF inv user_sends(2)] this user_sends(6)] obtain m where
    m: "h_tag (fst m) = tag" "\<And>j pc. j < n \<Longrightarrow> may_receive inbox (rank_put i pc s c) j \<subseteq>#
       may_receive inbox c j + (if dest = of_nat j then {#m#} else {#})" by blast
  from fold_quiet [where s = s and Q = "\<lambda>j. dest = of_nat j", OF fold user_sends(2), of "BUser rc" "entered c i" m]
    m red_tags(5) [OF user_sends(5)] user_sends(1) show ?thesis by simp
next
  case (user_receives i buf cnt type source tag comm status rc st s)
  note got = received [OF net user_receives(2) inv_rank [OF inv user_receives(2)] user_receives(4)]
  from fold_quiet_shrink [OF fold user_receives(2) _ _ got(2), of "BUser rc" "entered c i"] user_receives(1) show ?thesis by simp
next
  case (user_computes i rc m)
  have "may_receive inbox (rank_put i (BUser rc) ((rank_view c i)\<lparr>mpi_mem := m\<rparr>) c) = may_receive inbox c"
    by (simp add: may_receive_def fun_eq_iff)
  with fold_quiet_shrink [OF fold user_computes(2), of "BUser rc" "entered c i" "(rank_view c i)\<lparr>mpi_mem := m\<rparr>"] user_computes(1)
  show ?thesis by simp
next
  case (network_loses w')
  have "flow n (may_receive inbox c') (given c) (folded c)" if "flow n (may_receive inbox c) (given c) (folded c)"
    using network_loses red_tags(5) [of 0]
    by (intro flow_shrink [OF that, of _ "\<lambda>_. False" "(\<lparr>h_src = 0, h_tag = 0, h_count = 0, h_type = 0\<rparr>, [])"])
      (simp_all add: may_receive_def stock_def decoded_mono)
  with fold network_loses(1) show ?thesis by (simp add: fold_inv_def)
qed

interpretation mpi_reductions: invariant_system "cluster_initial n inbox" "cluster_step n Net F inbox"
    "\<lambda>c. datagrams_conserved n Net inbox \<longrightarrow> cluster_inv n inbox c \<and> fold_inv n F inbox c" for n inbox Net F
proof
  fix c :: "'a cluster"
  assume c: "cluster_initial n inbox c"
  have "{#m \<in># may_receive inbox c i. h_tag (fst m) = tag_red k#} = {#}" if "i < n" for i k
    using initial_untagged [OF c that, where b = 4 and q = "of_nat k"] by (auto simp: filter_mset_eq_conv tag_red_def)
  moreover have "calm (rpcs c i)" if "i < n" for i
    using c that by (cases "rpcs c i") (auto simp: cluster_initial_def)
  ultimately have "fold_inv n F inbox c"
    using c by (simp add: fold_inv_def fold_rank_def flow_def cluster_initial_def calm_folding)
  with mpi_cluster.inv_init [OF c] show "datagrams_conserved n Net inbox \<longrightarrow> cluster_inv n inbox c \<and> fold_inv n F inbox c"
    by blast
qed (use cluster_step_inv fold_inv_step in blast)

section \<open>Properties\<close>

lemma ordered_image:
  "image_mset f M = mset xs \<Longrightarrow> \<exists>ys. mset ys = M \<and> xs = map f ys"
proof (induction xs arbitrary: M)
  case (Cons x xs)
  then obtain y N where M: "M = add_mset y N" "f y = x" "image_mset f N = mset xs"
    by (auto dest: msed_map_invR)
  from Cons.IH [OF M(3)] obtain ys where "mset ys = N" "xs = map f ys" by blast
  with M show ?case by (intro exI [of _ "y # ys"]) simp
qed simp

lemma sum_singletons: "finite A \<Longrightarrow> (\<Sum>r\<in>A. {#f r#}) = image_mset f (mset_set A)"
  by (induction A rule: finite_induct) simp_all

lemma each_gives_one:
  assumes "mset xs \<subseteq># (\<Sum>r\<in>A. mset (G r))" and "finite A" and "length xs = card A" and "\<And>r. r \<in> A \<Longrightarrow> length (G r) \<le> 1"
  shows "\<forall>r\<in>A. length (G r) = 1" and "mset xs = image_mset (\<lambda>r. hd (G r)) (mset_set A)"
proof -
  have size: "size (\<Sum>r\<in>A. mset (G r)) = (\<Sum>r\<in>A. length (G r))" using assms(2) by (induction A rule: finite_induct) simp_all
  have le: "(\<Sum>r\<in>A. length (G r)) \<le> card A" using sum_mono [of A "\<lambda>r. length (G r)" "\<lambda>_. 1"] assms(4) by simp
  moreover have "card A \<le> (\<Sum>r\<in>A. length (G r))" using size_mset_mono [OF assms(1)] assms(3) size by simp
  ultimately have eq: "(\<Sum>r\<in>A. length (G r)) = card A" by simp
  show one: "\<forall>r\<in>A. length (G r) = 1"
  proof (rule ccontr)
    assume "\<not> (\<forall>r\<in>A. length (G r) = 1)"
    then have "\<exists>r\<in>A. length (G r) < 1" using assms(4) by (metis le_neq_implies_less)
    from sum_strict_mono_ex1 [OF assms(2) _ this] assms(4) eq show False by simp
  qed
  have "mset xs = (\<Sum>r\<in>A. mset (G r))"
    using assms(1,3) size eq by (metis mset_subset_size subset_mset.le_neq_trans less_irrefl size_mset)
  also have "\<dots> = (\<Sum>r\<in>A. {#hd (G r)#})"
  proof (rule sum.cong [OF refl])
    fix r assume "r \<in> A"
    with one obtain x where "G r = [x]" by (metis One_nat_def length_0_conv length_Suc_conv)
    then show "mset (G r) = {#hd (G r)#}" by simp
  qed
  finally show "mset xs = image_mset (\<lambda>r. hd (G r)) (mset_set A)" by (simp add: sum_singletons [OF assms(2)])
qed

lemma fold_rank_sent:
  assumes "fold_rank n F i pc e m G D Z R"
  shows "length (G k) \<le> 1" and "x \<in> set (G k) \<Longrightarrow> honest (Z k) x"
  using assms unfolding fold_rank_def by blast+

lemma reduction_order:
  assumes net: "datagrams_conserved n Net inbox"
    and reach: "reachable (cluster_initial n inbox) (cluster_step n Net F inbox) c"
    and small: "\<forall>r<n. entered c r < 2 ^ 24" and d: "d < n" and res: "results c d k = Some (recvbuf, cnt, type, op, all, m)"
  shows "\<exists>rs. distinct rs \<and> set rs = {..<n} - {d} \<and>
    (\<forall>r\<in>set rs. length (given c r k) = 1 \<and> of_nat (length (snd (hd (given c r k)))) = cnt * type_size type \<and>
       honest (args c r k) (hd (given c r k))) \<and>
    m = combined F recvbuf cnt type op (map (\<lambda>r. hd (given c r k)) rs) (seeded recvbuf cnt type (args c d k))"
proof -
  let ?A = "{..<n} - {d}"
  have inv: "fold_inv n F inbox c" using mpi_reductions.reachable_inv [OF reach] net by blast
  note rank = fold_rankD [OF inv, unfolded fold_rank_def]
  have k: "k \<le> entered c d" using rank [OF d] res by (metis not_le option.distinct(1))
  have D: "length (folded c d k) = n - 1" "right_size cnt type (folded c d k)"
    "m = combined F recvbuf cnt type op (folded c d k) (seeded recvbuf cnt type (args c d k))" using rank [OF d] res by blast+
  have "k < 2 ^ 24" using small d k by (meson le_less_trans)
  with inv small d have sub: "mset (folded c d k) \<subseteq># (\<Sum>r\<in>?A. mset (given c r k))"
    unfolding fold_inv_def flow_def by (meson mset_subset_eq_add_right subset_mset.order_trans)
  have "card ?A = n - 1" using d by simp
  note sent = fold_rank_sent [OF fold_rankD [OF inv]]
  from each_gives_one [OF sub _ D(1) [folded \<open>card ?A = n - 1\<close>]] sent(1)
  have one: "\<forall>r\<in>?A. length (given c r k) = 1" "mset (folded c d k) = image_mset (\<lambda>r. hd (given c r k)) (mset_set ?A)" by simp_all
  from ordered_image [OF one(2) [symmetric]] obtain rs where
    rs: "mset rs = mset_set ?A" "folded c d k = map (\<lambda>r. hd (given c r k)) rs" by blast
  have set: "set rs = ?A" using arg_cong [OF rs(1), of set_mset] by simp
  have honest: "honest (args c r k) (hd (given c r k))" if "r \<in> ?A" for r
  proof -
    from one(1) that have "given c r k \<noteq> []" by force
    with sent(2) [of r] that show ?thesis by simp
  qed
  have size: "of_nat (length (snd (hd (given c r k)))) = cnt * type_size type" if "r \<in> ?A" for r
    using D(2) that unfolding rs(2) right_size_def by (simp add: set)
  have "distinct rs" by (simp add: distinct_count_atmost_1 rs(1) set)
  with set one(1) honest size D(3) show ?thesis unfolding rs(2) by blast
qed

lemma combined_int:
  assumes "op_int op = Some g" and "j < nat (sint cnt)"
  shows "int32.elem (combined F recvbuf cnt MPI_INT op ms z) recvbuf j =
    fold (\<lambda>x v. g v (int32.part (snd x) j)) ms (int32.elem z recvbuf j)"
proof (induction ms arbitrary: z)
  case Nil
  show ?case by (simp add: combined_def)
next
  case (Cons x ms)
  have "nat (sint cnt) < 2 ^ 31" using sint_i32_bounds(2) [of cnt] by simp
  with assms int32.reduce_loop_elems [of 0 "nat (sint cnt)" g recvbuf "snd x" z]
  have "int32.elem (snd (reduce_apply F recvbuf (snd x) cnt MPI_INT op z)) recvbuf j =
      g (int32.elem z recvbuf j) (int32.part (snd x) j)" by (simp add: reduce_apply_def)
  with Cons.IH show ?case by (simp add: combined_def)
qed

text \<open>Element \<open>j\<close> of the send buffer rank \<open>r\<close> called its \<open>k\<close>-th collective with, as it was at the call.\<close>

definition offered :: "'w cluster \<Rightarrow> nat \<Rightarrow> nat \<Rightarrow> nat \<Rightarrow> i32" where
  "offered c r k j = get32 (snd (args c r k)) (fst (args c r k) + of_nat (4 * j))"

text \<open>Buffers of \<open>cnt\<close> integers that \<open>memcpy\<close> may copy between.\<close>

definition buffers_ok :: "addr \<Rightarrow> addr \<Rightarrow> i32 \<Rightarrow> bool" where
  "buffers_ok recvbuf sendbuf cnt \<longleftrightarrow> object_at recvbuf (of_nat (4 * nat (sint cnt))) \<and>
     object_at sendbuf (of_nat (4 * nat (sint cnt))) \<and>
     (recvbuf < sendbuf \<or> unat sendbuf + 4 * nat (sint cnt) \<le> unat recvbuf)"

lemma int_bytes:
  assumes "sint cnt < 2 ^ 29" and "j < nat (sint cnt)"
  shows "unat (sext (cnt * 4 :: i32) :: u64) = 4 * nat (sint cnt)" and "cnt * 4 \<noteq> 0" and "unat (cnt * 4) = 4 * nat (sint cnt)"
proof -
  have b: "sint (cnt * 4) = sint cnt * 4" using sint_mult_i32 [of cnt 4] assms by simp
  then show "unat (sext (cnt * 4 :: i32) :: u64) = 4 * nat (sint cnt)" using assms by (simp add: unat_sext_nonneg nat_mult_distrib)
  show "cnt * 4 \<noteq> 0" using b assms by auto
  have "uint (cnt * 4) = sint (cnt * 4)" using b assms by (simp add: uint_sint [of "cnt * 4"] take_bit_int_eq_self)
  with b show "unat (cnt * 4) = 4 * nat (sint cnt)" by (simp add: unat_eq_nat_uint nat_mult_distrib)
qed

lemma load_bytes_part:
  assumes "4 * k \<le> length (load_bytes m a l)" and "j < k"
  shows "take 4 (drop (4 * j) (load_bytes m a l)) = load_bytes m (a + of_nat (4 * j)) 4"
proof (rule nth_equalityI)
  fix t assume "t < length (take 4 (drop (4 * j) (load_bytes m a l)))"
  then have "t < 4 \<and> t < l - 4 * j" by simp
  then have t: "t < 4" "4 * j + t < l" by linarith+
  then have "take 4 (drop (4 * j) (load_bytes m a l)) ! t = load_bytes m a l ! (4 * j + t)" by (simp only: nth_take) simp
  with t show "take 4 (drop (4 * j) (load_bytes m a l)) ! t = load_bytes m (a + of_nat (4 * j)) 4 ! t"
    by (simp only: load_bytes_nth of_nat_add add.assoc)
qed (use assms in simp)

lemma honest_part:
  assumes "honest a x" and "of_nat (length (snd x)) = cnt * (4 :: i32)" and "sint cnt < 2 ^ 29" and j: "j < nat (sint cnt)"
  shows "int32.part (snd x) j = get32 (snd a) (fst a + of_nat (4 * j))"
proof -
  note b = int_bytes [OF assms(3) j]
  have "unat (of_nat (length (snd x)) :: i32) \<le> length (snd x)" by (simp add: unsigned_of_nat take_bit_eq_mod)
  with assms(2) b(3) have len: "4 * nat (sint cnt) \<le> length (snd x)" by simp
  with j have "snd x \<noteq> []" by auto
  with assms(1) obtain l where l: "snd x = load_bytes (snd a) (fst a) l" by (auto simp: honest_def payload_def split: if_splits)
  have "take 4 (drop (4 * j) (snd x)) = load_bytes (snd a) (fst a + of_nat (4 * j)) 4"
    using len j unfolding l by (rule load_bytes_part)
  then show ?thesis by (simp add: int32.part_def get32_def)
qed

lemma seeded_elem:
  assumes "buffers_ok recvbuf (fst a) cnt" and "sint cnt < 2 ^ 29" and "j < nat (sint cnt)"
  shows "int32.elem (seeded recvbuf cnt MPI_INT a) recvbuf j = get32 (snd a) (fst a + of_nat (4 * j))"
proof -
  let ?n = "sext (cnt * 4) :: u64"
  note b = int_bytes [OF assms(2,3)]
  have n: "?n = of_nat (4 * nat (sint cnt))" using b(1) by (metis of_nat_unat ucast_id)
  have "int32.elem (snd (memcpy recvbuf (fst a) ?n (snd a))) recvbuf j = int32.elem (snd a) (fst a) j"
    using assms(1,3) b(1) unfolding buffers_ok_def n [symmetric] by (intro memcpy_elems) simp_all
  then show ?thesis by (simp add: seeded_def type_size_def int32.elem_def get32_def)
qed

lemma reduced_mset:
  assumes "mset xs = mset ys"
  shows "reduced op xs v = reduced op ys v"
  using assms unfolding reduced_def by (metis mset_eq_setD sum_mset_sum_list prod_mset_prod_list)

lemma all_but_one:
  assumes "distinct rs" and "set rs = {..<n} - {d}" and "d < n"
  shows "mset (d # rs) = mset [0..<n]"
proof -
  have "insert d ({..<n} - {d}) = {0..<n}" using assms(3) by auto
  with assms(2) have "set (d # rs) = set [0..<n]" by simp
  moreover have "distinct (d # rs)" using assms(1,2) by simp
  ultimately show ?thesis using set_eq_iff_mset_eq_distinct [of "d # rs" "[0..<n]"] using distinct_upt by blast
qed

lemma reduction_ints:
  assumes run: "datagrams_conserved n Net inbox" "reachable (cluster_initial n inbox) (cluster_step n Net F inbox) c"
      "\<forall>r<n. entered c r < 2 ^ 24"
    and d: "d < n" and res: "results c d k = Some (recvbuf, cnt, MPI_INT, op, all, m)"
    and cnt: "sint cnt < 2 ^ 29" and bufs: "buffers_ok recvbuf (fst (args c d k)) cnt" and j: "j < nat (sint cnt)"
  shows "reduced op (map (\<lambda>r. offered c r k j) [0..<n]) (get32 m (recvbuf + of_nat (4 * j)))"
proof (cases "op_int op")
  case None
  then have "op \<notin> {MPI_SUM, MPI_PROD, MPI_MAX, MPI_MIN}" using op_int_ex [of op] by (metis option.distinct(1))
  then show ?thesis unfolding reduced_def by blast
next
  case (Some g)
  have size: "type_size MPI_INT = 4" by (simp add: type_size_def)
  from reduction_order [OF run d res] obtain rs where rs: "distinct rs" "set rs = {..<n} - {d}"
    "\<forall>r\<in>set rs. honest (args c r k) (hd (given c r k)) \<and> of_nat (length (snd (hd (given c r k)))) = cnt * (4 :: i32)"
    "m = combined F recvbuf cnt MPI_INT op (map (\<lambda>r. hd (given c r k)) rs) (seeded recvbuf cnt MPI_INT (args c d k))"
    unfolding size by blast
  have part: "int32.part (snd (hd (given c r k))) j = offered c r k j" if "r \<in> set rs" for r
    using honest_part [OF conjunct1 [OF bspec [OF rs(3) that]] conjunct2 [OF bspec [OF rs(3) that]] cnt j] by (simp only: offered_def)
  have "int32.elem m recvbuf j = fold (\<lambda>r v. g v (int32.part (snd (hd (given c r k))) j)) rs (offered c d k j)"
    unfolding rs(4) combined_int [OF Some j] seeded_elem [OF bufs cnt j] by (simp only: fold_map comp_def offered_def)
  also have "\<dots> = fold (\<lambda>r v. g v (offered c r k j)) rs (offered c d k j)"
    by (rule fold_cong) (simp_all only: part)
  also have "\<dots> = fold (\<lambda>y v. g v y) (map (\<lambda>r. offered c r k j) rs) (offered c d k j)" by (simp only: fold_map comp_def)
  finally have "reduced op (map (\<lambda>r. offered c r k j) (d # rs)) (int32.elem m recvbuf j)"
    using op_int_reduced [OF Some, of "offered c d k j" "map (\<lambda>r. offered c r k j) rs"] by (simp only: list.map)
  moreover have all: "mset (d # rs) = mset [0..<n]"
    by (rule all_but_one [OF rs(1,2) d])
  have "mset (map (\<lambda>r. offered c r k j) (d # rs)) = mset (map (\<lambda>r. offered c r k j) [0..<n])" by (simp only: mset_map all)
  note reduced_mset [OF this]
  ultimately have "reduced op (map (\<lambda>r. offered c r k j) [0..<n]) (int32.elem m recvbuf j)" by (simp only:)
  then show ?thesis by (simp only: int32.elem_def get32_def)
qed

text \<open>
  C9. A reduction combines one contribution of every other rank, and the one of this collective. Up to
  sixteen ranks run any interleaving of collectives, sends, receives and computation over a network that
  may lose, delay and reorder datagrams. When rank \<open>d\<close>, the root of its \<open>k\<close>-th collective, has the result of a reduction,
  each other rank has made exactly one contribution in its own \<open>k\<close>-th collective, all of the size of
  the call, and each holds the bytes the send buffer of that rank held when it made the call; and the root's memory is
  that of its call, with its own send buffer copied to the result buffer and these contributions applied to it, in some order of the
  ranks. So a contribution that a fast rank sends to the next reduction, while the root is
  still gathering, is never taken for this one.
\<close>

theorem reduction_combines_all:
  assumes net: "datagrams_conserved n Net inbox"
    and reach: "reachable (cluster_initial n inbox) (cluster_step n Net F inbox) c"
    and small: "\<forall>r<n. entered c r < 2 ^ 24" and d: "d < n" and res: "results c d k = Some (recvbuf, cnt, type, op, all, m)"
  shows "\<exists>rs. distinct rs \<and> set rs = {..<n} - {d} \<and>
    (\<forall>r\<in>set rs. length (given c r k) = 1 \<and> of_nat (length (snd (hd (given c r k)))) = cnt * type_size type \<and>
       honest (args c r k) (hd (given c r k))) \<and>
    m = combined F recvbuf cnt type op (map (\<lambda>r. hd (given c r k)) rs) (seeded recvbuf cnt type (args c d k))"
  by (rule reduction_order [OF assms])

text \<open>
  C15. A reduction of integers computes the reduction of all ranks. In the same runs, when the root \<open>d\<close> has the result of
  a reduction of \<open>MPI_INT\<close> in its \<open>k\<close>-th collective, each element of the result is the sum, product, maximum or minimum
  (as the call asked) of that element of the send buffers with which all ranks, the root among them, called their \<open>k\<close>-th
  collective, as the buffers were at the call, whatever the order in which the contributions arrived. The size of the
  buffers in bytes is within an \<open>int\<close>, and the root's two buffers are such that \<open>memcpy\<close> may copy one to the other.
\<close>

theorem reduction_of_ints:
  assumes "datagrams_conserved n Net inbox" and "reachable (cluster_initial n inbox) (cluster_step n Net F inbox) c"
    and "\<forall>r<n. entered c r < 2 ^ 24" and "d < n" and "results c d k = Some (recvbuf, cnt, MPI_INT, op, all, m)"
    and "sint cnt < 2 ^ 29" and "buffers_ok recvbuf (fst (args c d k)) cnt"
  shows "\<forall>j<nat (sint cnt). reduced op (map (\<lambda>r. offered c r k j) [0..<n]) (get32 m (recvbuf + of_nat (4 * j)))"
  using reduction_ints [OF assms] by blast

lemma rank_view_history [simp]:
  "rank_view (c\<lparr>entered := e, args := z\<rparr>) = rank_view c" "rank_view (noted N i k p s c) = rank_view c"
  by (simp_all add: rank_view_def fun_eq_iff)

lemma results_noted [simp]: "results (noted N i e p s c) i e = result_at p s (results c i e)"
  by (simp add: noted_def)

text \<open>Two ranks: rank 1 sends its contribution, rank 0 takes it.\<close>

definition demo_given :: message where
  "demo_given = (\<lparr>h_src = 1, h_tag = coll_tag 1 COLL_REDUCE, h_count = 1, h_type = MPI_INT\<rparr>, [0, 0, 0, 0])"

lemma duo_gives:
  "\<exists>c. (cluster_step 2 post_net no_fpu post_box)\<^sup>*\<^sup>* duo c \<and> ranks c 0 = rank_state 0 2 (\<lambda>_. 0) (\<lambda>_. []) \<and>
     rpcs c 0 = BUser 0 \<and> world c 0 = [encode demo_given] \<and> world c 1 = [] \<and> entered c = (\<lambda>_. 0)(1 := if all then 2 else 1) \<and>
     (all \<longrightarrow> rpcs c 1 = BOther (ORecv 64 1 MPI_INT 0) \<and> (\<exists>w. ranks c 1 = (rank_state 1 2 (\<lambda>_. 0) w)\<lparr>coll_seq := 2\<rparr>))"
proof -
  let ?step = "cluster_step 2 post_net no_fpu post_box"
  let ?v = "rank_view duo 1" and ?p = "OGive 0 64 1 MPI_INT 0 all"
  let ?s = "?v\<lparr>coll_seq := 1\<rparr>"
  let ?c = "(rank_put 1 (BOther ?p) ?s duo)\<lparr>entered := (\<lambda>_. 0)(1 := 1), args := (args duo)(1 := (args duo 1)(1 := (0, mpi_mem ?v)))\<rparr>"
  have "reduce_enter 0 64 1 MPI_INT MPI_SUM 0 MPI_COMM_WORLD all ?v = (BOther ?p, ?s)"
    by (simp add: reduce_enter_def rank_view_def duo_def type_size_def)
  from enters_reduce [where n = 2 and Net = post_net and F = no_fpu and inbox = post_box, OF _ _ this]
  have step: "?step duo ?c" by (simp add: duo_def begun_def)
  let ?t = "coll_tag (coll_seq ?s) COLL_REDUCE"
  let ?s2 = "?s\<lparr>mpi_world := snd (net_sendto (post_net 1) 3 (addr_for_rank 0) (encode demo_given) (\<lambda>_. []))\<rparr>"
  have "send_valid ?s 1 MPI_INT 0 ?t"
    using coll_tag_nonneg [of 4 1] by (simp add: send_valid_def type_size_def rank_view_def duo_def)
  from MPI_Send_valid(1) [OF this, of "post_net 1" 0]
  have send: "MPI_Send (post_net 1) 0 1 MPI_INT 0 ?t MPI_COMM_WORLD ?s = Some (MPI_SUCCESS, ?s2)"
    by (simp add: message_of_def type_size_def rank_view_def duo_def demo_given_def post_net_def numeral_eq_Suc)
  let ?pc = "if all then BOther (ORecv 64 1 MPI_INT 0) else BUser MPI_SUCCESS" and ?s3 = "if all then ?s2\<lparr>coll_seq := 2\<rparr> else ?s2"
  have "reduce_leave all 64 1 MPI_INT MPI_SUCCESS ?s2 = (?pc, ?s3)"
    by (simp add: reduce_leave_def bcast_enter_def rank_view_def duo_def)
  with send have next_: "coll_next (post_net 1) no_fpu ?p (rank_view ?c 1) = Some (?pc, ?s3)" by simp
  let ?c2 = "noted (post_net 1) 1 (entered ?c 1) ?p (rank_view ?c 1) ((rank_put 1 ?pc ?s3 ?c)\<lparr>entered :=
    (entered ?c)(1 := entered ?c 1 + begun (rank_view ?c 1) ?s3)\<rparr>)"
  have "?step ?c ?c2"
    by (rule other_advances [where Net = post_net and i = 1, OF _ _ next_]) simp_all
  with step have "?step\<^sup>*\<^sup>* duo ?c2" by (meson r_into_rtranclp rtranclp.rtrancl_into_rtrancl)
  moreover have a: "addr_for_rank 0 \<noteq> addr_for_rank 1" by (simp add: addr_for_rank_def htons_def)
  have "world ?c2 0 = [encode demo_given]" "world ?c2 1 = []" using a by (simp_all add: post_net_def)
  moreover have "ranks ?c2 1 = (rank_state 1 2 (\<lambda>_. 0) (mpi_world ?s2))\<lparr>coll_seq := 2\<rparr>" if all
    using that by (simp add: rank_state_def rank_view_def duo_def)
  moreover have "entered ?c2 = (\<lambda>_. 0)(1 := if all then 2 else 1)" by (simp add: begun_def numeral_2_eq_2)
  moreover have "ranks ?c2 0 = rank_state 0 2 (\<lambda>_. 0) (\<lambda>_. [])" "rpcs ?c2 0 = BUser 0" by (simp_all add: duo_def)
  ultimately show ?thesis by (intro exI [of _ ?c2] conjI impI exI [of _ "mpi_world ?s2"]) simp_all
qed

lemma duo_reduces:
  "\<exists>c m. (cluster_step 2 post_net no_fpu post_box)\<^sup>*\<^sup>* duo c \<and> entered c = (\<lambda>_. 0)(1 := if all then 2 else 1, 0 := if all then 2 else 1) \<and>
     results c 0 1 = Some (64, 1, MPI_INT, MPI_SUM, all, m) \<and> fst (args c 0 1) = 0 \<and>
     (all \<longrightarrow> rpcs c 1 = BOther (ORecv 64 1 MPI_INT 0) \<and> (\<exists>w. ranks c 1 = (rank_state 1 2 (\<lambda>_. 0) w)\<lparr>coll_seq := 2\<rparr>) \<and>
        rpcs c 0 = BOther (OSend 64 1 MPI_INT [1]) \<and> world c 1 = [] \<and> mpi_ready (ranks c 0) = 1 \<and> mpi_rank (ranks c 0) = 0 \<and>
        mpi_size (ranks c 0) = 2 \<and> mpi_sock (ranks c 0) = 3 \<and> coll_seq (ranks c 0) = 2)"
proof -
  let ?step = "cluster_step 2 post_net no_fpu post_box"
  from duo_gives [of all] obtain c where c: "?step\<^sup>*\<^sup>* duo c" "ranks c 0 = rank_state 0 2 (\<lambda>_. 0) (\<lambda>_. [])"
    "rpcs c 0 = BUser 0" "world c 0 = [encode demo_given]" "world c 1 = []" "entered c = (\<lambda>_. 0)(1 := if all then 2 else 1)"
    "all \<longrightarrow> rpcs c 1 = BOther (ORecv 64 1 MPI_INT 0) \<and> (\<exists>w. ranks c 1 = (rank_state 1 2 (\<lambda>_. 0) w)\<lparr>coll_seq := 2\<rparr>)" by blast
  let ?p = "\<lambda>k. OTake 64 1 MPI_INT MPI_SUM all k"
  let ?s = "(rank_view c 0)\<lparr>coll_seq := 1, mpi_mem := snd (memcpy 64 0 4 (\<lambda>_. 0))\<rparr>"
  let ?c = "(rank_put 0 (BOther (?p 1)) ?s c)\<lparr>entered := (entered c)(0 := 1), args := (args c)(0 := (args c 0)(1 := (0, mpi_mem (rank_view c 0))))\<rparr>"
  have "reduce_enter 0 64 1 MPI_INT MPI_SUM 0 MPI_COMM_WORLD all (rank_view c 0) = (BOther (?p 1), ?s)"
    using c(2) by (simp add: reduce_enter_def rank_view_def type_size_def)
  from enters_reduce [where n = 2 and Net = post_net and F = no_fpu and inbox = post_box, OF _ _ this]
  have step1: "?step c ?c" using c(2,3,6) by (simp add: begun_def)
  have "receive (msg_wanted (MPI_ANY_SOURCE, coll_tag 1 COLL_REDUCE)) [Datagram (encode demo_given)] (content (mpi_pending ?s)) =
      Some (Inr demo_given, [], [])"
    using c(2) by (simp add: content_empty receive_def frame_message_encode msg_fits_def msg_wanted_def matches_def demo_given_def)
  from recv_match_receive [of ?s "post_net 0" _ "(world c)(0 := [])", OF _ _ this] c(2,4) obtain q w lg where
    m: "recv_match (post_net 0) MPI_ANY_SOURCE (coll_tag 1 COLL_REDUCE) ?s =
      Some (Inr demo_given, ?s\<lparr>mpi_pending := q, mpi_world := w, mpi_log := lg\<rparr>)" and w: "w = (world c)(0 := [])"
    by (auto simp: rank_view_def empty_queue_wf post_net_def)
  let ?s2 = "?s\<lparr>mpi_pending := q, mpi_world := w, mpi_log := lg\<rparr>"
  obtain v where v: "reduce_apply no_fpu 64 [0, 0, 0, 0] 1 MPI_INT MPI_SUM (mpi_mem ?s2) = (MPI_SUCCESS, v)"
    by (simp add: reduce_apply_def op_int_def Let_def)
  let ?s3 = "?s2\<lparr>mpi_mem := v\<rparr>"
  have next1: "coll_next (post_net 0) no_fpu (?p 1) (rank_view ?c 0) = Some (BOther (?p 0), ?s3)"
    using m v by (simp add: demo_given_def type_size_def)
  let ?c2 = "noted (post_net 0) 0 (entered ?c 0) (?p 1) (rank_view ?c 0) ((rank_put 0 (BOther (?p 0)) ?s3 ?c)\<lparr>entered :=
    (entered ?c)(0 := entered ?c 0 + begun (rank_view ?c 0) ?s3)\<rparr>)"
  have step2: "?step ?c ?c2" by (rule other_advances [where Net = post_net and i = 0, OF _ _ next1]) simp_all
  let ?pc = "if all then BOther (OSend 64 1 MPI_INT [1]) else BUser MPI_SUCCESS" and ?s4 = "if all then ?s3\<lparr>coll_seq := 2\<rparr> else ?s3"
  have v2: "rank_view ?c2 0 = ?s3" by simp
  have "reduce_leave all 64 1 MPI_INT MPI_SUCCESS ?s3 = (?pc, ?s4)"
    using c(2) by (simp add: reduce_leave_def bcast_enter_def ranks_from_def rank_view_def upt_rec)
  then have next2: "coll_next (post_net 0) no_fpu (?p 0) (rank_view ?c2 0) = Some (?pc, ?s4)" unfolding v2 by simp
  let ?c3 = "noted (post_net 0) 0 (entered ?c2 0) (?p 0) (rank_view ?c2 0) ((rank_put 0 ?pc ?s4 ?c2)\<lparr>entered :=
    (entered ?c2)(0 := entered ?c2 0 + begun (rank_view ?c2 0) ?s4)\<rparr>)"
  have step3: "?step ?c2 ?c3" by (rule other_advances [where Net = post_net and i = 0, OF _ _ next2]) simp_all
  have "?step\<^sup>*\<^sup>* duo ?c3" using c(1) step1 step2 step3 by (meson rtranclp.rtrancl_into_rtrancl)
  moreover have "entered ?c3 = (\<lambda>_. 0)(1 := if all then 2 else 1, 0 := if all then 2 else 1)" using c(6) by (auto simp: begun_def)
  moreover have "results ?c3 0 1 = Some (64, 1, MPI_INT, MPI_SUM, all, v)" using c(6) results_noted [where e = 1] by (simp add: begun_def)
  moreover have "fst (args ?c3 0 1) = 0" by (simp add: rank_put_def noted_def)
  moreover have "rpcs ?c3 1 = rpcs c 1" "ranks ?c3 1 = ranks c 1" "rpcs ?c3 0 = ?pc" "ranks ?c3 0 = ?s4" by simp_all
  moreover have "world ?c3 1 = []" using w c(5) by simp
  moreover have "mpi_ready ?s4 = 1" "mpi_rank ?s4 = 0" "mpi_size ?s4 = 2" "mpi_sock ?s4 = 3" "all \<Longrightarrow> coll_seq ?s4 = 2"
    using c(2) by (simp_all add: rank_view_def)
  ultimately show ?thesis using c(7) by (intro exI [of _ ?c3] exI [of _ v] conjI impI) (simp_all only: if_True simp_thms fst_conv)
qed

theorem reduction_combines_all_witness:
  "\<exists>c m rs. reachable (cluster_initial 2 post_box) (cluster_step 2 post_net no_fpu post_box) c \<and>
     results c 0 1 = Some (64, 1, MPI_INT, MPI_SUM, False, m) \<and> set rs = {1} \<and> honest (args c 1 1) (hd (given c 1 1)) \<and>
     m = combined no_fpu 64 1 MPI_INT MPI_SUM (map (\<lambda>r. hd (given c r 1)) rs) (seeded 64 1 MPI_INT (args c 0 1))"
proof -
  from duo_reduces [of False] obtain c m where c: "(cluster_step 2 post_net no_fpu post_box)\<^sup>*\<^sup>* duo c"
    "entered c = (\<lambda>_. 0)(1 := 1, 0 := 1)" "results c 0 1 = Some (64, 1, MPI_INT, MPI_SUM, False, m)" by auto
  have r: "reachable (cluster_initial 2 post_box) (cluster_step 2 post_net no_fpu post_box) c"
    using c(1) by (rule reachable_steps [rotated]) (rule reach_init, rule duo_initial)
  have A: "{..<2} - {0} = {1 :: nat}" by auto
  have "\<forall>r<2. entered c r < 2 ^ 24" using c(2) by simp
  from reduction_combines_all [OF post_net_conserves r this _ c(3)] obtain rs where
    "set rs = {1}" "\<forall>r\<in>set rs. honest (args c r 1) (hd (given c r 1))"
    "m = combined no_fpu 64 1 MPI_INT MPI_SUM (map (\<lambda>r. hd (given c r 1)) rs) (seeded 64 1 MPI_INT (args c 0 1))"
    unfolding A by auto
  with r c(3) show ?thesis by blast
qed

theorem reduction_of_ints_witness:
  "\<exists>(c :: (nat \<Rightarrow> u8 list list) cluster) m.
     reachable (cluster_initial 2 post_box) (cluster_step 2 post_net no_fpu post_box) c \<and> results c 0 1 = Some (64, 1, MPI_INT, MPI_SUM, False, m) \<and>
     get32 m 64 = offered c 0 1 0 + offered c 1 1 0"
proof -
  from duo_reduces [of False] obtain c m where c: "(cluster_step 2 post_net no_fpu post_box)\<^sup>*\<^sup>* duo c"
    "entered c = (\<lambda>_. 0)(1 := 1, 0 := 1)" "results c 0 1 = Some (64, 1, MPI_INT, MPI_SUM, False, m)" "fst (args c 0 1) = 0" by auto
  have r: "reachable (cluster_initial 2 post_box) (cluster_step 2 post_net no_fpu post_box) c"
    using c(1) by (rule reachable_steps [rotated]) (rule reach_init, rule duo_initial)
  have small: "\<forall>r<2. entered c r < 2 ^ 24" using c(2) by simp
  have bufs: "buffers_ok 64 (fst (args c 0 1)) 1" using c(4) by (simp add: buffers_ok_def object_at_def)
  have "get32 m 64 = offered c 0 1 0 + offered c 1 1 0"
    using reduction_of_ints [OF post_net_conserves r small _ c(3) _ bufs, rule_format, of 0]
    by (simp add: upt_rec reduced_def)
  with r c(3) show ?thesis by blast
qed

end
