(* ===== verification/Neo_Mpi_Cast.thy ===== *)
theory Neo_Mpi_Cast
  imports Neo_Mpi_Fold
begin

text \<open>
  What a broadcast delivers in a whole MPI program (\<open>MPI_Bcast\<close> of \<open>src/mpi.c\<close>, the model of
  \<open>Neo_Mpi_World\<close>), and with \<open>Neo_Mpi_Fold\<close> what an all-reduce leaves at every rank.
\<close>

section \<open>The invariant\<close>

definition tag_cast :: "nat \<Rightarrow> i32" where
  "tag_cast k = coll_tag (of_nat k) COLL_BCAST"

fun is_send :: "bpc \<Rightarrow> bool" where
  "is_send (BOther (OSend buf cnt type rs)) \<longleftrightarrow> True"
| "is_send pc \<longleftrightarrow> False"

text \<open>A rank at \<open>pc\<close> in state \<open>s\<close>; \<open>x\<close> is what it has broadcast in the present collective.\<close>

fun casting :: "bpc \<Rightarrow> 'w mpi \<Rightarrow> message option \<Rightarrow> bool" where
  "casting (BOther (OSend buf cnt type rs)) s x \<longleftrightarrow>
     x = None \<or> x = Some (frame_of s buf cnt type (coll_tag (coll_seq s) COLL_BCAST))"
| "casting (BOther (ORecv buf cnt type root)) s x \<longleftrightarrow> 0 \<le> sint root"
| "casting (BOther (OGive sendbuf recvbuf cnt type root all)) s x \<longleftrightarrow> mpi_ready s \<noteq> 0"
| "casting (BOther (OTake recvbuf cnt type op all k)) s x \<longleftrightarrow> mpi_ready s \<noteq> 0"
| "casting pc s x \<longleftrightarrow> True"

text \<open>The broadcast of an all-reduce sends the result buffer as the reduction left it.\<close>

fun relays :: "bpc \<Rightarrow> 'w mpi \<Rightarrow> addr \<Rightarrow> i32 \<Rightarrow> i32 \<Rightarrow> mem \<Rightarrow> bool" where
  "relays (BOther (OSend buf cnt type rs)) s recvbuf cnt' type' m \<longleftrightarrow>
     buf = recvbuf \<and> cnt = cnt' \<and> type = type' \<and> mpi_mem s = m"
| "relays pc s recvbuf cnt' type' m \<longleftrightarrow> True"

definition cast_rank :: "bpc \<Rightarrow> nat \<Rightarrow> 'w mpi \<Rightarrow> (nat \<Rightarrow> message option) \<Rightarrow>
    (nat \<Rightarrow> (addr \<times> i32 \<times> i32 \<times> i32 \<times> bool \<times> mem) option) \<Rightarrow> bool" where
  "cast_rank pc e s K R \<longleftrightarrow> (\<forall>k>e. K k = None) \<and> (\<forall>k x. K k = Some x \<longrightarrow> length (snd x) < 2 ^ 64) \<and>
     casting pc s (K e) \<and>
     (\<forall>k recvbuf cnt type op m. R k = Some (recvbuf, cnt, type, op, True, m) \<longrightarrow>
        k < e \<and> (Suc k = e \<longrightarrow> relays pc s recvbuf cnt type m) \<and>
        (\<forall>x. K (Suc k) = Some x \<longrightarrow> snd x = payload m recvbuf cnt type))"

text \<open>Every broadcast message under way is the one its sender broadcast in that collective.\<close>

definition traced :: "nat \<Rightarrow> (nat \<Rightarrow> message multiset) \<Rightarrow> (nat \<Rightarrow> nat \<Rightarrow> message option) \<Rightarrow> bool" where
  "traced n S K \<longleftrightarrow> (\<forall>d<n. \<forall>k<2 ^ 24. \<forall>m. m \<in># S d \<longrightarrow> h_tag (fst m) = tag_cast k \<longrightarrow>
     (\<exists>r<n. h_src (fst m) = of_nat r \<and> K r k = Some m))"

definition arrives :: "nat \<Rightarrow> (nat \<Rightarrow> nat \<Rightarrow> message option) \<Rightarrow> nat \<Rightarrow> i32 \<times> addr \<times> mem \<Rightarrow> bool" where
  "arrives n K k v \<longleftrightarrow> (case v of (root, buf, m) \<Rightarrow> \<exists>r<n. \<exists>x. root = of_nat r \<and> K r k = Some x \<and> bytes_at m buf (snd x))"

definition cast_inv :: "nat \<Rightarrow> ('w \<Rightarrow> nat \<Rightarrow> u8 list multiset) \<Rightarrow> 'w cluster \<Rightarrow> bool" where
  "cast_inv n inbox c \<longleftrightarrow>
     (\<forall>i<n. cast_rank (rpcs c i) (entered c i) (ranks c i) (cast c i) (results c i)) \<and>
     ((\<forall>i<n. entered c i < 2 ^ 24) \<longrightarrow> traced n (may_receive inbox c) (cast c) \<and>
        (\<forall>d<n. \<forall>k v. delivered c d k = Some v \<longrightarrow> arrives n (cast c) k v))"

lemma cast_tags:
  "k < 2 ^ 24 \<Longrightarrow> l < 2 ^ 24 \<Longrightarrow> tag_cast k = tag_cast l \<longleftrightarrow> k = l"
  "tag_in l \<noteq> tag_cast k" "tag_out l \<noteq> tag_cast k" "coll_tag q COLL_REDUCE \<noteq> tag_cast k"
  "sint t \<le> MPI_TAG_UB \<Longrightarrow> t \<noteq> tag_cast k"
  using coll_tag_inject [of 3 3 "of_nat k" "of_nat l"] coll_tag_inject [of 1 3 "of_nat l" "of_nat k"]
    coll_tag_inject [of 2 3 "of_nat l" "of_nat k"] coll_tag_inject [of 4 3 q "of_nat k"]
    coll_tag_above(1) [of 3 "of_nat k"] take_bit_of_nat_inject [of k l]
  by (auto simp: tag_cast_def tag_in_def tag_out_def)

lemma frame_payload: "snd (frame_of s buf cnt type tag) = payload (mpi_mem s) buf cnt type"
  by (simp add: frame_of_def payload_def)

lemma payload_length: "length (payload m buf cnt type) < 2 ^ 64"
proof -
  have "unat (sext (cnt * type_size type)) < 2 ^ LENGTH(64)" by (rule unsigned_less)
  then show ?thesis by (simp add: payload_def)
qed

section \<open>Steps\<close>

lemma cast_rankD: "cast_inv n inbox c \<Longrightarrow> i < n \<Longrightarrow> cast_rank (rpcs c i) (entered c i) (ranks c i) (cast c i) (results c i)"
  by (simp add: cast_inv_def)

lemma arrives_mono: "arrives n K k v \<Longrightarrow> (\<And>r x. K r k = Some x \<Longrightarrow> K' r k = Some x) \<Longrightarrow> arrives n K' k v"
  unfolding arrives_def by (cases v) fastforce

lemma cast_step:
  assumes inv: "cast_inv n inbox c" and i: "i < n" and e: "entered c i \<le> e"
    and rank: "cast_rank pc e s K R" and mono: "\<And>k x. cast c i k = Some x \<Longrightarrow> K k = Some x"
    and trace: "\<And>j m k. j < n \<Longrightarrow> m \<in># may_receive inbox c' j \<Longrightarrow> \<forall>j<n. entered c j < 2 ^ 24 \<Longrightarrow> k < 2 ^ 24 \<Longrightarrow>
      h_tag (fst m) = tag_cast k \<Longrightarrow> m \<in># may_receive inbox c j \<or> h_src (fst m) = of_nat i \<and> K k = Some m"
    and arrive: "\<And>k v. V k = Some v \<Longrightarrow> \<forall>j<n. entered c j < 2 ^ 24 \<Longrightarrow> traced n (may_receive inbox c) (cast c) \<Longrightarrow>
      delivered c i k = Some v \<or> arrives n (cast c) k v"
    and c': "ranks c' = (ranks c)(i := s)" "rpcs c' = (rpcs c)(i := pc)" "entered c' = (entered c)(i := e)"
      "results c' = (results c)(i := R)" "cast c' = (cast c)(i := K)" "delivered c' = (delivered c)(i := V)"
  shows "cast_inv n inbox c'"
  unfolding cast_inv_def
proof (intro conjI impI allI)
  fix j assume "j < n"
  with inv rank show "cast_rank (rpcs c' j) (entered c' j) (ranks c' j) (cast c' j) (results c' j)"
    by (cases "j = i") (simp_all add: c' cast_inv_def)
next
  assume "\<forall>j<n. entered c' j < 2 ^ 24"
  then have small: "\<forall>j<n. entered c j < 2 ^ 24"
    using e unfolding c'(3) by (metis fun_upd_apply le_less_trans)
  have grow: "cast c' r k = Some x" if "cast c r k = Some x" for r k x using that mono [of k x] by (auto simp: c'(5))
  from inv small have old: "traced n (may_receive inbox c) (cast c)"
    "\<And>d k v. d < n \<Longrightarrow> delivered c d k = Some v \<Longrightarrow> arrives n (cast c) k v" unfolding cast_inv_def by blast+
  show "traced n (may_receive inbox c') (cast c')"
    unfolding traced_def
  proof (intro allI impI)
    fix d k m assume d: "d < n" "k < 2 ^ 24" and m: "m \<in># may_receive inbox c' d" "h_tag (fst m) = tag_cast k"
    from trace [OF d(1) m(1) small d(2) m(2)] show "\<exists>r<n. h_src (fst m) = of_nat r \<and> cast c' r k = Some m"
    proof
      assume "m \<in># may_receive inbox c d"
      with old(1) d m(2) grow show ?thesis unfolding traced_def by blast
    next
      assume "h_src (fst m) = of_nat i \<and> K k = Some m"
      with i show ?thesis by (intro exI [of _ i]) (simp add: c'(5))
    qed
  qed
  fix d k v assume "d < n" "delivered c' d k = Some v"
  then have "arrives n (cast c) k v"
    using old(2) [of d k v] arrive [of k v, OF _ small old(1)] unfolding c'(6) by (cases "d = i") auto
  then show "arrives n (cast c') k v" by (rule arrives_mono) (rule grow)
qed

lemma cast_rank_result:
  "cast_rank pc e s K R \<Longrightarrow> R k = Some (recvbuf, cnt, type, op, True, m) \<Longrightarrow>
     k < e \<and> (Suc k = e \<longrightarrow> relays pc s recvbuf cnt type m) \<and> (\<forall>x. K (Suc k) = Some x \<longrightarrow> snd x = payload m recvbuf cnt type)"
  unfolding cast_rank_def by blast

lemma cast_rank_length: "cast_rank pc e s K R \<Longrightarrow> K k = Some x \<Longrightarrow> length (snd x) < 2 ^ 64"
  unfolding cast_rank_def by blast

lemma cast_rank_next:
  assumes "cast_rank pc0 e0 s0 K R" and "e0 \<le> e" and "casting pc s None" and "is_send pc \<Longrightarrow> e0 < e"
  shows "cast_rank pc e s K R"
proof -
  have other: "casting pc s x \<longleftrightarrow> casting pc s None" "relays pc s recvbuf cnt type m" if "\<not> is_send pc" for x recvbuf cnt type m
    using that by (cases pc rule: is_send.cases; simp)+
  have K: "\<forall>k>e0. K k = None" "\<forall>k x. K k = Some x \<longrightarrow> length (snd x) < 2 ^ 64"
    by (rule conjunct1 [OF assms(1) [unfolded cast_rank_def]],
        rule conjunct1 [OF conjunct2 [OF assms(1) [unfolded cast_rank_def]]])
  have casting: "casting pc s (K e)"
  proof (cases "is_send pc")
    case True
    with assms(4) K(1) have "K e = None" by blast
    with assms(3) show ?thesis by simp
  qed (use other(1) [of "K e"] assms(3) in blast)
  have relay: "relays pc s recvbuf cnt type m" if "k < e0" "Suc k = e" for k recvbuf cnt type m
    using that assms(4) other(2) by (cases "is_send pc") fastforce+
  have "k < e \<and> (Suc k = e \<longrightarrow> relays pc s recvbuf cnt type m) \<and> (\<forall>x. K (Suc k) = Some x \<longrightarrow> snd x = payload m recvbuf cnt type)"
    if "R k = Some (recvbuf, cnt, type, op, True, m)" for k recvbuf cnt type op m
    using cast_rank_result [OF assms(1) that] assms(2) relay [of k recvbuf cnt type m] by simp
  with casting K assms(2) show ?thesis unfolding cast_rank_def by simp
qed

lemma cast_quiet:
  assumes "cast_inv n inbox c" and "i < n" and "entered c i \<le> e" and "casting pc s None" and "is_send pc \<Longrightarrow> entered c i < e"
    and "\<And>k. h_tag (fst m) \<noteq> tag_cast k"
    and "\<And>j. j < n \<Longrightarrow> may_receive inbox (rank_put i pc s c) j \<subseteq># may_receive inbox c j + (if Q j then {#m#} else {#})"
  shows "cast_inv n inbox ((rank_put i pc s c)\<lparr>entered := (entered c)(i := e)\<rparr>)"
proof (rule cast_step [OF assms(1-3), where V = "delivered c i"])
  show "cast_rank pc e s (cast c i) (results c i)"
    by (rule cast_rank_next [OF cast_rankD [OF assms(1,2)] assms(3-5)])
  show "x \<in># may_receive inbox c j \<or> h_src (fst x) = of_nat i \<and> cast c i k = Some x"
    if "j < n" "x \<in># may_receive inbox ((rank_put i pc s c)\<lparr>entered := (entered c)(i := e)\<rparr>) j" "h_tag (fst x) = tag_cast k" for j x k
    using mset_subset_eqD [OF assms(7) [OF that(1)], of x] that(2,3) assms(6) [of k] by (auto split: if_splits)
qed (simp_all add: rank_put_def)

lemma cast_quiet_shrink:
  assumes "cast_inv n inbox c" and "i < n" and "entered c i \<le> e" and "casting pc s None" and "is_send pc \<Longrightarrow> entered c i < e"
    and "\<And>j. j < n \<Longrightarrow> may_receive inbox (rank_put i pc s c) j \<subseteq># may_receive inbox c j"
  shows "cast_inv n inbox ((rank_put i pc s c)\<lparr>entered := (entered c)(i := e)\<rparr>)"
  by (rule cast_quiet [OF assms(1-5), of "(\<lparr>h_src = 0, h_tag = 0, h_count = 0, h_type = 0\<rparr>, [])" "\<lambda>_. False"])
    (use assms(6) cast_tags(5) [of 0] in simp_all)

lemma cast_history [simp]:
  "cast_inv n inbox (c\<lparr>left := l\<rparr>) = cast_inv n inbox c"
  "cast_inv n inbox (c\<lparr>entered := e, args := z\<rparr>) = cast_inv n inbox (c\<lparr>entered := e\<rparr>)"
  by (simp_all add: cast_inv_def)

lemma cast_noted_none [simp]:
  assumes "\<And>r. result_at p s r = r" and "\<And>x. casts p s x = x" and "\<And>x. delivers N p s x = x"
  shows "cast_inv n inbox (noted N i e p s c) = cast_inv n inbox c"
proof -
  have "results (noted N i e p s c) = results c" "cast (noted N i e p s c) = cast c" "delivered (noted N i e p s c) = delivered c"
    using assms by (simp_all add: noted_def)
  then show ?thesis by (simp add: cast_inv_def)
qed

text \<open>Beginning a collective.\<close>

lemma enter_casting:
  "bcast_enter buf cnt type root comm s = (pc, s') \<Longrightarrow> casting pc s' None \<and> (is_send pc \<longrightarrow> begun s s' = 1)"
  "reduce_enter sendbuf recvbuf cnt type op root comm all s = (pc, s') \<Longrightarrow> casting pc s' None \<and> \<not> is_send pc"
  "reduce_leave all recvbuf cnt type rc s = (pc, s') \<Longrightarrow> casting pc s' None \<and> (is_send pc \<longrightarrow> begun s s' = 1)"
proof -
  show b: "casting pc s' None \<and> (is_send pc \<longrightarrow> begun s s' = 1)" if "bcast_enter buf cnt type root comm s = (pc, s')"
    for buf cnt type root comm
    using that by (auto simp: bcast_enter_def begun_def split: if_splits)
  show "casting pc s' None \<and> (is_send pc \<longrightarrow> begun s s' = 1)" if "reduce_leave all recvbuf cnt type rc s = (pc, s')"
    using that b by (auto simp: reduce_leave_def split: if_splits)
qed (auto simp: reduce_enter_def split: if_splits)

text \<open>The root of a broadcast sends the same message to every rank.\<close>

lemma frame_same: "mpi_rank s' = mpi_rank s \<Longrightarrow> mpi_mem s' = mpi_mem s \<Longrightarrow> frame_of s' buf cnt type tag = frame_of s buf cnt type tag"
  by (simp add: frame_of_def)

lemma MPI_Send_mem: "MPI_Send N buf cnt type dest tag comm s = Some (rc, s') \<Longrightarrow> mpi_mem s' = mpi_mem s"
  by (erule MPI_Send_outcome) simp_all

lemma cast_rank_sends:
  assumes rank: "cast_rank (BOther (OSend buf cnt type (r # rs))) e s0 K R"
    and same: "mpi_rank s = mpi_rank s0" "mpi_mem s = mpi_mem s0" "coll_seq s = coll_seq s0"
    and m: "m = frame_of s buf cnt type (coll_tag (coll_seq s) COLL_BCAST)"
    and pc: "pc = BUser rc \<or> pc = BOther (OSend buf cnt type rs)"
  shows "cast_rank pc e s (K(e := Some m)) R" and "K k = Some x \<Longrightarrow> (K(e := Some m)) k = Some x"
proof -
  show "(K(e := Some m)) k = Some x" if "K k = Some x"
    using that rank frame_same [OF same(1,2)] m same(3) by (auto simp: cast_rank_def)
  show "cast_rank pc e s (K(e := Some m)) R"
    unfolding cast_rank_def
  proof (intro conjI allI impI)
    fix k recvbuf cnt' type' op v assume "R k = Some (recvbuf, cnt', type', op, True, v)"
    from cast_rank_result [OF rank this] have k: "k < e" "Suc k = e \<longrightarrow> (buf, cnt, type, mpi_mem s) = (recvbuf, cnt', type', v)"
      "\<forall>x. K (Suc k) = Some x \<longrightarrow> snd x = payload v recvbuf cnt' type'" using same by auto
    show "k < e" "Suc k = e \<Longrightarrow> relays pc s recvbuf cnt' type' v" using k(1,2) pc by auto
    show "snd x = payload v recvbuf cnt' type'" if "(K(e := Some m)) (Suc k) = Some x" for x
      using that k(2,3) by (cases "Suc k = e") (auto simp: m frame_payload)
  next
    show "length (snd x) < 2 ^ 64" if "(K(e := Some m)) k = Some x" for k x
      using that cast_rank_length [OF rank, of k x] payload_length by (cases "k = e") (auto simp: m frame_payload)
  qed (use rank pc m in \<open>auto simp: cast_rank_def\<close>)
qed

lemma cast_sends:
  assumes net: "datagrams_conserved n Net inbox" and inv: "cluster_inv n inbox c" and ca: "cast_inv n inbox c" and i: "i < n"
    and pc0: "rpcs c i = BOther p" "p = OSend buf cnt type (r # rs)"
    and step: "coll_next (Net i) F p (rank_view c i) = Some (pc, s)"
  shows "cast_inv n inbox (noted (Net i) i (entered c i) p (rank_view c i)
    ((rank_put i pc s c)\<lparr>entered := (entered c)(i := entered c i + begun (rank_view c i) s)\<rparr>))"
proof -
  let ?e = "entered c i" and ?tag = "coll_tag (coll_seq (rank_view c i)) COLL_BCAST"
  let ?m = "frame_of (rank_view c i) buf cnt type ?tag"
  note ok = inv_rank [OF inv i] and rank = cast_rankD [OF ca i, unfolded pc0]
  have n: "n \<le> 16" using inv by (simp add: cluster_inv_def)
  from step pc0 obtain rc where send: "MPI_Send (Net i) buf cnt type r ?tag MPI_COMM_WORLD (rank_view c i) = Some (rc, s)" and
    pc: "pc = BUser rc \<or> pc = BOther (OSend buf cnt type rs)" by (auto split: option.splits prod.splits if_splits)
  from MPI_Send_setup [OF send] MPI_Send_mem [OF send] have same: "mpi_rank s = mpi_rank (ranks c i)" "mpi_mem s = mpi_mem (ranks c i)"
    "coll_seq s = coll_seq (ranks c i)" by (simp_all add: same_setup_def rank_view_def)
  from sent [OF net i ok n send] have S: "\<And>j pc. j < n \<Longrightarrow> may_receive inbox (rank_put i pc s c) j \<subseteq>#
       may_receive inbox c j + (if r = of_nat j then {#?m#} else {#})" by blast
  have m: "?m = frame_of s buf cnt type (coll_tag (coll_seq s) COLL_BCAST)" "h_src (fst ?m) = of_nat i" "h_tag (fst ?m) = tag_cast ?e"
    using same ok by (simp_all add: frame_of_def tag_cast_def rank_ok_def rank_view_def)
  note next_ = cast_rank_sends [OF rank same m(1) pc]
  show ?thesis
  proof (rule cast_step [where V = "delivered c i" and K = "(cast c i)(?e := Some ?m)", OF ca i _ next_])
    show "x \<in># may_receive inbox c j \<or> h_src (fst x) = of_nat i \<and> ((cast c i)(?e := Some ?m)) k = Some x"
      if "j < n" "x \<in># may_receive inbox (noted (Net i) i ?e p (rank_view c i)
        ((rank_put i pc s c)\<lparr>entered := (entered c)(i := ?e + begun (rank_view c i) s)\<rparr>)) j"
        "\<forall>j<n. entered c j < 2 ^ 24" "k < 2 ^ 24" "h_tag (fst x) = tag_cast k" for j x k
    proof -
      have "x \<in># may_receive inbox c j \<or> x = ?m" using mset_subset_eqD [OF S [OF that(1), of pc], of x] that(2) by (auto split: if_splits)
      moreover have "k = ?e" if "x = ?m" using that m(3) cast_tags(1) [of ?e k] \<open>k < 2 ^ 24\<close> \<open>\<forall>j<n. _\<close> i \<open>h_tag (fst x) = _\<close> by simp
      ultimately show ?thesis using m(2) by auto
    qed
  qed (use pc0 same in \<open>simp_all add: noted_def rank_put_def begun_def\<close>)
qed

lemma MPI_Recv_success:
  assumes "datagrams_conserved n Net inbox" and "i < n" and "rank_ok n i e (ranks c i)"
    and "MPI_Recv (Net i) buf cnt type source tag comm status (rank_view c i) = Some (MPI_SUCCESS, st, s)"
  obtains m where "m \<in># may_receive inbox c i" "msg_wanted (source, tag) m" "\<exists>v. mpi_mem s = store_bytes v buf (snd m)"
proof -
  from assms(4) have "(\<exists>m s1. recv_match (Net i) source tag (rank_view c i) = Some (Inr m, s1) \<and>
      mpi_mem s = store_bytes (mpi_mem s1) buf (snd m)) \<or> (\<exists>s1. recv_match (Net i) source tag (rank_view c i) = Some (Inl MPI_SUCCESS, s1))"
    by (auto simp: MPI_Recv_def Let_def split: if_splits option.splits sum.splits prod.splits)
  moreover have wf: "queue_wf (mpi_pending (rank_view c i))" using assms(3) by (simp add: rank_ok_def)
  have "e \<noteq> MPI_SUCCESS" if "recv_match (Net i) source tag (rank_view c i) = Some (Inl e, s1)" for e s1
    using recv_match_conserves [OF assms(1,2) wf that] by (simp add: recv_conserves_def)
  ultimately obtain m s1 where m: "recv_match (Net i) source tag (rank_view c i) = Some (Inr m, s1)"
    "mpi_mem s = store_bytes (mpi_mem s1) buf (snd m)" by blast
  from matched(3) [OF assms(1-3) m(1) refl, of undefined] have "msg_wanted (source, tag) m" "m \<in># may_receive inbox c i"
    by (auto dest: mset_subset_eqD)
  with m(2) that show thesis by blast
qed

lemma cast_receives:
  assumes net: "datagrams_conserved n Net inbox" and inv: "cluster_inv n inbox c" and ca: "cast_inv n inbox c" and i: "i < n"
    and pc0: "rpcs c i = BOther p" "p = ORecv buf cnt type root"
    and step: "coll_next (Net i) F p (rank_view c i) = Some (pc, s)"
  shows "cast_inv n inbox (noted (Net i) i (entered c i) p (rank_view c i)
    ((rank_put i pc s c)\<lparr>entered := (entered c)(i := entered c i + begun (rank_view c i) s)\<rparr>))"
proof -
  let ?e = "entered c i" and ?tag = "coll_tag (coll_seq (rank_view c i)) COLL_BCAST"
  note ok = inv_rank [OF inv i] and rank = cast_rankD [OF ca i]
  have tag: "?tag = tag_cast ?e" using ok by (simp add: rank_ok_def tag_cast_def)
  have root: "0 \<le> sint root" using rank pc0 by (simp add: cast_rank_def)
  from step pc0 obtain rc st where recv: "MPI_Recv (Net i) buf cnt type root ?tag MPI_COMM_WORLD False (rank_view c i) = Some (rc, st, s)"
    and pc: "pc = BUser rc" by (auto split: option.splits prod.splits)
  let ?V = "(delivered c i)(?e := if rc = MPI_SUCCESS then Some (root, buf, mpi_mem s) else delivered c i ?e)"
  have arrived: "arrives n (cast c) ?e (root, buf, mpi_mem s)"
    if "rc = MPI_SUCCESS" and small: "\<forall>j<n. entered c j < 2 ^ 24" and traced: "traced n (may_receive inbox c) (cast c)"
  proof -
    from MPI_Recv_success [OF net i ok recv [unfolded that(1)]] obtain m v where
      m: "m \<in># may_receive inbox c i" "msg_wanted (root, ?tag) m" "mpi_mem s = store_bytes v buf (snd m)" by blast
    have t: "h_tag (fst m) = tag_cast ?e" using barrier_wanted [OF m(2)] tag by simp
    with traced i small m(1) obtain r where r: "r < n" "h_src (fst m) = of_nat r" "cast c r ?e = Some m" unfolding traced_def by blast
    have "root = of_nat r" using m(2) r(2) root by (auto simp: msg_wanted_def matches_def split: if_splits)
    moreover have "bytes_at (mpi_mem s) buf (snd m)"
      using cast_rank_length [OF cast_rankD [OF ca r(1)] r(3)] unfolding m(3) by (intro bytes_at_store) simp
    ultimately show ?thesis using r unfolding arrives_def prod.case by blast
  qed
  show ?thesis
  proof (rule cast_step [where V = ?V, OF ca i _ cast_rank_next [OF rank]])
    show "delivered c i k = Some v \<or> arrives n (cast c) k v"
      if "?V k = Some v" "\<forall>j<n. entered c j < 2 ^ 24" "traced n (may_receive inbox c) (cast c)" for k v
      using that arrived by (auto split: if_splits)
    show "x \<in># may_receive inbox c j \<or> h_src (fst x) = of_nat i \<and> cast c i k = Some x"
      if "j < n" "x \<in># may_receive inbox (noted (Net i) i ?e p (rank_view c i)
        ((rank_put i pc s c)\<lparr>entered := (entered c)(i := ?e + begun (rank_view c i) s)\<rparr>)) j" for j x k
      using mset_subset_eqD [OF received(2) [OF net i ok recv that(1), of pc], of x] that(2) by simp
  qed (use pc0 pc recv in \<open>simp_all add: noted_def rank_put_def\<close>)
qed

lemma cast_finishes:
  assumes inv: "cluster_inv n inbox c" and ca: "cast_inv n inbox c" and i: "i < n"
    and pc0: "rpcs c i = BOther p" "p = OTake recvbuf cnt type op all 0"
    and step: "coll_next N F p (rank_view c i) = Some (pc, s)"
  shows "cast_inv n inbox (noted N i (entered c i) p (rank_view c i)
    ((rank_put i pc s c)\<lparr>entered := (entered c)(i := entered c i + begun (rank_view c i) s)\<rparr>))"
proof -
  let ?e = "entered c i"
  let ?R = "(results c i)(?e := Some (recvbuf, cnt, type, op, all, mpi_mem (ranks c i)))"
  note ok = inv_rank [OF inv i] and rank = cast_rankD [OF ca i]
  from step pc0 have leave: "reduce_leave all recvbuf cnt type MPI_SUCCESS (rank_view c i) = (pc, s)" by simp
  note same = moved_ok(3) [OF conjunct2 [OF enter_moves(3) [OF leave]], of n i ?e]
  have "mpi_ready (ranks c i) \<noteq> 0" using rank pc0 by (simp add: cast_rank_def)
  moreover have "0 < sint (of_nat n :: i32)" using inv by (subst sint_of_nat_small) (simp_all add: cluster_inv_def)
  ultimately have all: "begun (rank_view c i) s = 1 \<and> relays pc s recvbuf cnt type (mpi_mem (ranks c i))" if "all"
    using that leave ok by (auto simp: reduce_leave_def bcast_enter_def begun_def rank_ok_def rank_view_def split: if_splits)
  note next_ = cast_rank_next [OF rank, of "?e + begun (rank_view c i) s" pc s]
  have none: "cast c i (Suc ?e) = None" using rank by (simp add: cast_rank_def)
  show ?thesis
  proof (rule cast_step [where V = "delivered c i" and K = "cast c i", OF ca i])
    show "cast_rank pc (?e + begun (rank_view c i) s) s (cast c i) ?R"
    proof (cases all)
      case True
      with all next_ enter_casting(3) [OF leave] none show ?thesis by (auto simp: cast_rank_def)
    next
      case False
      with next_ enter_casting(3) [OF leave] show ?thesis by (auto simp: cast_rank_def)
    qed
    show "x \<in># may_receive inbox c j \<or> h_src (fst x) = of_nat i \<and> cast c i k = Some x"
      if "x \<in># may_receive inbox (noted N i ?e p (rank_view c i)
        ((rank_put i pc s c)\<lparr>entered := (entered c)(i := ?e + begun (rank_view c i) s)\<rparr>)) j" for j x k
      using that same ok by simp
  qed (use pc0 in \<open>simp_all add: noted_def rank_put_def rank_view_def\<close>)
qed

lemma begun_same: "coll_seq s1 = coll_seq s0 \<Longrightarrow> begun s0 s = begun s1 s"
  by (simp add: begun_def)

lemma take_casting:
  assumes "coll_next N F (OTake recvbuf cnt type op all (Suc k)) s0 = Some (pc, s)"
    and "recv_match N MPI_ANY_SOURCE (coll_tag (coll_seq s0) COLL_REDUCE) s0 = Some (r, s1)" and "mpi_ready s1 \<noteq> 0"
  shows "seq_moved s1 s" and "casting pc s None \<and> (is_send pc \<longrightarrow> begun s1 s = 1)"
proof -
  show "seq_moved s1 s" using assms by (auto simp: Let_def seq_moved_intros dest!: enter_moves(3) seq_moved_mem
        split: sum.splits prod.splits if_splits)
  have mem: "begun (s1\<lparr>mpi_mem := v\<rparr>) s = begun s1 s" for v by (simp add: begun_def)
  show "casting pc s None \<and> (is_send pc \<longrightarrow> begun s1 s = 1)"
    using assms by (auto simp: Let_def mem dest!: enter_casting(3) split: sum.splits prod.splits if_splits)
qed

lemma cast_other:
  assumes net: "datagrams_conserved n Net inbox" and inv: "cluster_inv n inbox c" and ca: "cast_inv n inbox c" and i: "i < n"
    and pc0: "rpcs c i = BOther p" and step: "coll_next (Net i) F p (rank_view c i) = Some (pc, s)"
  shows "cast_inv n inbox (noted (Net i) i (entered c i) p (rank_view c i)
    ((rank_put i pc s c)\<lparr>entered := (entered c)(i := entered c i + begun (rank_view c i) s)\<rparr>))"
proof -
  note ok = inv_rank [OF inv i]
  have n: "n \<le> 16" using inv by (simp add: cluster_inv_def)
  show ?thesis
  proof (cases p)
    case (OSend buf cnt type rs)
    show ?thesis
    proof (cases rs)
      case Nil
      with OSend step ca i show ?thesis by (auto intro!: cast_quiet_shrink)
    next
      case (Cons r rs')
      with OSend show ?thesis by (intro cast_sends [OF net inv ca i pc0 _ step]) simp
    qed
  next
    case (ORecv buf cnt type root)
    then show ?thesis by (rule cast_receives [OF net inv ca i pc0 _ step])
  next
    case (OGive sendbuf recvbuf cnt type root all)
    with step obtain rc s1 where
      send: "MPI_Send (Net i) sendbuf cnt type root (coll_tag (coll_seq (rank_view c i)) COLL_REDUCE) MPI_COMM_WORLD (rank_view c i) =
        Some (rc, s1)" and leave: "reduce_leave all recvbuf cnt type rc s1 = (pc, s)" by (auto split: option.splits prod.splits)
    from sent [OF net i ok n send] obtain m where m: "rank_ok n i (entered c i) s1" "h_tag (fst m) = coll_tag (coll_seq (rank_view c i)) COLL_REDUCE"
      "\<And>j pc. j < n \<Longrightarrow> may_receive inbox (rank_put i pc s1 c) j \<subseteq>#
         may_receive inbox c j + (if root = of_nat j then {#m#} else {#})" by blast
    have b: "begun (rank_view c i) s = begun s1 s"
      using MPI_Send_setup [OF send] by (intro begun_same) (simp add: same_setup_def)
    have "cast_inv n inbox ((rank_put i pc s c)\<lparr>entered := (entered c)(i := entered c i + begun (rank_view c i) s)\<rparr>)"
      by (rule cast_quiet [where Q = "\<lambda>j. root = of_nat j" and m = m, OF ca i])
        (use m(2,3) enter_casting(3) [OF leave] cast_tags(4) moved_ok(3) [OF conjunct2 [OF enter_moves(3) [OF leave]] m(1)] b in simp_all)
    with OGive show ?thesis by simp
  next
    case (OTake recvbuf cnt type op all k)
    show ?thesis
    proof (cases k)
      case 0
      with OTake show ?thesis by (intro cast_finishes [OF inv ca i pc0 _ step]) simp
    next
      case (Suc k')
      with OTake step obtain r s1 where
        m: "recv_match (Net i) MPI_ANY_SOURCE (coll_tag (coll_seq (rank_view c i)) COLL_REDUCE) (rank_view c i) = Some (r, s1)"
        by (auto split: option.splits)
      note got = matched [OF net i ok m] and same = recv_match_setup [OF m]
      have "mpi_ready (ranks c i) \<noteq> 0" using cast_rankD [OF ca i] pc0 OTake by (simp add: cast_rank_def)
      then have "mpi_ready s1 \<noteq> 0" using same by (simp add: same_setup_def rank_view_def)
      note t = take_casting [OF step [unfolded OTake Suc] m this]
      have b: "begun (rank_view c i) s = begun s1 s" using same by (intro begun_same) (simp add: same_setup_def)
      have "cast_inv n inbox ((rank_put i pc s c)\<lparr>entered := (entered c)(i := entered c i + begun (rank_view c i) s)\<rparr>)"
        by (rule cast_quiet_shrink [OF ca i]) (use t(2) b got(2) moved_ok(3) [OF t(1) got(1)] in simp_all)
      with OTake Suc show ?thesis by simp
    qed
  qed
qed

lemma casting_other: "\<forall>p. pc \<noteq> BOther p \<Longrightarrow> casting pc s None \<and> \<not> is_send pc"
  by (cases pc) simp_all

lemma cast_inv_step:
  assumes net: "datagrams_conserved n Net inbox" and "cluster_step n Net F inbox c c'"
    and inv: "cluster_inv n inbox c" and ca: "cast_inv n inbox c"
  shows "cast_inv n inbox c'"
  using assms(2)
proof cases
  case (enters i tok comm pc s)
  have "may_receive inbox (rank_put i pc s c) = may_receive inbox c" "\<forall>p. pc \<noteq> BOther p"
    using enters(4) by (auto simp: barrier_enter_def may_receive_def fun_eq_iff split: if_splits)
  with enters casting_other show ?thesis by (auto intro!: cast_quiet_shrink [OF ca])
next
  case (enters_bcast i buf cnt type root comm pc s)
  have "may_receive inbox (rank_put i pc s c) = may_receive inbox c"
    using enters_bcast(4) by (auto simp: bcast_enter_def may_receive_def fun_eq_iff split: if_splits)
  with enters_bcast enter_casting(1) [OF enters_bcast(4)] show ?thesis by (auto intro!: cast_quiet_shrink [OF ca])
next
  case (enters_reduce i sendbuf recvbuf cnt type op root comm all pc s)
  have "may_receive inbox (rank_put i pc s c) = may_receive inbox c"
    using enters_reduce(4) by (auto simp: reduce_enter_def may_receive_def fun_eq_iff split: if_splits)
  with enters_reduce enter_casting(2) [OF enters_reduce(4)] show ?thesis by (auto intro!: cast_quiet_shrink [OF ca])
next
  case (other_advances i p pc s)
  with cast_other [OF net inv ca] show ?thesis by simp
next
  case (advances i pc s)
  obtain m Q k where
    m: "\<forall>p. pc \<noteq> BOther p" "h_tag (fst m) = tag_in k \<or> h_tag (fst m) = tag_out k"
    "\<And>j. j < n \<Longrightarrow> may_receive inbox (rank_put i pc s c) j \<subseteq># may_receive inbox c j + (if Q j then {#m#} else {#})"
    by (rule barrier_call_effect [OF net inv advances(2,3)], rule that, assumption+)
  have tag: "h_tag (fst m) \<noteq> tag_cast l" for l using m(2) cast_tags(2,3) by auto
  from cast_quiet [OF ca advances(2) _ _ _ tag m(3), of "entered c i"] casting_other [OF m(1), of s] advances(1) show ?thesis by simp
next
  case (user_sends i tag buf cnt type dest comm rc s)
  have "n \<le> 16" using inv by (simp add: cluster_inv_def)
  from sent [OF net user_sends(2) inv_rank [OF inv user_sends(2)] this user_sends(6)] obtain m where
    m: "h_tag (fst m) = tag" "\<And>j pc. j < n \<Longrightarrow> may_receive inbox (rank_put i pc s c) j \<subseteq>#
       may_receive inbox c j + (if dest = of_nat j then {#m#} else {#})" by blast
  from cast_quiet [where s = s and Q = "\<lambda>j. dest = of_nat j", OF ca user_sends(2), of "entered c i" "BUser rc" m]
    m cast_tags(5) [OF user_sends(5)] user_sends(1) show ?thesis by simp
next
  case (user_receives i buf cnt type source tag comm status rc st s)
  note got = received [OF net user_receives(2) inv_rank [OF inv user_receives(2)] user_receives(4)]
  from cast_quiet_shrink [OF ca user_receives(2) _ _ _ got(2), of "entered c i" "BUser rc"] user_receives(1) show ?thesis by simp
next
  case (user_computes i rc m)
  have "may_receive inbox (rank_put i (BUser rc) ((rank_view c i)\<lparr>mpi_mem := m\<rparr>) c) = may_receive inbox c"
    by (simp add: may_receive_def fun_eq_iff)
  with cast_quiet_shrink [OF ca user_computes(2), of "entered c i" "BUser rc" "(rank_view c i)\<lparr>mpi_mem := m\<rparr>"] user_computes(1)
  show ?thesis by simp
next
  case (network_loses w')
  have "x \<in># may_receive inbox c j" if "x \<in># may_receive inbox c' j" for x j
    using mset_subset_eqD [OF decoded_mono [OF network_loses(2) [of j]], of x] that network_loses(1)
    by (auto simp: may_receive_def stock_def)
  then have "traced n (may_receive inbox c') (cast c)" if "traced n (may_receive inbox c) (cast c)"
    using that unfolding traced_def by blast
  with ca network_loses(1) show ?thesis by (simp add: cast_inv_def)
qed

interpretation mpi_broadcasts: invariant_system "cluster_initial n inbox" "cluster_step n Net F inbox"
    "\<lambda>c. datagrams_conserved n Net inbox \<longrightarrow> cluster_inv n inbox c \<and> cast_inv n inbox c" for n inbox Net F
proof
  fix c :: "'a cluster"
  assume c: "cluster_initial n inbox c"
  have "traced n (may_receive inbox c) (cast c)"
    using initial_untagged [OF c, where b = 3] by (simp add: traced_def tag_cast_def)
  moreover have "casting (rpcs c i) (ranks c i) None" if "i < n" for i
    using c that by (cases "rpcs c i") (auto simp: cluster_initial_def)
  ultimately have "cast_inv n inbox c"
    using c by (simp add: cast_inv_def cast_rank_def cluster_initial_def)
  with mpi_cluster.inv_init [OF c] show "datagrams_conserved n Net inbox \<longrightarrow> cluster_inv n inbox c \<and> cast_inv n inbox c"
    by blast
qed (use cluster_step_inv cast_inv_step in blast)

section \<open>Properties\<close>

lemma delivery:
  assumes "datagrams_conserved n Net inbox" and "reachable (cluster_initial n inbox) (cluster_step n Net F inbox) c"
    and "\<forall>r<n. entered c r < 2 ^ 24" and "d < n" and "delivered c d k = Some (root, buf, m)"
  shows "\<exists>r<n. \<exists>x. root = of_nat r \<and> cast c r k = Some x \<and> bytes_at m buf (snd x)"
proof -
  have "cast_inv n inbox c" using mpi_broadcasts.reachable_inv [OF assms(2)] assms(1) by blast
  with assms(3-5) have "arrives n (cast c) k (root, buf, m)" unfolding cast_inv_def by blast
  then show ?thesis unfolding arrives_def prod.case .
qed

lemma bytes_at_get32:
  assumes "bytes_at m' buf (load_bytes m a (4 * l))" and "j < l"
  shows "get32 m' (buf + of_nat (4 * j)) = get32 m (a + of_nat (4 * j))"
proof -
  have eq: "m' (buf + of_nat (4 * j + t)) = m (a + of_nat (4 * j + t))" if "t < 4" for t
    using assms that by (simp add: bytes_at_nth load_bytes_nth del: of_nat_add of_nat_mult)
  have "load_bytes m' (buf + of_nat (4 * j)) 4 = load_bytes m (a + of_nat (4 * j)) 4"
  proof (rule nth_equalityI)
    fix t assume "t < length (load_bytes m' (buf + of_nat (4 * j)) 4)"
    then have "t < 4" by simp
    with eq [OF this] show "load_bytes m' (buf + of_nat (4 * j)) 4 ! t = load_bytes m (a + of_nat (4 * j)) 4 ! t"
      by (simp only: load_bytes_nth of_nat_add add.assoc)
  qed simp
  then show ?thesis by (simp only: get32_def)
qed

text \<open>
  C26. A broadcast delivers the root's bytes of this collective. Up to sixteen ranks run any interleaving of collectives,
  sends, receives and computation over a network that may lose, delay and reorder datagrams. When rank \<open>d\<close> has
  received the broadcast from \<open>root\<close> that is its \<open>k\<close>-th collective, that rank has sent a broadcast in its own
  \<open>k\<close>-th collective, and the buffer of \<open>d\<close> holds the bytes of it.
\<close>

theorem broadcast_is_the_roots:
  assumes "datagrams_conserved n Net inbox" and "reachable (cluster_initial n inbox) (cluster_step n Net F inbox) c"
    and "\<forall>r<n. entered c r < 2 ^ 24" and "d < n" and "delivered c d k = Some (root, buf, m)"
  shows "\<exists>r<n. \<exists>x. root = of_nat r \<and> cast c r k = Some x \<and> bytes_at m buf (snd x)"
  by (rule delivery [OF assms])

text \<open>
  C8. An all-reduce leaves the reduction of all ranks at every rank. In the same runs, let rank 0 have the result of the
  reduction of an all-reduce of \<open>MPI_INT\<close> in its \<open>k\<close>-th collective. A rank that has received the broadcast from
  rank 0 that is its collective \<open>k + 1\<close> holds in each element of its buffer the sum, product, maximum or minimum (as
  rank 0 asked) of that element of the send buffers with which all ranks, rank 0 among them, called their \<open>k\<close>-th
  collective, as the buffers were at the call. The size of the buffers in bytes is within an \<open>int\<close>, and rank 0's two
  buffers are such that \<open>memcpy\<close> may copy one to the other.
\<close>

theorem allreduce_everywhere:
  assumes run: "datagrams_conserved n Net inbox" "reachable (cluster_initial n inbox) (cluster_step n Net F inbox) c"
      "\<forall>r<n. entered c r < 2 ^ 24"
    and d: "d < n" and res: "results c 0 k = Some (recvbuf, cnt, MPI_INT, op, True, m)"
    and cnt: "sint cnt < 2 ^ 29" and bufs: "buffers_ok recvbuf (fst (args c 0 k)) cnt"
    and got: "delivered c d (Suc k) = Some (0, buf, m')"
  shows "\<forall>j<nat (sint cnt). reduced op (map (\<lambda>r. offered c r k j) [0..<n]) (get32 m' (buf + of_nat (4 * j)))"
proof (intro allI impI)
  fix j assume j: "j < nat (sint cnt)"
  have n: "0 < n" "n \<le> 16" and inv: "cast_inv n inbox c"
    using mpi_broadcasts.reachable_inv [OF run(2)] run(1) by (auto simp: cluster_inv_def)
  from delivery [OF run d got] obtain r x where x: "r < n" "(0 :: i32) = of_nat r" "cast c r (Suc k) = Some x" "bytes_at m' buf (snd x)" by blast
  have "sint (of_nat r :: i32) = int r" using x(1) n by (intro sint_of_nat_small) simp
  with x(2) have "r = 0" by simp
  with cast_rank_result [OF cast_rankD [OF inv n(1)] res] x(3) have p: "snd x = payload m recvbuf cnt MPI_INT" by blast
  then have "snd x = load_bytes m recvbuf (4 * nat (sint cnt))" using int_bytes [OF cnt j] by (simp add: payload_def type_size_def)
  with x(4) have "get32 m' (buf + of_nat (4 * j)) = get32 m (recvbuf + of_nat (4 * j))" using bytes_at_get32 [OF _ j] by metis
  then show "reduced op (map (\<lambda>r. offered c r k j) [0..<n]) (get32 m' (buf + of_nat (4 * j)))"
    using reduction_ints [OF run n(1) res cnt bufs j] by (simp only:)
qed

text \<open>The two ranks of \<open>duo\<close> in an all-reduce: rank 0 broadcasts its result and rank 1 receives it.\<close>

lemma delivered_noted [simp]: "delivered (noted N i e p s c) i e = delivers N p s (delivered c i e)"
  and results_noted_other: "i \<noteq> j \<Longrightarrow> results (noted N i e p s c) j = results c j"
  by (simp_all add: noted_def)

lemma duo_casts:
  "\<exists>c m x. (cluster_step 2 post_net no_fpu post_box)\<^sup>*\<^sup>* duo c \<and> entered c = (\<lambda>_. 0)(1 := 2, 0 := 2) \<and>
     results c 0 1 = Some (64, 1, MPI_INT, MPI_SUM, True, m) \<and> fst (args c 0 1) = 0 \<and>
     rpcs c 1 = BOther (ORecv 64 1 MPI_INT 0) \<and> (\<exists>w. ranks c 1 = (rank_state 1 2 (\<lambda>_. 0) w)\<lparr>coll_seq := 2\<rparr>) \<and>
     msg_fits x \<and> length (snd x) = 4 \<and> h_src (fst x) = 0 \<and> h_tag (fst x) = coll_tag 2 COLL_BCAST \<and> world c 1 = [encode x]"
proof -
  let ?step = "cluster_step 2 post_net no_fpu post_box" and ?p = "OSend 64 1 MPI_INT [1]"
  from duo_reduces [of True] obtain c m where c: "?step\<^sup>*\<^sup>* duo c" "entered c = (\<lambda>_. 0)(1 := 2, 0 := 2)"
    "results c 0 1 = Some (64, 1, MPI_INT, MPI_SUM, True, m)" "rpcs c 1 = BOther (ORecv 64 1 MPI_INT 0)"
    "\<exists>w. ranks c 1 = (rank_state 1 2 (\<lambda>_. 0) w)\<lparr>coll_seq := 2\<rparr>" "rpcs c 0 = BOther ?p" "world c 1 = []"
    "mpi_ready (ranks c 0) = 1" "mpi_rank (ranks c 0) = 0" "mpi_size (ranks c 0) = 2" "mpi_sock (ranks c 0) = 3" "coll_seq (ranks c 0) = 2"
    "fst (args c 0 1) = 0"
    by auto
  let ?v = "rank_view c 0" and ?t = "coll_tag 2 COLL_BCAST"
  have "send_valid ?v 1 MPI_INT 1 ?t"
    using c(8-12) coll_tag_nonneg [of 3 2] by (simp add: send_valid_def type_size_def rank_view_def)
  note send = MPI_Send_valid(1) [OF this, of "post_net 0" 64] MPI_Send_valid(2) [OF this, of 64]
  let ?x = "message_of ?v 64 1 MPI_INT ?t"
  let ?s = "?v\<lparr>mpi_world := snd (net_sendto (post_net 0) 3 (addr_for_rank 1) (encode ?x) (world c))\<rparr>"
  have "MPI_Send (post_net 0) 64 1 MPI_INT 1 ?t MPI_COMM_WORLD ?v = Some (MPI_SUCCESS, ?s)"
    using send(1) c(11) by (simp add: post_net_def rank_view_def)
  then have next_: "coll_next (post_net 0) no_fpu ?p (rank_view c 0) = Some (BOther (OSend 64 1 MPI_INT []), ?s)"
    using c(12) by simp
  let ?c = "noted (post_net 0) 0 (entered c 0) ?p (rank_view c 0) ((rank_put 0 (BOther (OSend 64 1 MPI_INT [])) ?s c)\<lparr>entered :=
    (entered c)(0 := entered c 0 + begun (rank_view c 0) ?s)\<rparr>)"
  have "?step c ?c" by (rule other_advances [where Net = post_net and i = 0, OF _ c(6) next_]) simp
  with c(1) have "?step\<^sup>*\<^sup>* duo ?c" by (rule rtranclp.rtrancl_into_rtrancl)
  moreover have "entered ?c = (\<lambda>_. 0)(1 := 2, 0 := 2)" using c(2) by (simp add: begun_def fun_upd_idem)
  moreover have "results ?c 0 1 = Some (64, 1, MPI_INT, MPI_SUM, True, m)" using c(3) by (simp add: noted_def rank_put_def)
  moreover have "fst (args ?c 0 1) = 0" using c(13) by (simp add: noted_def rank_put_def)
  moreover have "rpcs ?c 1 = rpcs c 1" "ranks ?c 1 = ranks c 1" by simp_all
  moreover have "length (snd ?x) = 4" "h_src (fst ?x) = 0" "h_tag (fst ?x) = ?t" using c(9) by (simp_all add: message_of_def type_size_def)
  moreover have "world ?c 1 = [encode ?x]" using c(7) by (simp add: post_net_def)
  ultimately show ?thesis using c(4,5) send(2) by (intro exI [of _ ?c] exI [of _ m] exI [of _ ?x]) (simp only: simp_thms)
qed

lemma duo_allreduce:
  "\<exists>c m m'. (cluster_step 2 post_net no_fpu post_box)\<^sup>*\<^sup>* duo c \<and> entered c = (\<lambda>_. 0)(1 := 2, 0 := 2) \<and>
     results c 0 1 = Some (64, 1, MPI_INT, MPI_SUM, True, m) \<and> fst (args c 0 1) = 0 \<and> delivered c 1 2 = Some (0, 64, m')"
proof -
  let ?step = "cluster_step 2 post_net no_fpu post_box" and ?p = "ORecv 64 1 MPI_INT 0"
  from duo_casts obtain c m x w where c: "?step\<^sup>*\<^sup>* duo c" "entered c = (\<lambda>_. 0)(1 := 2, 0 := 2)"
    "results c 0 1 = Some (64, 1, MPI_INT, MPI_SUM, True, m)" "rpcs c 1 = BOther ?p" "ranks c 1 = (rank_state 1 2 (\<lambda>_. 0) w)\<lparr>coll_seq := 2\<rparr>"
    "msg_fits x" "length (snd x) = 4" "h_src (fst x) = 0" "h_tag (fst x) = coll_tag 2 COLL_BCAST" "world c 1 = [encode x]"
    "fst (args c 0 1) = 0" by blast
  let ?v = "rank_view c 1"
  have "receive (msg_wanted (0, coll_tag 2 COLL_BCAST)) [Datagram (encode x)] (content (mpi_pending ?v)) = Some (Inr x, [], [])"
    using c(5-9) by (simp add: content_empty receive_def frame_message_encode msg_wanted_def matches_def)
  from recv_match_receive [of ?v "post_net 1" _ "(world c)(1 := [])", OF _ _ this] c(5,10) obtain s1 where
    m: "recv_match (post_net 1) 0 (coll_tag 2 COLL_BCAST) ?v = Some (Inr (fst x, snd x), s1)" "coll_seq s1 = 2"
    by (auto simp: rank_view_def empty_queue_wf post_net_def)
  let ?s = "s1\<lparr>mpi_mem := store_bytes (mpi_mem s1) 64 (snd x)\<rparr>"
  have r: "MPI_Recv (post_net 1) 64 1 MPI_INT 0 (coll_tag 2 COLL_BCAST) MPI_COMM_WORLD False ?v = Some (MPI_SUCCESS, None, ?s)"
    using MPI_Recv_gets [OF _ _ _ _ m(1), of 1 MPI_INT 64 False] c(5,7) by (simp add: rank_view_def type_size_def)
  with c(5) have next_: "coll_next (post_net 1) no_fpu ?p ?v = Some (BUser MPI_SUCCESS, ?s)" by simp
  let ?c = "noted (post_net 1) 1 (entered c 1) ?p ?v ((rank_put 1 (BUser MPI_SUCCESS) ?s c)\<lparr>entered :=
    (entered c)(1 := entered c 1 + begun ?v ?s)\<rparr>)"
  have "?step c ?c" by (rule other_advances [where Net = post_net and i = 1, OF _ c(4) next_]) simp
  with c(1) have "?step\<^sup>*\<^sup>* duo ?c" by (rule rtranclp.rtrancl_into_rtrancl)
  moreover have "entered ?c = (\<lambda>_. 0)(1 := 2, 0 := 2)" using c(2,5) m(2) by (auto simp: begun_def)
  moreover have "results ?c 0 1 = Some (64, 1, MPI_INT, MPI_SUM, True, m)" using c(3) by (simp add: noted_def rank_put_def)
  moreover have "fst (args ?c 0 1) = 0" using c(11) by (simp add: noted_def rank_put_def)
  moreover have "delivered ?c 1 2 = Some (0, 64, mpi_mem ?s)"
    using c(2,5) r delivered_noted [where e = 2] by simp
  ultimately show ?thesis by blast
qed

theorem broadcast_is_the_roots_witness:
  "\<exists>(c :: (nat \<Rightarrow> u8 list list) cluster) m x. reachable (cluster_initial 2 post_box) (cluster_step 2 post_net no_fpu post_box) c \<and>
     delivered c 1 2 = Some (0, 64, m) \<and> cast c 0 2 = Some x \<and> bytes_at m 64 (snd x)"
proof -
  from duo_allreduce obtain c m' where c: "(cluster_step 2 post_net no_fpu post_box)\<^sup>*\<^sup>* duo c" "entered c = (\<lambda>_. 0)(1 := 2, 0 := 2)"
    "delivered c 1 2 = Some (0, 64, m')" by blast
  have r: "reachable (cluster_initial 2 post_box) (cluster_step 2 post_net no_fpu post_box) c"
    using c(1) by (rule reachable_steps [rotated]) (rule reach_init, rule duo_initial)
  have "\<forall>r<2. entered c r < 2 ^ 24" using c(2) by simp
  from broadcast_is_the_roots [OF post_net_conserves r this _ c(3)] obtain q x where
    x: "q < 2" "(0 :: i32) = of_nat q" "cast c q 2 = Some x" "bytes_at m' 64 (snd x)" by auto
  have "q = 0" using x(1,2) by (auto simp: less_2_cases_iff)
  with r c(3) x show ?thesis by blast
qed

theorem allreduce_everywhere_witness:
  "\<exists>(c :: (nat \<Rightarrow> u8 list list) cluster) m. reachable (cluster_initial 2 post_box) (cluster_step 2 post_net no_fpu post_box) c \<and>
     delivered c 1 2 = Some (0, 64, m) \<and> get32 m 64 = offered c 0 1 0 + offered c 1 1 0"
proof -
  from duo_allreduce obtain c m m' where c: "(cluster_step 2 post_net no_fpu post_box)\<^sup>*\<^sup>* duo c" "entered c = (\<lambda>_. 0)(1 := 2, 0 := 2)"
    "results c 0 1 = Some (64, 1, MPI_INT, MPI_SUM, True, m)" "delivered c 1 (Suc 1) = Some (0, 64, m')" "fst (args c 0 1) = 0"
    by (auto simp: numeral_2_eq_2)
  have r: "reachable (cluster_initial 2 post_box) (cluster_step 2 post_net no_fpu post_box) c"
    using c(1) by (rule reachable_steps [rotated]) (rule reach_init, rule duo_initial)
  have small: "\<forall>r<2. entered c r < 2 ^ 24" using c(2) by simp
  have bufs: "buffers_ok 64 (fst (args c 0 1)) 1" using c(5) by (simp add: buffers_ok_def object_at_def)
  have "get32 m' 64 = offered c 0 1 0 + offered c 1 1 0"
    using allreduce_everywhere [OF post_net_conserves r small _ c(3) _ bufs c(4), rule_format, of 0]
    by (simp add: upt_rec reduced_def)
  moreover have "delivered c 1 2 = Some (0, 64, m')" using c(4) by (simp add: numeral_2_eq_2)
  ultimately show ?thesis using r by blast
qed

end
