(* ===== verification/Neo_Stdio.thy ===== *)
theory Neo_Stdio
  imports Neo_Syscall Neo_Digits
begin

text \<open>
  The \<open>printf\<close> of \<open>src/stdio.c\<close>. The formatting buffer with its position is the list of bytes
  written so far, so \<open>*pos\<close> is the list's length. Variable arguments are the list of 64-bit
  argument slots; fetching one that is not there is undefined in C and \<open>None\<close> here, as is a scan
  of a string that never ends. The result goes out through one \<open>write\<close> to \<open>/dev/kmsg\<close>, which is
  opened on the first call; the descriptor is the static \<open>kmsg_fd\<close>.

  The reference is \<open>render\<close>, a function from the characters of the format to the full,
  unbounded text, over the numerals of the digits theory.
\<close>

section \<open>The code\<close>

abbreviation (input) PRINTF_BUFFER_SIZE :: nat where "PRINTF_BUFFER_SIZE \<equiv> 512"
abbreviation (input) STDOUT_FILENO :: i32 where "STDOUT_FILENO \<equiv> 1"
abbreviation (input) O_WRONLY :: i32 where "O_WRONLY \<equiv> 1"

definition append_char :: "u8 list \<Rightarrow> u8 \<Rightarrow> u8 list" where
  "append_char buf c = (if length buf < PRINTF_BUFFER_SIZE - 1 then buf @ [c] else buf)"

partial_function (option) append_string :: "mem \<Rightarrow> u8 list \<Rightarrow> addr \<Rightarrow> u8 list option" where
  "append_string m buf s =
     (if m s \<noteq> 0 then append_string m (append_char buf (m s)) (s + 1) else Some buf)"

definition digit_table :: "bool \<Rightarrow> u8 list" where
  "digit_table uppercase = map (\<lambda>c. of_char c)
     (if uppercase then ''0123456789ABCDEF'' else ''0123456789abcdef'')"

text \<open>
  The digit loop fills \<open>tmp\<close> from the low end. The callers pass base 10 or 16; the test of the
  base makes the function total.
\<close>

function digit_loop :: "u8 list \<Rightarrow> u64 \<Rightarrow> u64 \<Rightarrow> u8 list" where
  "digit_loop digits base v =
     (if 0 < v \<and> 1 < base then digits ! unat (v mod base) # digit_loop digits base (v div base)
      else [])"
  by pat_completeness auto
termination
proof (relation "measure (\<lambda>(d, b, v). unat v)")
  fix digits :: "u8 list" and base v :: u64
  assume "0 < v \<and> 1 < base"
  then have "0 < unat v" "1 < unat base" by (simp_all add: word_less_nat_alt)
  then show "((digits, base, v div base), digits, base, v) \<in> measure (\<lambda>(d, b, v). unat v)"
    by (simp add: unat_div)
qed simp

declare digit_loop.simps [simp del]

definition append_uint :: "u8 list \<Rightarrow> u64 \<Rightarrow> i32 \<Rightarrow> bool \<Rightarrow> u8 list" where
  "append_uint buf v base uppercase =
     (let digits = digit_table uppercase;
          tmp = (if v = 0 then [48] else []) @ digit_loop digits (sext base) v
      in fold (\<lambda>c b. append_char b c) (rev tmp) buf)"

definition append_int :: "u8 list \<Rightarrow> i64 \<Rightarrow> u8 list" where
  "append_int buf v =
     (if sint v < 0 then append_uint (append_char buf 45) (- v) 10 False
      else append_uint buf v 10 False)"

text \<open>One conversion: from the character after \<open>%\<close> and the arguments left.\<close>

definition printf_conv :: "mem \<Rightarrow> u8 \<Rightarrow> u64 list \<Rightarrow> u8 list \<Rightarrow> (u64 list \<times> u8 list) option" where
  "printf_conv m c args buf =
     (if c = 115 \<comment> \<open>s\<close> then (case args of [] \<Rightarrow> None
        | a # as \<Rightarrow> map_option (Pair as) (append_string m buf a))
      else if c = 100 \<comment> \<open>d\<close> then (case args of [] \<Rightarrow> None
        | a # as \<Rightarrow> Some (as, append_int buf (sext (cast_int a))))
      else if c = 117 \<comment> \<open>u\<close> then (case args of [] \<Rightarrow> None
        | a # as \<Rightarrow> Some (as, append_uint buf (ucast (cast_int a)) 10 False))
      else if c = 120 \<comment> \<open>x\<close> then (case args of [] \<Rightarrow> None
        | a # as \<Rightarrow> Some (as, append_uint buf (ucast (cast_int a)) 16 False))
      else if c = 99 \<comment> \<open>c\<close> then (case args of [] \<Rightarrow> None
        | a # as \<Rightarrow> Some (as, append_char buf (ucast (cast_int a))))
      else if c = 37 \<comment> \<open>%\<close> then Some (args, append_char buf 37)
      else Some (args, append_char (append_char buf 37) c))"

partial_function (option) printf_loop ::
  "mem \<Rightarrow> addr \<Rightarrow> u64 \<Rightarrow> u64 list \<Rightarrow> u8 list \<Rightarrow> u8 list option" where
  "printf_loop m fmt i args buf =
     (if m (fmt + i) = 0 then Some buf
      else if m (fmt + i) \<noteq> 37 then printf_loop m fmt (i + 1) args (append_char buf (m (fmt + i)))
      else if m (fmt + (i + 1)) = 0 then Some (append_char buf 37)
      else (case printf_conv m (m (fmt + (i + 1))) args buf of
              None \<Rightarrow> None
            | Some r \<Rightarrow> printf_loop m fmt (i + 2) (fst r) (snd r)))"

text \<open>
  The output: \<open>lit\<close> is the address of the literal \<open>"/dev/kmsg"\<close>, \<open>stk\<close> that of the buffer on
  the stack. The state is the descriptor and the machine.
\<close>

definition printf_out ::
  "'k kernel \<Rightarrow> addr \<Rightarrow> addr \<Rightarrow> u64 \<Rightarrow> i32 \<times> 'k machine \<Rightarrow> (i32 \<times> 'k machine) option" where
  "printf_out K lit buf n = (\<lambda>(kmsg_fd, s).
     (case (if kmsg_fd = - 2 then open_c K lit O_WRONLY s else Some (kmsg_fd, s)) of
        None \<Rightarrow> None
      | Some (fd, s) \<Rightarrow>
          Some (fd, snd (write_c K (if 0 \<le> sint fd then fd else STDOUT_FILENO) buf n s))))"

definition printf ::
  "'k kernel \<Rightarrow> addr \<Rightarrow> addr \<Rightarrow> addr \<Rightarrow> u64 list \<Rightarrow> i32 \<times> 'k machine \<Rightarrow>
     (i32 \<times> i32 \<times> 'k machine) option" where
  "printf K lit stk fmt args = (\<lambda>(kmsg_fd, s).
     (case printf_loop (memory s) fmt 0 args [] of
        None \<Rightarrow> None
      | Some buf \<Rightarrow>
          map_option (Pair (of_nat (length buf)))
            (printf_out K lit stk (of_nat (length buf))
               (kmsg_fd, s\<lparr>memory := store_bytes (memory s) stk buf\<rparr>))))"

section \<open>The reference\<close>

definition hex_text :: "nat \<Rightarrow> u8 list" where
  "hex_text n = map (\<lambda>d. digit_table False ! d) (radix_digits 16 n)"

definition int_text :: "int \<Rightarrow> u8 list" where
  "int_text k = (if k < 0 then 45 # dec_text (nat (- k)) else dec_text (nat k))"

text \<open>The characters of a string, if it ends.\<close>

definition string_at :: "mem \<Rightarrow> addr \<Rightarrow> u8 list option" where
  "string_at m a = map_option (\<lambda>n. load_bytes m a (unat n)) (strlen m a)"

definition conv_text :: "mem \<Rightarrow> u8 \<Rightarrow> u64 list \<Rightarrow> (u8 list \<times> u64 list) option" where
  "conv_text m c args =
     (if c \<in> {115, 100, 117, 120, 99}
      then (case args of [] \<Rightarrow> None
            | a # as \<Rightarrow> map_option (\<lambda>t. (t, as))
                (if c = 115 then string_at m a
                 else if c = 100 then Some (int_text (sint (cast_int a)))
                 else if c = 117 then Some (dec_text (unat (cast_int a)))
                 else if c = 120 then Some (hex_text (unat (cast_int a)))
                 else Some [ucast a]))
      else Some (if c = 37 then [37] else [37, c], args))"

fun render :: "mem \<Rightarrow> u8 list \<Rightarrow> u64 list \<Rightarrow> u8 list option" where
  "render m [] args = Some []"
| "render m [c] args = Some [c]"
| "render m (c # d # cs) args =
     (if c \<noteq> 37 then map_option ((#) c) (render m (d # cs) args)
      else (case conv_text m d args of
              None \<Rightarrow> None
            | Some (t, as) \<Rightarrow> map_option ((@) t) (render m cs as)))"

section \<open>Appending under the bound\<close>

definition bounded :: "u8 list \<Rightarrow> u8 list" where
  "bounded out = take 511 out"

lemma append_char_bounded: "append_char (bounded out) c = bounded (out @ [c])"
  by (simp add: append_char_def bounded_def min_def)

lemma append_chars_bounded: "fold (\<lambda>c b. append_char b c) cs (bounded out) = bounded (out @ cs)"
  by (induction cs arbitrary: out) (simp_all add: append_char_bounded)

lemma append_string_cstring:
  "cstring m s cs \<Longrightarrow> append_string m (bounded out) s = Some (bounded (out @ cs))"
proof (induction cs arbitrary: s out)
  case Nil
  then show ?case by (subst append_string.simps) simp
next
  case (Cons c cs)
  then have "append_string m (bounded (out @ [c])) (s + 1) = Some (bounded ((out @ [c]) @ cs))" by simp
  with Cons.prems show ?case by (subst append_string.simps) (simp add: append_char_bounded)
qed

lemma append_string_ends: "append_string m buf s = Some r \<Longrightarrow> \<exists>a. m a = 0"
  by (rule append_string.raw_induct [where P = "\<lambda>m buf s r. \<exists>a. m a = 0"]) (auto split: if_splits)

lemma string_at_cstring: "string_at m a = Some cs \<Longrightarrow> cstring m a cs"
proof -
  assume "string_at m a = Some cs"
  then obtain n where n: "strlen m a = Some n" "cs = load_bytes m a (unat n)"
    by (auto simp: string_at_def)
  then have "m (a + n) = 0" by (auto simp: strlen_def dest: strlen_loop_ends)
  then obtain f where f: "m (a + f) = 0" "\<forall>k<f. m (a + k) \<noteq> 0" by (metis nul_has_first)
  with strlen_first_nul [OF f] n have "f = n" by simp
  with f n show ?thesis
    by (auto simp: cstring_nth load_bytes_nth of_nat_less_u64)
qed

lemma append_string_bounded:
  "append_string m (bounded out) a = map_option (\<lambda>t. bounded (out @ t)) (string_at m a)"
proof (cases "string_at m a")
  case None
  have "append_string m (bounded out) a \<noteq> Some r" for r
  proof
    assume "append_string m (bounded out) a = Some r"
    then obtain x where "m x = 0" using append_string_ends by blast
    then obtain f where "strlen m a = Some f" by (metis nul_has_first strlen_first_nul)
    with None show False by (simp add: string_at_def)
  qed
  with None show ?thesis by (cases "append_string m (bounded out) a") auto
next
  case (Some t)
  with append_string_cstring [OF string_at_cstring [OF Some]] show ?thesis by simp
qed

section \<open>Numbers\<close>

lemma digit_loop_low_digits:
  "1 < base \<Longrightarrow> digit_loop ds base v = map (\<lambda>d. ds ! d) (low_digits (unat base) (unat v))"
proof (induction ds base v rule: digit_loop.induct)
  case (1 ds base v)
  have b: "1 < unat base" using 1(2) by (simp add: word_less_nat_alt)
  show ?case
  proof (cases "0 < v")
    case True
    then have "unat v \<noteq> 0" by (simp add: unat_eq_0)
    with True b 1 show ?thesis
      by (simp add: digit_loop.simps [of ds base v] low_digits.simps [of "unat base" "unat v"]
          unat_div unat_mod)
  next
    case False
    then have "v = 0" by (simp add: word_gt_0)
    then show ?thesis by (simp add: digit_loop.simps low_digits.simps)
  qed
qed

lemma append_uint_bounded:
  assumes "base = 10 \<or> base = 16"
  shows "append_uint (bounded out) v base up =
    bounded (out @ map (\<lambda>d. digit_table up ! d) (radix_digits (unat base) (unat v)))"
proof -
  have b: "1 < sext base" "unat (sext base) = unat base" "2 \<le> unat base" using assms by auto
  show ?thesis
  proof (cases "v = 0")
    case True
    have "digit_table up ! 0 = 48" by (simp add: digit_table_def of_char_def)
    with True b show ?thesis
      by (simp add: append_uint_def digit_loop.simps append_char_bounded radix_digits.simps)
  next
    case False
    then have "unat v \<noteq> 0" by (simp add: unat_eq_0)
    with False b show ?thesis
      by (simp add: append_uint_def digit_loop_low_digits append_chars_bounded rev_map low_digits_radix)
  qed
qed

lemma digit_table_dec: "d < 10 \<Longrightarrow> digit_table up ! d = dec_char d"
proof -
  assume "d < 10"
  then have "d \<in> {0, 1, 2, 3, 4, 5, 6, 7, 8, 9}" by auto
  then show ?thesis by (auto simp: digit_table_def dec_char_def of_char_def)
qed

lemma append_dec_bounded: "append_uint (bounded out) v 10 up = bounded (out @ dec_text (unat v))"
proof -
  have "map (\<lambda>d. digit_table up ! d) (radix_digits 10 (unat v)) = dec_text (unat v)"
    using radix_digits_less [of 10 _ "unat v"] by (simp add: dec_text_def digit_table_dec)
  then show ?thesis by (simp add: append_uint_bounded)
qed

lemma append_hex_bounded: "append_uint (bounded out) v 16 False = bounded (out @ hex_text (unat v))"
  by (simp add: append_uint_bounded hex_text_def)

interpretation printf_dec: decimal_printer "\<lambda>n. append_uint [] (of_nat n) 10 False" "2 ^ 64"
proof unfold_locales
  fix n :: nat assume n: "n < 2 ^ 64"
  then have "n < 10 ^ Suc 19" by simp
  then have "length (dec_text n) \<le> 20"
    using length_radix_digits [of 10 n 19] by (simp add: dec_text_def)
  moreover have "unat (of_nat n :: u64) = n" using n by (rule unat_of_nat_u64)
  ultimately show "append_uint [] (of_nat n) 10 False = dec_text n"
    using append_dec_bounded [of "[]" "of_nat n" False] by (simp add: bounded_def)
qed

lemma unat_i64_nonneg: "0 \<le> sint (v :: i64) \<Longrightarrow> unat v = nat (sint v)"
  and unat_i64_neg: "sint (v :: i64) < 0 \<Longrightarrow> unat (- v) = nat (- sint v)"
proof -
  have b: "sint v < 2 ^ 63" "- (2 ^ 63) \<le> sint v" using sint_lt [of v] sint_ge [of v] by simp_all
  show "0 \<le> sint v \<Longrightarrow> unat v = nat (sint v)"
  proof -
    assume p: "0 \<le> sint v"
    have "uint v = sint v mod 2 ^ 64" using uint_word_of_int [of "sint v", where 'a = 64] by simp
    with p b show ?thesis by (simp add: unat_eq_nat_uint)
  qed
  show "sint v < 0 \<Longrightarrow> unat (- v) = nat (- sint v)"
  proof -
    assume p: "sint v < 0"
    have "uint (- v) = (- sint v) mod 2 ^ 64"
      using uint_word_of_int [of "- sint v", where 'a = 64] by simp
    with p b show ?thesis by (simp add: unat_eq_nat_uint)
  qed
qed

lemma append_int_bounded: "append_int (bounded out) v = bounded (out @ int_text (sint v))"
  by (simp add: append_int_def int_text_def append_char_bounded append_dec_bounded unat_i64_nonneg
      unat_i64_neg)

lemma sint_sext: "sint (sext v) = sint v"
  using sint_i32_bounds [of v] by (simp add: signed_scast_eq signed_take_bit_int_eq_self)

lemma unat_ucast_i32: "unat (ucast (v :: i32) :: u64) = unat v"
proof -
  have "unat v < 2 ^ LENGTH(32)" by (rule unsigned_less)
  then show ?thesis by (simp add: unsigned_ucast_eq take_bit_nat_eq_self)
qed

lemma ucast_cast_int: "ucast (cast_int a) = (ucast a :: u8)"
  by (intro bit_word_eqI) (simp add: bit_simps)

section \<open>The formatting loop\<close>

lemma printf_conv_text:
  "printf_conv m c args (bounded out) =
     map_option (\<lambda>(t, as). (as, bounded (out @ t))) (conv_text m c args)"
  unfolding printf_conv_def conv_text_def
  by (simp add: append_string_bounded append_int_bounded append_dec_bounded append_hex_bounded
      append_char_bounded sint_sext unat_ucast_i32 ucast_cast_int option.map_comp comp_def
      split: list.splits)

lemma printf_loop_render:
  "cstring m (fmt + i) cs \<Longrightarrow>
     printf_loop m fmt i args (bounded out) = map_option (\<lambda>t. bounded (out @ t)) (render m cs args)"
proof (induction m cs args arbitrary: i out rule: render.induct)
  case (1 m args)
  then show ?case by (subst printf_loop.simps) simp
next
  case (2 m c args)
  have "printf_loop m fmt (i + 1) args buf = Some buf" for buf
    using 2 by (subst printf_loop.simps) (simp add: add.assoc)
  with 2 show ?case
    by (subst printf_loop.simps) (auto simp: add.assoc append_char_bounded)
next
  case (3 m c d cs args)
  then have c: "m (fmt + i) = c" "c \<noteq> 0" "m (fmt + (i + 1)) = d" "d \<noteq> 0"
    "cstring m (fmt + (i + 1)) (d # cs)" "cstring m (fmt + (i + 2)) cs"
    by (simp_all add: add.assoc)
  show ?case
  proof (cases "c = 37")
    case False
    from 3(1) [OF False c(5), of "out @ [c]"] False c show ?thesis
      by (subst printf_loop.simps) (simp add: append_char_bounded option.map_comp comp_def)
  next
    case True
    show ?thesis
    proof (cases "conv_text m d args")
      case None
      with True c show ?thesis by (subst printf_loop.simps) (simp add: printf_conv_text)
    next
      case (Some r)
      obtain t as where r: "r = (t, as)" by (cases r)
      from 3(2) [OF _ Some r [symmetric] c(6), of "out @ t"] True c Some r show ?thesis
        by (subst printf_loop.simps) (simp add: printf_conv_text option.map_comp comp_def)
    qed
  qed
qed

lemma printf_text:
  assumes "cstring (memory s) fmt cs" and "render (memory s) cs args = Some text"
  shows "printf K lit stk fmt args (fd, s) =
     map_option (Pair (of_nat (min 511 (length text))))
       (printf_out K lit stk (of_nat (min 511 (length text)))
          (fd, s\<lparr>memory := store_bytes (memory s) stk (take 511 text)\<rparr>))"
proof -
  have "printf_loop (memory s) fmt 0 args (bounded []) = Some (bounded text)"
    using printf_loop_render [of "memory s" fmt 0 cs args "[]"] assms by simp
  then have "printf_loop (memory s) fmt 0 args [] = Some (take 511 text)"
    by (simp add: bounded_def)
  then show ?thesis by (simp add: printf_def min.commute)
qed

section \<open>Properties\<close>

text \<open>The path \<open>printf_out\<close> opens.\<close>

definition dev_kmsg :: "u8 list" where
  "dev_kmsg = map of_char ''/dev/kmsg''"


definition demo_machine :: "unit machine" where
  "demo_machine = \<lparr>memory = store_bytes (store_bytes (\<lambda>_. 0) 16 [37, 100, 33]) 900 dev_kmsg, kstate = ()\<rparr>"

text \<open>The first call of a program, with \<open>/dev/kmsg\<close> opened as descriptor 3.\<close>

definition kmsg_kernel :: "unit kernel" where
  "kmsg_kernel f m = (if rax f = SYS_OPEN then 3 else 0, m)"


text \<open>
  The sentinel of \<open>kmsg_fd\<close> is also the value of \<open>-ENOENT\<close>: when \<open>/dev/kmsg\<close> does not exist, the
  failed \<open>open\<close> leaves the descriptor at "not tried", and every call opens it again.
\<close>

lemma kmsg_missing_retried:
  assumes "open_c K lit O_WRONLY s = Some (- ENOENT, s')"
  shows "\<exists>s''. printf_out K lit buf n (- 2, s) = Some (- 2, s'')"
  using assms by (simp add: printf_out_def)

end
