(* ===== verification/Neo_Start.thy ===== *)
theory Neo_Start
  imports Neo_Syscall Neo_Bytes
begin

text \<open>
  What runs between \<open>_start\<close> and \<open>main\<close> (\<open>src/start.c\<close>): the auxiliary vector, the search for the
  \<open>PT_TLS\<close> template in the program headers, and the construction of a thread's TLS block (variant
  II: the block ends at the thread pointer, where a pointer to itself is stored). The static
  variables are the record \<open>libc_state\<close>; the kernel and \<open>main\<close> are parameters. A walk of the
  auxiliary vector that never meets \<open>AT_NULL\<close> is \<open>None\<close>.
\<close>

section \<open>The code\<close>

abbreviation (input) AT_NULL :: u64 where "AT_NULL \<equiv> 0"
abbreviation (input) AT_PHDR :: u64 where "AT_PHDR \<equiv> 3"
abbreviation (input) AT_PHENT :: u64 where "AT_PHENT \<equiv> 4"
abbreviation (input) AT_PHNUM :: u64 where "AT_PHNUM \<equiv> 5"
abbreviation (input) PT_TLS :: u32 where "PT_TLS \<equiv> 7"
abbreviation (input) ARCH_SET_FS :: i32 where "ARCH_SET_FS \<equiv> 0x1002"
abbreviation (input) PROT_READ_WRITE :: i32 where "PROT_READ_WRITE \<equiv> 3"
abbreviation (input) MAP_PRIVATE_ANONYMOUS :: i32 where "MAP_PRIVATE_ANONYMOUS \<equiv> 0x22"

record libc_state =
  auxv_table :: addr
  environ :: addr
  tls_size :: u64
  tls_align :: u64
  tls_image :: addr
  tls_filesz :: u64

text \<open>A program header as it lies in memory.\<close>

record Elf64_Phdr =
  p_type :: u32
  p_vaddr :: u64
  p_filesz :: u64
  p_memsz :: u64
  p_align :: u64

definition read_phdr :: "mem \<Rightarrow> addr \<Rightarrow> Elf64_Phdr" where
  "read_phdr m a = \<lparr>p_type = get32 m a, p_vaddr = get64 m (a + 16), p_filesz = get64 m (a + 32),
     p_memsz = get64 m (a + 40), p_align = get64 m (a + 48)\<rparr>"

partial_function (option) auxv_loop :: "mem \<Rightarrow> u64 \<Rightarrow> addr \<Rightarrow> u64 option" where
  "auxv_loop m type p =
     (if get64 m p = AT_NULL then Some 0
      else if get64 m p = type then Some (get64 m (p + 8))
      else auxv_loop m type (p + 16))"

definition getauxval :: "mem \<Rightarrow> libc_state \<Rightarrow> u64 \<Rightarrow> u64 option" where
  "getauxval m s type = (if auxv_table s = 0 then Some 0 else auxv_loop m type (auxv_table s))"

definition align_up :: "u64 \<Rightarrow> u64 \<Rightarrow> u64" where
  "align_up v a = (let a = (if a < 8 then 8 else a) in (v + a - 1) AND NOT (a - 1))"

function phdr_loop :: "mem \<Rightarrow> u64 \<Rightarrow> u64 \<Rightarrow> u64 \<Rightarrow> u64 \<Rightarrow> libc_state \<Rightarrow> libc_state" where
  "phdr_loop m phdr phnum phent i s =
     (if i < phnum
      then let ph = read_phdr m (phdr + i * phent) in
           if p_type ph \<noteq> PT_TLS then phdr_loop m phdr phnum phent (i + 1) s
           else let al = (if p_align ph \<noteq> 0 then p_align ph else 8) in
                s\<lparr>tls_image := p_vaddr ph, tls_filesz := p_filesz ph, tls_align := al,
                  tls_size := align_up (p_memsz ph) al\<rparr>
      else s)"
  by pat_completeness auto
termination
  by (relation "measure (\<lambda>(m, phdr, phnum, phent, i, s). unat phnum - unat i)")
    (auto simp: unat_suc_less word_less_nat_alt)

declare phdr_loop.simps [simp del]

definition tls_find_template :: "mem \<Rightarrow> libc_state \<Rightarrow> libc_state option" where
  "tls_find_template m s =
     (case (getauxval m s AT_PHDR, getauxval m s AT_PHNUM, getauxval m s AT_PHENT) of
        (Some phdr, Some phnum, Some phent) \<Rightarrow>
          Some (if phdr = 0 \<or> phnum = 0 \<or> phent = 0 then s else phdr_loop m phdr phnum phent 0 s)
      | _ \<Rightarrow> None)"

definition tls_setup_self :: "'k kernel \<Rightarrow> libc_state \<Rightarrow> 'k machine \<Rightarrow> i32 \<times> 'k machine" where
  "tls_setup_self K s k =
     (if tls_size s = 0 then (0, k)
      else let need = tls_size s + tls_align s + 64;
               (raw, k) = mmap_raw K 0 need PROT_READ_WRITE MAP_PRIVATE_ANONYMOUS k
           in if sint raw < 0 then (cast_int raw, k)
              else let base = align_up raw (tls_align s);
                       tp = base + tls_size s;
                       m = (if tls_filesz s \<noteq> 0
                            then snd (memcpy base (tls_image s) (tls_filesz s) (memory k))
                            else memory k)
                   in arch_prctl K ARCH_SET_FS tp (k\<lparr>memory := put64 m tp tp\<rparr>))"

text \<open>\<open>__libc_start\<close>; it ends in \<open>exit\<close>, the result is the machine then.\<close>

definition libc_start ::
  "'k kernel \<Rightarrow> (i32 \<Rightarrow> addr \<Rightarrow> libc_state \<Rightarrow> 'k machine \<Rightarrow> i32 \<times> 'k machine) \<Rightarrow>
     i32 \<Rightarrow> addr \<Rightarrow> addr \<Rightarrow> addr \<Rightarrow> libc_state \<Rightarrow> 'k machine \<Rightarrow> 'k machine option" where
  "libc_start K main argc argv envp auxv s k =
     (case tls_find_template (memory k) (s\<lparr>auxv_table := auxv, environ := envp\<rparr>) of
        None \<Rightarrow> None
      | Some s \<Rightarrow>
          let (rc, k) = tls_setup_self K s k in
          if rc \<noteq> 0 then Some (exit K 127 k)
          else let (code, k) = main argc argv s k in Some (exit K code k))"

section \<open>Alignment\<close>

lemma unat_pow2: "n < 64 \<Longrightarrow> unat (2 ^ n :: u64) = 2 ^ n"
proof -
  assume "n < 64"
  then have "(2 :: nat) ^ n < 2 ^ 64" by (intro power_strict_increasing) auto
  then show ?thesis using unat_of_nat_u64 [of "2 ^ n"] by simp
qed

lemma unat_round_down:
  "unat ((v :: u64) AND NOT (mask n)) = unat v - unat v mod 2 ^ n"
proof -
  have "v AND NOT (mask n) = push_bit n (drop_bit n v)"
    by (intro bit_word_eqI) (auto simp: bit_simps)
  also have "\<dots> = v - take_bit n v" using bits_ident [of n v] by (simp add: algebra_simps)
  finally have r: "v AND NOT (mask n) = v - take_bit n v" .
  have t: "unat (take_bit n v) = unat v mod 2 ^ n"
    unfolding unsigned_take_bit_eq by (rule take_bit_eq_mod)
  then have "take_bit n v \<le> v" by (simp add: word_le_nat_alt)
  with r t show ?thesis by (simp add: unat_sub)
qed

lemma align_up_pow2:
  assumes "3 \<le> n" and "n < 64" and "unat v + 2 ^ n \<le> 2 ^ 64"
  shows "unat (align_up v (2 ^ n)) mod 2 ^ n = 0 \<and> unat v \<le> unat (align_up v (2 ^ n)) \<and>
         unat (align_up v (2 ^ n)) < unat v + 2 ^ n"
proof -
  define x where "x = v + (2 ^ n - 1)"
  have "unat (2 ^ n :: u64) \<noteq> 0" using unat_pow2 [OF assms(2)] by simp
  then have "(2 ^ n :: u64) \<noteq> 0" by (metis unsigned_0)
  from unat_pred [OF this] have m: "unat (2 ^ n - 1 :: u64) = 2 ^ n - 1"
    unfolding unat_pow2 [OF assms(2)] .
  have "unat v + unat (2 ^ n - 1 :: u64) < 2 ^ 64"
    unfolding m using assms(3) zero_less_power [of "2 :: nat" n] by linarith
  from unat_plus_no_wrap [OF this] have x: "unat x = unat v + (2 ^ n - 1)" unfolding x_def m .
  have "(8 :: nat) = 2 ^ 3" by simp
  also have "\<dots> \<le> 2 ^ n" using assms(1) by (intro power_increasing) auto
  finally have "\<not> (2 ^ n :: u64) < 8" using unat_pow2 [OF assms(2)] by (simp add: word_less_nat_alt)
  then have "align_up v (2 ^ n) = x AND NOT (mask n)"
    unfolding align_up_def Let_def x_def mask_eq_exp_minus_1 add_diff_eq by (simp only: if_False)
  then have r: "unat (align_up v (2 ^ n)) = unat x - unat x mod 2 ^ n" by (simp add: unat_round_down)
  have "unat x mod 2 ^ n < 2 ^ n" by simp
  moreover have "unat x mod 2 ^ n \<le> unat x" by simp
  ultimately have "unat v \<le> unat (align_up v (2 ^ n)) \<and> unat (align_up v (2 ^ n)) < unat v + 2 ^ n"
    unfolding r x using zero_less_power [of "2 :: nat" n] by linarith
  moreover have "unat (align_up v (2 ^ n)) mod 2 ^ n = 0" unfolding r minus_mod_eq_mult_div by simp
  ultimately show ?thesis by simp
qed

text \<open>A requested alignment below 8 is taken as 8.\<close>

lemma align_up_small: "a < 8 \<Longrightarrow> align_up v a = align_up v 8"
  by (simp add: align_up_def)

section \<open>The TLS block\<close>

text \<open>
  The layout of one thread's block, as numbers: \<open>N\<close> is the exponent of the alignment actually
  used, at least 8 bytes.
\<close>

lemma tls_align_eff:
  assumes "tls_align s = 2 ^ n" and "n < 64"
  shows "align_up v (tls_align s) = align_up v (2 ^ max 3 n)"
proof (cases "n < 3")
  case True
  then have "n = 0 \<or> n = 1 \<or> n = 2" by auto
  then have "tls_align s < 8" using assms(1) by auto
  with True show ?thesis by (simp add: align_up_small max_def)
qed (use assms in \<open>simp add: max_def\<close>)

lemma tls_layout_bounds:
  assumes "n < 64" and "unat raw + unat sz + 2 ^ n + 64 \<le> 2 ^ 64"
  defines "base \<equiv> align_up raw (2 ^ max 3 n)"
  shows "unat base mod 2 ^ max 3 n = 0" and "unat raw \<le> unat base"
    and "unat (base + sz) = unat base + unat sz"
    and "unat base + unat sz + 8 \<le> unat raw + unat sz + 2 ^ n + 64"
proof -
  let ?N = "max 3 n"
  have N: "3 \<le> ?N" "?N < 64" using assms(1) by auto
  have le: "(2 :: nat) ^ ?N \<le> 2 ^ n + 8" by (cases "n \<le> 3") (auto simp: max_def)
  with assms(2) have "unat raw + 2 ^ ?N \<le> 2 ^ 64" by simp
  note a = align_up_pow2 [OF N this, folded base_def]
  from a show "unat base mod 2 ^ ?N = 0" "unat raw \<le> unat base" by auto
  from a le show b: "unat base + unat sz + 8 \<le> unat raw + unat sz + 2 ^ n + 64" by linarith
  with assms(2) show "unat (base + sz) = unat base + unat sz" by (intro unat_plus_no_wrap) linarith
qed

lemma put64_keeps_below:
  assumes "i < unat sz" and "unat base + unat sz + 8 \<le> 2 ^ 64"
  shows "put64 m (base + sz) v (base + of_nat i) = m (base + of_nat i)"
proof -
  have "store_bytes m (base + of_nat (unat sz)) (le64 v) (base + of_nat i) = m (base + of_nat i)"
    using assms unat_u64_less [of sz] by (intro store_bytes_offset_other) auto
  then show ?thesis by (simp add: put64_def)
qed

section \<open>Properties\<close>

text \<open>
  C29. The TLS block of a thread. When the mapping succeeds, \<open>__tls_setup_self\<close> hands the kernel a
  thread pointer that is aligned as the segment asks (and to 8 bytes), lies with the pointer-sized
  word above it inside the mapping, holds its own address, and has the initialisation image of
  the template right below it at distance \<open>tls_size\<close>.
\<close>

theorem tls_setup_layout:
  assumes "tls_size s \<noteq> 0" and "tls_align s = 2 ^ n" and "n < 64"
    and "unat (tls_size s) mod 2 ^ max 3 n = 0"
    and "mmap_raw K 0 (tls_size s + tls_align s + 64) PROT_READ_WRITE MAP_PRIVATE_ANONYMOUS k = (raw, k1)"
    and "0 \<le> sint raw" and "unat raw + unat (tls_size s) + 2 ^ n + 64 \<le> 2 ^ 64"
    and "tls_filesz s \<le> tls_size s" and "object_at (tls_image s) (tls_filesz s)"
    and "unat (tls_image s) + unat (tls_filesz s) \<le> unat raw \<or>
         unat raw + unat (tls_size s) + 2 ^ n + 64 \<le> unat (tls_image s)"
  shows "\<exists>base tp m. tls_setup_self K s k = arch_prctl K ARCH_SET_FS tp (k1\<lparr>memory := m\<rparr>) \<and>
           tp = base + tls_size s \<and> unat tp mod 2 ^ max 3 n = 0 \<and>
           unat raw \<le> unat base \<and> unat tp = unat base + unat (tls_size s) \<and>
           unat tp + 8 \<le> unat raw + unat (tls_size s) + 2 ^ n + 64 \<and> get64 m tp = tp \<and>
           load_bytes m base (unat (tls_filesz s)) =
             load_bytes (memory k1) (tls_image s) (unat (tls_filesz s))"
proof -
  let ?sz = "tls_size s" and ?fz = "tls_filesz s" and ?im = "tls_image s"
  define base where "base = align_up raw (2 ^ max 3 n)"
  note b = tls_layout_bounds [OF assms(3,7), folded base_def]
  define m0 where "m0 = (if ?fz \<noteq> 0 then snd (memcpy base ?im ?fz (memory k1)) else memory k1)"
  define m where "m = put64 m0 (base + ?sz) (base + ?sz)"
  have fz: "unat ?fz \<le> unat ?sz" using assms(8) by (simp add: word_le_nat_alt)
  have ob: "object_at base ?fz" using b(4) assms(7) fz unfolding object_at_def by linarith
  have ap: "base < ?im \<or> unat ?im + unat ?fz \<le> unat base"
    using assms(10) b(2,4) by (auto simp: word_less_nat_alt)
  have copied: "load_bytes m0 base (unat ?fz) = load_bytes (memory k1) ?im (unat ?fz)"
  proof (cases "?fz = 0")
    case False
    then show ?thesis unfolding m0_def
      by (simp, intro load_bytes_eqI memcpy_bytes [OF ob assms(9) ap]) simp
  qed simp
  have "load_bytes m base (unat ?fz) = load_bytes m0 base (unat ?fz)"
    unfolding m_def
    by (rule load_bytes_offset_cong) (use fz b(4) assms(7) in \<open>auto intro!: put64_keeps_below\<close>)
  moreover have "unat (base + ?sz) mod 2 ^ max 3 n = 0"
    unfolding b(3) using b(1) assms(4) by (simp add: mod_add_eq [symmetric])
  moreover have "tls_setup_self K s k = arch_prctl K ARCH_SET_FS (base + ?sz) (k1\<lparr>memory := m\<rparr>)"
    using assms(1,5,6) tls_align_eff [OF assms(2,3), of raw]
    by (simp add: tls_setup_self_def Let_def base_def m_def m0_def)
  ultimately show ?thesis
    using b copied get64_put64 [of m0 "base + ?sz" "base + ?sz"]
    by (intro exI [of _ base] exI [of _ "base + ?sz"] exI [of _ m]) (simp add: m_def)
qed

definition tls_demo :: libc_state where
  "tls_demo = \<lparr>auxv_table = 0, environ = 0, tls_size = 32, tls_align = 16, tls_image = 64,
     tls_filesz = 4\<rparr>"

definition tls_machine :: "unit machine" where
  "tls_machine = \<lparr>memory = (\<lambda>a. ucast a), kstate = ()\<rparr>"

theorem tls_setup_layout_witness:
  "\<exists>base tp m. tls_setup_self (\<lambda>f k. (0x1008, k)) tls_demo tls_machine =
       arch_prctl (\<lambda>f k. (0x1008, k)) ARCH_SET_FS tp (tls_machine\<lparr>memory := m\<rparr>) \<and>
     tp = base + tls_size tls_demo \<and> unat tp mod 2 ^ max 3 4 = 0 \<and>
     unat (0x1008 :: i64) \<le> unat base \<and> unat tp = unat base + unat (tls_size tls_demo) \<and>
     unat tp + 8 \<le> unat (0x1008 :: i64) + unat (tls_size tls_demo) + 2 ^ 4 + 64 \<and> get64 m tp = tp \<and>
     load_bytes m base (unat (tls_filesz tls_demo)) =
       load_bytes (memory tls_machine) (tls_image tls_demo) (unat (tls_filesz tls_demo))"
  by (rule tls_setup_layout)
    (simp_all add: tls_demo_def mmap_raw_def mmap_fd_raw_def object_at_def word_le_nat_alt max_def)

text \<open>
  With a segment alignment below 8 the size is still rounded to 8, while the linker computes
  offsets from the thread pointer with the segment's own alignment: a template of 4 bytes with
  alignment 4 is placed 8 bytes below the thread pointer instead of 4.
\<close>

lemma tls_small_alignment: "align_up 4 4 = 8"
  by (simp add: align_up_def)

end
