(* ===== verification/Neo_Crt0.thy ===== *)
theory Neo_Crt0
  imports Neo_Start
begin

text \<open>
  The entry point (\<open>src/crt0.asm\<close>): \<open>_start\<close> finds the argument vector, the environment and the
  auxiliary vector on the stack the kernel built, and hands them to \<open>__libc_start\<close>. The registers it
  sets are local values here. The scan for the end of the environment may not end; it is then \<open>None\<close>.
\<close>

section \<open>The code\<close>

partial_function (option) scan_env :: "mem \<Rightarrow> addr \<Rightarrow> addr option" where
  "scan_env m rcx = (if get64 m rcx = 0 then Some rcx else scan_env m (rcx + 8))"

definition entry_start ::
  "'k kernel \<Rightarrow> (i32 \<Rightarrow> addr \<Rightarrow> libc_state \<Rightarrow> 'k machine \<Rightarrow> i32 \<times> 'k machine) \<Rightarrow>
     addr \<Rightarrow> libc_state \<Rightarrow> 'k machine \<Rightarrow> 'k machine option" where
  "entry_start K main rsp s k =
     (let rdi = get64 (memory k) rsp;
          rsi = rsp + 8;
          rdx = push_bit 3 (rdi + 1) + rsi
      in case scan_env (memory k) rdx of
           None \<Rightarrow> None
         | Some rcx \<Rightarrow> libc_start K main (cast_int rdi) rsi rdx (rcx + 8) s k)"

section \<open>The entry stack\<close>

text \<open>
  What the kernel promises: from the stack pointer upwards the argument count, the argument
  pointers and a zero, the environment pointers and a zero, and the pairs of the auxiliary vector
  with a zero as the last type.
\<close>

fun words_at :: "mem \<Rightarrow> addr \<Rightarrow> u64 list \<Rightarrow> bool" where
  "words_at m a [] \<longleftrightarrow> True"
| "words_at m a (w # ws) \<longleftrightarrow> get64 m a = w \<and> words_at m (a + 8) ws"

definition aux_words :: "(u64 \<times> u64) list \<Rightarrow> u64 list" where
  "aux_words aux = concat (map (\<lambda>(t, v). [t, v]) aux) @ [0]"

definition entry_stack :: "mem \<Rightarrow> addr \<Rightarrow> u64 list \<Rightarrow> u64 list \<Rightarrow> (u64 \<times> u64) list \<Rightarrow> bool" where
  "entry_stack m rsp args env aux \<longleftrightarrow>
     words_at m rsp (of_nat (length args) # args @ 0 # env @ 0 # aux_words aux)"

lemma words_at_append:
  "words_at m a (xs @ ys) \<longleftrightarrow> words_at m a xs \<and> words_at m (a + 8 * of_nat (length xs)) ys"
  by (induction xs arbitrary: a) (auto simp: algebra_simps)

lemma scan_env_end: "words_at m a (env @ [0]) \<Longrightarrow> 0 \<notin> set env \<Longrightarrow> scan_env m a = Some (a + 8 * of_nat (length env))"
proof (induction env arbitrary: a)
  case Nil
  then show ?case by (subst scan_env.simps) simp
next
  case (Cons e env)
  then have "scan_env m (a + 8) = Some (a + 8 + 8 * of_nat (length env))" by simp
  with Cons.prems show ?case by (subst scan_env.simps) (auto simp: algebra_simps)
qed

lemma auxv_loop_lookup:
  "words_at m a (aux_words aux) \<Longrightarrow> 0 \<notin> fst ` set aux \<Longrightarrow>
     auxv_loop m t a = Some (case map_of aux t of Some v \<Rightarrow> v | None \<Rightarrow> 0)"
proof (induction aux arbitrary: a)
  case Nil
  then show ?case by (subst auxv_loop.simps) (simp add: aux_words_def)
next
  case (Cons x aux)
  obtain y v where x: "x = (y, v)" by (cases x)
  with Cons.prems have w: "get64 m a = y" "get64 m (a + 8) = v" "words_at m (a + 16) (aux_words aux)"
    by (simp_all add: aux_words_def algebra_simps)
  from Cons.IH [OF w(3)] Cons.prems have "auxv_loop m t (a + 16) =
      Some (case map_of aux t of Some v \<Rightarrow> v | None \<Rightarrow> 0)" by simp
  with w Cons.prems x show ?case by (subst auxv_loop.simps) auto
qed

lemma entry_stack_parts:
  assumes "entry_stack m rsp args env aux"
  shows "get64 m rsp = of_nat (length args)" and "words_at m (rsp + 8) (args @ [0])"
    and "words_at m (rsp + 8 * of_nat (length args + 2)) (env @ [0])"
    and "words_at m (rsp + 8 * of_nat (length args + length env + 3)) (aux_words aux)"
  using assms by (simp_all add: entry_stack_def words_at_append algebra_simps)

section \<open>Properties\<close>

text \<open>
  C31. Process entry. On the stack the kernel promises, with fewer than \<open>2 ^ 31\<close> arguments and no null
  pointer in the environment, \<open>_start\<close> calls \<open>__libc_start\<close> with the argument count, the argument
  vector, the environment and the auxiliary vector where the kernel put them; and with that vector
  \<open>getauxval\<close> returns for every type the kernel's first value for it, and 0 for a type that is absent.
\<close>

theorem entry_hands_over_the_stack:
  assumes "entry_stack (memory k) rsp args env aux" and "length args < 2 ^ 31"
    and "0 \<notin> set env" and "0 \<notin> fst ` set aux"
    and "auxv = rsp + 8 * of_nat (length args + length env + 3)" and "auxv \<noteq> 0"
  shows "entry_start K main rsp s k =
           libc_start K main (of_nat (length args)) (rsp + 8) (rsp + 8 * of_nat (length args + 2)) auxv s k \<and>
         sint (of_nat (length args) :: i32) = int (length args) \<and>
         words_at (memory k) (rsp + 8) (args @ [0]) \<and>
         words_at (memory k) (rsp + 8 * of_nat (length args + 2)) (env @ [0]) \<and>
         getauxval (memory k) (s\<lparr>auxv_table := auxv\<rparr>) t =
           Some (case map_of aux t of Some v \<Rightarrow> v | None \<Rightarrow> 0)"
proof -
  note p = entry_stack_parts [OF assms(1)]
  let ?envp = "rsp + 8 * of_nat (length args + 2) :: addr"
  have e: "push_bit 3 (of_nat (length args) + 1) + (rsp + 8) = ?envp"
    by (simp add: push_bit_eq_mult algebra_simps)
  have a: "?envp + 8 * of_nat (length env) + 8 = auxv" using assms(5) by (simp add: algebra_simps)
  have "cast_int (of_nat (length args)) = of_nat (length args)"
    by (rule bit_word_eqI) (simp add: bit_simps)
  then have "entry_start K main rsp s k =
      libc_start K main (of_nat (length args)) (rsp + 8) ?envp auxv s k"
    unfolding entry_start_def Let_def p(1) e scan_env_end [OF p(3) assms(3)] option.case a by (simp only:)
  moreover have "auxv_loop (memory k) t auxv = Some (case map_of aux t of Some v \<Rightarrow> v | None \<Rightarrow> 0)"
    using auxv_loop_lookup [OF p(4) assms(4)] assms(5) by simp
  ultimately show ?thesis using p(2,3) assms(2,6) sint_of_nat_small [of "length args"]
    by (simp add: getauxval_def)
qed

text \<open>A process with one argument, one environment string and the page size in its auxiliary vector.\<close>

definition demo_entry :: "unit machine" where
  "demo_entry = \<lparr>memory = (\<lambda>a. if a = 0x1000 then 1 else if a = 0x1009 then 0x20
     else if a = 0x1019 then 0x30 else if a = 0x1028 then 6 else if a = 0x1031 then 0x10 else 0),
     kstate = ()\<rparr>"

lemma demo_entry_stack: "entry_stack (memory demo_entry) 0x1000 [0x2000] [0x3000] [(6, 4096)]"
  by code_simp

theorem entry_hands_over_the_stack_witness:
  "entry_start (\<lambda>f k. (0, k)) (\<lambda>c v s k. (0, k)) 0x1000 tls_demo demo_entry =
     libc_start (\<lambda>f k. (0, k)) (\<lambda>c v s k. (0, k)) 1 0x1008 0x1018 0x1028 tls_demo demo_entry \<and>
   getauxval (memory demo_entry) (tls_demo\<lparr>auxv_table := 0x1028\<rparr>) 6 = Some 4096"
  using entry_hands_over_the_stack [OF demo_entry_stack, where auxv = "0x1028" and t = 6] by simp

end
