(* ===== verification/Neo_Dirent.thy ===== *)
theory Neo_Dirent
  imports Neo_Syscall Neo_Bytes
begin

text \<open>
  Directory streams (\<open>src/dirent.c\<close>): a static table of four streams, each with a 512-byte buffer
  that \<open>getdents\<close> fills with variable-length records. \<open>bufs i\<close> is the address of the buffer of
  stream \<open>i\<close>; a \<open>DIR *\<close> is an index or, for a null pointer, \<open>None\<close>. \<open>readdir\<close> returns the address
  of a record inside the buffer.
\<close>

section \<open>The code\<close>

abbreviation (input) DIRENT_BUF_SIZE :: i32 where "DIRENT_BUF_SIZE \<equiv> 512"
abbreviation (input) MAX_OPEN_DIRS :: nat where "MAX_OPEN_DIRS \<equiv> 4"
abbreviation (input) O_RDONLY :: i32 where "O_RDONLY \<equiv> 0"

record DIR =
  in_use :: i32
  dir_fd :: i32
  valid :: i32
  dir_next :: i32
  at_end :: i32

text \<open>The \<open>d_reclen\<close> field, two bytes at offset 16.\<close>

definition d_reclen :: "mem \<Rightarrow> addr \<Rightarrow> u16" where
  "d_reclen m e = ucast (m (e + 16)) OR push_bit 8 (ucast (m (e + 17)))"

definition opendir ::
  "'k kernel \<Rightarrow> (nat \<Rightarrow> addr) \<Rightarrow> addr \<Rightarrow> DIR list \<Rightarrow> 'k machine \<Rightarrow>
     (nat option \<times> DIR list \<times> 'k machine) option" where
  "opendir K bufs path dirs k =
     (case first_fit (\<lambda>d. in_use d = 0) dirs of
        None \<Rightarrow> Some (None, dirs, k)
      | Some d \<Rightarrow>
          (case open_c K path O_RDONLY k of
             None \<Rightarrow> None
           | Some (fd, k) \<Rightarrow>
               if sint fd < 0 then Some (None, dirs, k)
               else let (rc, k) = getdents K fd (bufs d) DIRENT_BUF_SIZE k in
                    if sint rc < 0 then Some (None, dirs, snd (close K fd k))
                    else Some (Some d, dirs[d := \<lparr>in_use = 1, dir_fd = fd, valid = rc, dir_next = 0,
                                at_end = of_bool (rc = 0)\<rparr>], k)))"

definition readdir ::
  "'k kernel \<Rightarrow> (nat \<Rightarrow> addr) \<Rightarrow> nat option \<Rightarrow> DIR list \<Rightarrow> 'k machine \<Rightarrow>
     addr option \<times> DIR list \<times> 'k machine" where
  "readdir K bufs dp dirs k =
     (case dp of
        None \<Rightarrow> (None, dirs, k)
      | Some i \<Rightarrow>
          let d = dirs ! i;
              hand_out = (\<lambda>d k. let e = bufs i + sext (dir_next d) in
                (Some e, dirs[i := d\<lparr>dir_next := dir_next d + ucast (d_reclen (memory k) e)\<rparr>], k))
          in if in_use d = 0 then (None, dirs, k)
             else if sint (dir_next d) \<ge> sint (valid d)
             then if at_end d \<noteq> 0 then (None, dirs, k)
                  else let (rc, k) = getdents K (dir_fd d) (bufs i) DIRENT_BUF_SIZE k in
                       if sint rc \<le> 0 then (None, dirs[i := d\<lparr>at_end := 1\<rparr>], k)
                       else hand_out (d\<lparr>valid := rc, dir_next := 0\<rparr>) k
             else hand_out d k)"

definition closedir ::
  "'k kernel \<Rightarrow> nat option \<Rightarrow> DIR list \<Rightarrow> 'k machine \<Rightarrow> i32 \<times> DIR list \<times> 'k machine" where
  "closedir K dp dirs k =
     (case dp of
        None \<Rightarrow> (- EBADF, dirs, k)
      | Some i \<Rightarrow>
          if in_use (dirs ! i) = 0 then (- EBADF, dirs, k)
          else let (rc, k) = close K (dir_fd (dirs ! i)) k in
               (rc, dirs[i := \<lparr>in_use = 0, dir_fd = - 1, valid = 0, dir_next = 0, at_end = 0\<rparr>], k))"

section \<open>Records in a buffer\<close>

definition reclen_of :: "u8 list \<Rightarrow> nat" where
  "reclen_of r = unat (ucast (r ! 16) OR push_bit 8 (ucast (r ! 17)) :: u16)"

definition record_ok :: "u8 list \<Rightarrow> bool" where
  "record_ok r \<longleftrightarrow> 19 \<le> length r \<and> reclen_of r = length r"

fun total :: "u8 list list \<Rightarrow> nat" where
  "total [] = 0"
| "total (r # rs) = length r + total rs"

fun records_at :: "mem \<Rightarrow> addr \<Rightarrow> u8 list list \<Rightarrow> bool" where
  "records_at m a [] \<longleftrightarrow> True"
| "records_at m a (r # rs) \<longleftrightarrow> record_ok r \<and> bytes_at m a r \<and> records_at m (a + of_nat (length r)) rs"

text \<open>
  What the kernel promises of \<open>getdents\<close>: successive calls deliver batches of complete records
  that fit the buffer, then 0.
\<close>

inductive dents :: "'k kernel \<Rightarrow> i32 \<Rightarrow> addr \<Rightarrow> 'k machine \<Rightarrow> u8 list list list \<Rightarrow> 'k machine \<Rightarrow> bool"
  for K :: "'k kernel" and fd :: i32 and buf :: addr where
  dents_end: "getdents K fd buf DIRENT_BUF_SIZE k = (0, k') \<Longrightarrow> dents K fd buf k [] k'"
| dents_batch: "getdents K fd buf DIRENT_BUF_SIZE k = (of_nat (total b), k1) \<Longrightarrow> b \<noteq> [] \<Longrightarrow>
     total b \<le> 512 \<Longrightarrow> records_at (memory k1) buf b \<Longrightarrow> dents K fd buf k1 bs k' \<Longrightarrow>
     dents K fd buf k (b # bs) k'"

text \<open>
  A stream with the records \<open>rs\<close> of its buffer still to hand out and the batches \<open>bs\<close> still to
  read.
\<close>

definition stream ::
  "'k kernel \<Rightarrow> (nat \<Rightarrow> addr) \<Rightarrow> nat \<Rightarrow> DIR list \<Rightarrow> 'k machine \<Rightarrow> u8 list list \<Rightarrow>
     u8 list list list \<Rightarrow> 'k machine \<Rightarrow> bool" where
  "stream K bufs i dirs k rs bs k' \<longleftrightarrow>
     i < length dirs \<and> in_use (dirs ! i) \<noteq> 0 \<and> 0 \<le> sint (dir_next (dirs ! i)) \<and>
     sint (dir_next (dirs ! i)) + int (total rs) = sint (valid (dirs ! i)) \<and>
     sint (valid (dirs ! i)) \<le> 512 \<and>
     records_at (memory k) (bufs i + sext (dir_next (dirs ! i))) rs \<and>
     (if at_end (dirs ! i) \<noteq> 0 then bs = [] \<and> k' = k else dents K (dir_fd (dirs ! i)) (bufs i) k bs k')"

lemma d_reclen_record:
  assumes "record_ok r" and "bytes_at m e r"
  shows "unat (d_reclen m e) = length r" and "ucast (d_reclen m e) = (of_nat (length r) :: i32)"
proof -
  have n: "\<forall>i<length r. m (e + of_nat i) = r ! i" using assms(2) by (simp add: bytes_at_nth)
  have "m (e + 16) = r ! 16" "m (e + 17) = r ! 17"
    using n [rule_format, of 16] n [rule_format, of 17] assms(1) by (simp_all add: record_ok_def)
  then have "d_reclen m e = ucast (r ! 16) OR push_bit 8 (ucast (r ! 17))" by (simp add: d_reclen_def)
  with assms(1) show u: "unat (d_reclen m e) = length r" by (simp add: record_ok_def reclen_of_def)
  show "ucast (d_reclen m e) = (of_nat (length r) :: i32)"
    unfolding u [symmetric] by simp
qed

lemma sext_add_small:
  assumes "0 \<le> sint (a :: i32)" and "sint a + int n < 2147483648"
  shows "sint (a + of_nat n) = sint a + int n" and "sext (a + of_nat n) = sext a + of_nat n"
proof -
  have "a + of_nat n = word_of_int (sint a + int n)" by simp
  then show s: "sint (a + of_nat n) = sint a + int n"
    using sint_word_of_int_i32 [of "sint a + int n"] assms by simp
  show "sext (a + of_nat n) = sext a + of_nat n"
    unfolding scast_eq [of "a + of_nat n"] s scast_eq [of a] by simp
qed

text \<open>Handing out the next record of the buffer.\<close>

lemma hand_out_stream:
  assumes st: "stream K bufs i dirs k (r # rs) bs k'"
  shows "\<exists>dirs'. readdir K bufs (Some i) dirs k = (Some (bufs i + sext (dir_next (dirs ! i))), dirs', k) \<and>
           bytes_at (memory k) (bufs i + sext (dir_next (dirs ! i))) r \<and>
           stream K bufs i dirs' k rs bs k'"
proof -
  let ?d = "dirs ! i" let ?e = "bufs i + sext (dir_next ?d)"
  note s = st [unfolded stream_def]
  have r: "record_ok r" "bytes_at (memory k) ?e r" "records_at (memory k) (?e + of_nat (length r)) rs"
    using s by auto
  have le: "0 \<le> sint (dir_next ?d)" "sint (dir_next ?d) + int (length r) < 2147483648" using s by auto
  note sx = sext_add_small [OF le]
  let ?d' = "?d\<lparr>dir_next := dir_next ?d + of_nat (length r)\<rparr>"
  have "0 < length r" using r(1) by (auto simp: record_ok_def)
  moreover have "sint (dir_next ?d) + int (length r) \<le> sint (valid ?d)" using s by auto
  ultimately have "sint (dir_next ?d) < sint (valid ?d)" by linarith
  then have "readdir K bufs (Some i) dirs k = (Some ?e, dirs[i := ?d'], k)"
    using s d_reclen_record(2) [OF r(1,2)] by (simp add: readdir_def Let_def)
  moreover have "stream K bufs i (dirs[i := ?d']) k rs bs k'"
    using s r(3) sx by (auto simp: stream_def add.assoc)
  ultimately show ?thesis using r(2) by blast
qed

lemma refill_stream:
  assumes st: "stream K bufs i dirs k [] (b # bs) k'"
  shows "\<exists>dirs' k1. readdir K bufs (Some i) dirs k = readdir K bufs (Some i) dirs' k1 \<and>
           stream K bufs i dirs' k1 b bs k'"
proof -
  let ?d = "dirs ! i"
  note s = st [unfolded stream_def]
  have e: "at_end ?d = 0" "dents K (dir_fd ?d) (bufs i) k (b # bs) k'" using s by (auto split: if_splits)
  from e(2) obtain k1 where g: "getdents K (dir_fd ?d) (bufs i) DIRENT_BUF_SIZE k = (of_nat (total b), k1)"
    "b \<noteq> []" "total b \<le> 512" "records_at (memory k1) (bufs i) b" "dents K (dir_fd ?d) (bufs i) k1 bs k'"
    by (cases rule: dents.cases) auto
  have pos: "0 < total b" using g(2,4) by (cases b) (auto simp: record_ok_def)
  have rc: "sint (of_nat (total b) :: i32) = int (total b)" using g(3) by (simp add: sint_of_nat_small)
  let ?d' = "?d\<lparr>valid := of_nat (total b), dir_next := 0\<rparr>"
  have "stream K bufs i (dirs[i := ?d']) k1 b bs k'"
    using s e(1) g rc by (simp add: stream_def)
  moreover have "readdir K bufs (Some i) dirs k = readdir K bufs (Some i) (dirs[i := ?d']) k1"
    using s e(1) g(1) rc pos by (simp add: readdir_def Let_def)
  ultimately show ?thesis by blast
qed

lemma end_stream:
  assumes st: "stream K bufs i dirs k [] [] k'"
  shows "\<exists>dirs'. readdir K bufs (Some i) dirs k = (None, dirs', k') \<and> stream K bufs i dirs' k' [] [] k'"
proof -
  let ?d = "dirs ! i"
  note s = st [unfolded stream_def]
  show ?thesis
  proof (cases "at_end ?d = 0")
    case False
    with s st show ?thesis by (auto simp: readdir_def Let_def)
  next
    case True
    with s have "dents K (dir_fd ?d) (bufs i) k [] k'" by simp
    then have "getdents K (dir_fd ?d) (bufs i) DIRENT_BUF_SIZE k = (0, k')" by (cases rule: dents.cases) auto
    with s True show ?thesis by (simp add: readdir_def Let_def stream_def)
  qed
qed

text \<open>
  A client's listing loop: call \<open>readdir\<close> until it returns a null pointer, at most \<open>n\<close> times; the records
  read, and the table and the machine then.
\<close>

fun list_dir ::
  "'k kernel \<Rightarrow> (nat \<Rightarrow> addr) \<Rightarrow> nat \<Rightarrow> nat \<Rightarrow> DIR list \<Rightarrow> 'k machine \<Rightarrow> u8 list list \<times> DIR list \<times> 'k machine" where
  "list_dir K bufs i 0 dirs k = ([], dirs, k)"
| "list_dir K bufs i (Suc n) dirs k =
     (case readdir K bufs (Some i) dirs k of
        (None, dirs, k) \<Rightarrow> ([], dirs, k)
      | (Some e, dirs, k) \<Rightarrow>
          map_prod ((#) (load_bytes (memory k) e (unat (d_reclen (memory k) e)))) id (list_dir K bufs i n dirs k))"

text \<open>\<open>readdir\<close> touches no other stream and keeps the descriptor of its own.\<close>

definition same_stream :: "nat \<Rightarrow> DIR list \<Rightarrow> DIR list \<Rightarrow> bool" where
  "same_stream i dirs dirs' \<longleftrightarrow> length dirs' = length dirs \<and> (\<forall>j. j \<noteq> i \<longrightarrow> dirs' ! j = dirs ! j) \<and>
     dir_fd (dirs' ! i) = dir_fd (dirs ! i) \<and> in_use (dirs' ! i) = in_use (dirs ! i)"

lemma readdir_same: "readdir K bufs (Some i) dirs k = (r, dirs', k') \<Longrightarrow> i < length dirs \<Longrightarrow> same_stream i dirs dirs'"
  by (auto simp: readdir_def Let_def same_stream_def split: if_splits prod.splits)

lemma list_dir_same: "list_dir K bufs i n dirs k = (rs, dirs', k') \<Longrightarrow> i < length dirs \<Longrightarrow> same_stream i dirs dirs'"
proof (induction n arbitrary: dirs k rs)
  case (Suc n)
  obtain r d1 k1 where r: "readdir K bufs (Some i) dirs k = (r, d1, k1)" by (metis prod_cases3)
  note same = readdir_same [OF r Suc.prems(2)]
  show ?case
  proof (cases r)
    case (Some e)
    with Suc.prems(1) r obtain rs' where "list_dir K bufs i n d1 k1 = (rs', dirs', k')" by (auto simp: map_prod_def split: prod.splits)
    from Suc.IH [OF this] same Suc.prems(2) show ?thesis by (simp add: same_stream_def)
  qed (use same Suc.prems(1) r in simp)
qed (simp add: same_stream_def)

lemma bytes_at_load: "bytes_at m a r \<Longrightarrow> load_bytes m a (length r) = r"
  by (rule nth_equalityI) (simp_all add: load_bytes_nth bytes_at_nth)

lemma list_dir_stream:
  "stream K bufs i dirs k rs bs k' \<Longrightarrow> length (rs @ concat bs) < n \<Longrightarrow>
     fst (list_dir K bufs i n dirs k) = rs @ concat bs"
proof (induction n arbitrary: dirs k rs bs)
  case (Suc n)
  have step: "fst (list_dir K bufs i (Suc n) dirs k) = (r # rs') @ concat bs'"
    if st: "stream K bufs i dirs k (r # rs') bs' k'" and le: "length (rs' @ concat bs') < n"
    for dirs k r rs' bs'
  proof -
    from hand_out_stream [OF st] obtain dirs' where
      h: "readdir K bufs (Some i) dirs k = (Some (bufs i + sext (dir_next (dirs ! i))), dirs', k)"
        "bytes_at (memory k) (bufs i + sext (dir_next (dirs ! i))) r"
        "stream K bufs i dirs' k rs' bs' k'" by blast
    have "record_ok r" using st by (simp add: stream_def)
    from d_reclen_record(1) [OF this h(2)] bytes_at_load [OF h(2)] Suc.IH [OF h(3) le] h(1)
    show ?thesis by simp
  qed
  show ?case
  proof (cases rs)
    case (Cons r rs')
    with step [of dirs k r rs' bs] Suc.prems show ?thesis by simp
  next
    case Nil
    show ?thesis
    proof (cases bs)
      case Nil
      with \<open>rs = []\<close> end_stream [of K bufs i dirs k k'] Suc.prems show ?thesis by auto
    next
      case (Cons b bs')
      from Suc.prems(1) \<open>rs = []\<close> Cons refill_stream obtain dirs' k1 where
        f: "readdir K bufs (Some i) dirs k = readdir K bufs (Some i) dirs' k1"
          "stream K bufs i dirs' k1 b bs' k'" by blast
      have "dents K (dir_fd (dirs ! i)) (bufs i) k (b # bs') k'"
        using Suc.prems(1) Cons by (auto simp: stream_def split: if_splits)
      then obtain r rs' where b: "b = r # rs'" by (cases rule: dents.cases) (auto simp: neq_Nil_conv)
      have "list_dir K bufs i (Suc n) dirs k = list_dir K bufs i (Suc n) dirs' k1" using f(1) by simp
      with step [of dirs' k1 r rs' bs'] f(2) b Suc.prems(2) Cons \<open>rs = []\<close> show ?thesis by simp
    qed
  qed
qed simp

section \<open>Properties\<close>

text \<open>Opening a directory the kernel delivers in batches.\<close>

lemma opendir_stream:
  assumes "first_fit (\<lambda>d. in_use d = 0) dirs = Some d"
    and "open_c K path O_RDONLY k = Some (fd, k0)" and "0 \<le> sint fd"
    and "dents K fd (bufs d) k0 bs k'"
  shows "\<exists>x k1 rs bs'. opendir K bufs path dirs k = Some (Some d, dirs[d := x], k1) \<and> dir_fd x = fd \<and>
           stream K bufs d (dirs[d := x]) k1 rs bs' k' \<and> rs @ concat bs' = concat bs"
proof -
  have d: "d < length dirs" using first_fit_SomeD [OF assms(1)] by simp
  have fd: "\<not> sint fd < 0" using assms(3) by simp
  from assms(4) show ?thesis
  proof cases
    case dents_end
    let ?x = "\<lparr>in_use = 1, dir_fd = fd, valid = 0, dir_next = 0, at_end = 1\<rparr>"
    have "opendir K bufs path dirs k = Some (Some d, dirs[d := ?x], k')"
      using assms(1,2) fd dents_end by (simp add: opendir_def)
    moreover have "stream K bufs d (dirs[d := ?x]) k' [] [] k'" using d by (simp add: stream_def)
    ultimately show ?thesis using dents_end(1) by fastforce
  next
    case (dents_batch b k1 bs')
    have rc: "sint (of_nat (total b) :: i32) = int (total b)" using dents_batch(4) by (simp add: sint_of_nat_small)
    have "0 < total b" using dents_batch(3,5) by (cases b) (auto simp: record_ok_def)
    then have "sint (of_nat (total b) :: i32) \<noteq> 0" unfolding rc by simp
    then have nz: "(of_nat (total b) :: i32) \<noteq> 0" by (metis signed_0)
    let ?x = "\<lparr>in_use = 1, dir_fd = fd, valid = of_nat (total b), dir_next = 0, at_end = 0\<rparr>"
    have "opendir K bufs path dirs k = Some (Some d, dirs[d := ?x], k1)"
      using assms(1,2) fd dents_batch(2) rc nz by (simp add: opendir_def)
    moreover have "stream K bufs d (dirs[d := ?x]) k1 b bs' k'"
      using d dents_batch rc by (simp add: stream_def)
    ultimately show ?thesis using dents_batch(1) by fastforce
  qed
qed

text \<open>
  C30. A directory listing is complete and gives everything back. With a free stream, an \<open>open\<close> that succeeds
  and a kernel that delivers the directory in batches of records, \<open>opendir\<close> succeeds, a loop of \<open>readdir\<close>
  hands out exactly the records of all batches, each once and in order, before the null pointer, and \<open>closedir\<close>
  then closes the descriptor that was opened and returns the kernel's answer; the stream is free again, so that the next
  \<open>opendir\<close> takes it, and no other stream has changed.
\<close>

theorem directory_listing_complete:
  assumes "first_fit (\<lambda>d. in_use d = 0) dirs = Some d"
    and "open_c K path O_RDONLY k = Some (fd, k0)" and "0 \<le> sint fd"
    and "dents K fd (bufs d) k0 bs k'" and "length (concat bs) < n"
  shows "\<exists>dirs1 k1 dirs2 k2 dirs3 rc k3. opendir K bufs path dirs k = Some (Some d, dirs1, k1) \<and>
           list_dir K bufs d n dirs1 k1 = (concat bs, dirs2, k2) \<and>
           closedir K (Some d) dirs2 k2 = (rc, dirs3, k3) \<and> close K fd k2 = (rc, k3) \<and>
           first_fit (\<lambda>d. in_use d = 0) dirs3 = Some d \<and> (\<forall>j. j \<noteq> d \<longrightarrow> dirs3 ! j = dirs ! j)"
proof -
  note d = first_fit_SomeD [OF assms(1)]
  from opendir_stream [where bufs = bufs, OF assms(1-4)] obtain x k1 rs bs' where
    o: "opendir K bufs path dirs k = Some (Some d, dirs[d := x], k1)" "dir_fd x = fd"
      "stream K bufs d (dirs[d := x]) k1 rs bs' k'" "rs @ concat bs' = concat bs" by blast
  obtain dirs2 k2 where l: "list_dir K bufs d n (dirs[d := x]) k1 = (concat bs, dirs2, k2)"
    using list_dir_stream [OF o(3)] o(4) assms(5) by (metis prod.collapse)
  from list_dir_same [OF l] d have same: "same_stream d (dirs[d := x]) dirs2" by simp
  moreover have "in_use (dirs[d := x] ! d) \<noteq> 0" using o(3) unfolding stream_def by blast
  ultimately have use: "in_use (dirs2 ! d) \<noteq> 0" "dir_fd (dirs2 ! d) = fd" "length dirs2 = length dirs"
    "\<forall>j. j \<noteq> d \<longrightarrow> dirs2 ! j = dirs ! j" using o(2) d by (simp_all add: same_stream_def)
  obtain rc k3 where c: "close K fd k2 = (rc, k3)" by (metis surj_pair)
  let ?dirs3 = "dirs2[d := \<lparr>in_use = 0, dir_fd = - 1, valid = 0, dir_next = 0, at_end = 0\<rparr>]"
  have "closedir K (Some d) dirs2 k2 = (rc, ?dirs3, k3)" using use c by (simp add: closedir_def)
  moreover have "first_fit (\<lambda>d. in_use d = 0) ?dirs3 = Some d"
    using d use(3,4) by (simp add: first_fit_Some_iff)
  moreover have "\<forall>j. j \<noteq> d \<longrightarrow> ?dirs3 ! j = dirs ! j" using use(4) by simp
  ultimately show ?thesis using o(1) l c by blast
qed

text \<open>A directory with one record, on a kernel that delivers it in one batch.\<close>

definition demo_record :: "u8 list" where
  "demo_record = replicate 16 0 @ [19, 0, 8]"

definition demo_kernel :: "nat kernel" where
  "demo_kernel f k =
     (if rax f = SYS_OPEN then (3, k)
      else if rax f = SYS_GETDENTS \<and> kstate k = 0
      then (19, k\<lparr>memory := store_bytes (memory k) 64 demo_record, kstate := 1\<rparr>)
      else (0, k))"

definition demo_start :: "nat machine" where
  "demo_start = \<lparr>memory = (\<lambda>_. 0), kstate = 0\<rparr>"

definition demo_dirs :: "DIR list" where
  "demo_dirs = replicate 4 \<lparr>in_use = 0, dir_fd = 0, valid = 0, dir_next = 0, at_end = 0\<rparr>"

theorem directory_listing_complete_witness:
  "\<exists>dirs1 k1 dirs2 k2 dirs3 k3. opendir demo_kernel (\<lambda>_. 64) 1000 demo_dirs demo_start = Some (Some 0, dirs1, k1) \<and>
     list_dir demo_kernel (\<lambda>_. 64) 0 2 dirs1 k1 = ([demo_record], dirs2, k2) \<and>
     closedir demo_kernel (Some 0) dirs2 k2 = (0, dirs3, k3) \<and> first_fit (\<lambda>d. in_use d = 0) dirs3 = Some 0"
proof -
  let ?k1 = "demo_start\<lparr>memory := store_bytes (memory demo_start) 64 demo_record, kstate := 1\<rparr>"
  have l: "length demo_record = 19" "record_ok demo_record"
    by (simp_all add: demo_record_def record_ok_def reclen_of_def nth_append)
  have g: "getdents demo_kernel 3 64 512 k = (19, k\<lparr>memory := store_bytes (memory k) 64 demo_record,
      kstate := 1\<rparr>)" if "kstate k = 0" for k
    using that by (simp add: getdents_def wrapper_defs demo_kernel_def)
  have e: "getdents demo_kernel 3 64 512 ?k1 = (0, ?k1)"
    by (simp add: getdents_def wrapper_defs demo_kernel_def)
  have d: "dents demo_kernel 3 64 demo_start [[demo_record]] ?k1"
    using g [of demo_start] l bytes_at_store [of demo_record] e
    by (intro dents_batch dents_end) (auto simp: demo_start_def)
  have o: "open_c demo_kernel 1000 0 demo_start = Some (3, demo_start)"
    using with_strlen_cstring [of demo_start 1000 "[]"]
    by (simp add: open_c_def wrapper_defs demo_kernel_def demo_start_def)
  have f: "first_fit (\<lambda>d. in_use d = 0) demo_dirs = Some 0"
    by (simp add: demo_dirs_def numeral_eq_Suc)
  have c: "close demo_kernel 3 k = (0, k)" for k by (simp add: close_def wrapper_defs demo_kernel_def)
  from directory_listing_complete [OF f o _ d, of 2] show ?thesis by (fastforce simp: c)
qed

end
