(* ===== verification/Neo_Signal.thy ===== *)
theory Neo_Signal
  imports Neo_Syscall Neo_Bytes
begin

text \<open>
  Signals (\<open>src/signal.c\<close> and the inline functions of \<open>include/signal.h\<close>), the descriptor sets of
  \<open>include/poll.h\<close>, the status macros of \<open>include/sys/wait.h\<close> and the \<open>ioctl\<close> command encoding of
  \<open>include/linux/input.h\<close>. A \<open>sigset_t\<close> is a 64-bit word, an \<open>fd_set\<close> sixteen of them. Both are
  sets of small numbers; the locale \<open>bit_set\<close> states what that means once.
\<close>

section \<open>Signal actions\<close>

abbreviation (input) SA_RESTORER :: u64 where "SA_RESTORER \<equiv> 0x04000000"

text \<open>
  \<open>struct sigaction\<close> is handler, flags, mask; \<open>struct k_sigaction\<close> is handler, flags, restorer,
  mask; each field takes eight bytes. \<open>ka\<close> and \<open>ko\<close> are the addresses of the two local structures,
  \<open>restore_rt\<close> that of the trampoline.
\<close>

definition sigaction ::
  "'k kernel \<Rightarrow> addr \<Rightarrow> addr \<Rightarrow> addr \<Rightarrow> i32 \<Rightarrow> addr \<Rightarrow> addr \<Rightarrow> 'k machine \<Rightarrow> i32 \<times> 'k machine" where
  "sigaction K restore_rt ka ko sig act old k =
     (let m = memory k;
          m = (if act \<noteq> 0
               then put64 (put64 (put64 (put64 m ka (get64 m act))
                      (ka + 8) (get64 m (act + 8) OR SA_RESTORER))
                      (ka + 16) restore_rt)
                      (ka + 24) (get64 m (act + 16))
               else m);
          (rc, k) = sys_rt_sigaction K sig (if act \<noteq> 0 then ka else 0) (if old \<noteq> 0 then ko else 0)
                      (k\<lparr>memory := m\<rparr>);
          k = (if rc = 0 \<and> old \<noteq> 0
               then k\<lparr>memory := put64 (put64 (put64 (memory k) old (get64 (memory k) ko))
                        (old + 8) (get64 (memory k) (ko + 8) AND NOT SA_RESTORER))
                        (old + 16) (get64 (memory k) (ko + 24))\<rparr>
               else k)
      in (cast_int rc, k))"

definition raise :: "'k kernel \<Rightarrow> i32 \<Rightarrow> 'k machine \<Rightarrow> i32 \<times> 'k machine" where
  "raise K sig k = (let (tid, k) = sys_thread_self K k in tkill K tid sig k)"

section \<open>Signal sets\<close>

abbreviation sig_bit :: "i32 \<Rightarrow> u64" where
  "sig_bit sig \<equiv> push_bit (nat (sint sig - 1)) 1"

definition sigemptyset :: u64 where
  "sigemptyset = 0"

definition sigfillset :: u64 where
  "sigfillset = NOT 0"

definition sigaddset :: "u64 \<Rightarrow> i32 \<Rightarrow> u64" where
  "sigaddset s sig = s OR sig_bit sig"

definition sigdelset :: "u64 \<Rightarrow> i32 \<Rightarrow> u64" where
  "sigdelset s sig = s AND NOT (sig_bit sig)"

definition sigismember :: "u64 \<Rightarrow> i32 \<Rightarrow> bool" where
  "sigismember s sig \<longleftrightarrow> s AND sig_bit sig \<noteq> 0"

section \<open>Descriptor sets\<close>

type_synonym fd_set = "u64 list"

definition FD_ZERO :: "fd_set" where
  "FD_ZERO = replicate 16 0"

definition FD_SET :: "nat \<Rightarrow> fd_set \<Rightarrow> fd_set" where
  "FD_SET fd s = s[fd div 64 := s ! (fd div 64) OR push_bit (fd mod 64) 1]"

definition FD_CLR :: "nat \<Rightarrow> fd_set \<Rightarrow> fd_set" where
  "FD_CLR fd s = s[fd div 64 := s ! (fd div 64) AND NOT (push_bit (fd mod 64) 1)]"

definition FD_ISSET :: "nat \<Rightarrow> fd_set \<Rightarrow> bool" where
  "FD_ISSET fd s \<longleftrightarrow> drop_bit (fd mod 64) (s ! (fd div 64)) AND 1 \<noteq> 0"

section \<open>Wait status\<close>

definition WIFEXITED :: "i32 \<Rightarrow> bool" where
  "WIFEXITED s \<longleftrightarrow> s AND 0x7f = 0"

definition WEXITSTATUS :: "i32 \<Rightarrow> i32" where
  "WEXITSTATUS s = drop_bit 8 s AND 0xff"

definition WIFSIGNALED :: "i32 \<Rightarrow> bool" where
  "WIFSIGNALED s \<longleftrightarrow> s AND 0x7f \<noteq> 0 \<and> s AND 0xff \<noteq> 0x7f"

definition WTERMSIG :: "i32 \<Rightarrow> i32" where
  "WTERMSIG s = s AND 0x7f"

definition WCOREDUMP :: "i32 \<Rightarrow> i32" where
  "WCOREDUMP s = s AND 0x80"

definition WIFSTOPPED :: "i32 \<Rightarrow> bool" where
  "WIFSTOPPED s \<longleftrightarrow> s AND 0xff = 0x7f"

definition WSTOPSIG :: "i32 \<Rightarrow> i32" where
  "WSTOPSIG s = drop_bit 8 s AND 0xff"

definition WIFCONTINUED :: "i32 \<Rightarrow> bool" where
  "WIFCONTINUED s \<longleftrightarrow> s = 0xffff"

section \<open>The ioctl command encoding\<close>

definition IOC :: "u32 \<Rightarrow> u32 \<Rightarrow> u32 \<Rightarrow> u32 \<Rightarrow> u32" where
  "IOC dir type nr sz = push_bit 30 dir OR push_bit 8 type OR push_bit 0 nr OR push_bit 16 sz"

section \<open>Sets of small numbers\<close>

text \<open>
  The contract of the two bit sets: \<open>elems\<close> is the set a value stands for, among the numbers that
  are in range; the operations act on it as on a set.
\<close>

locale bit_set =
  fixes elems :: "'s \<Rightarrow> 'n set"
    and range :: "'n set"
    and wf :: "'s \<Rightarrow> bool"
    and none :: 's
    and add :: "'n \<Rightarrow> 's \<Rightarrow> 's"
    and del :: "'n \<Rightarrow> 's \<Rightarrow> 's"
    and has :: "'n \<Rightarrow> 's \<Rightarrow> bool"
  assumes elems_none: "wf none \<and> elems none = {}"
    and elems_add: "wf s \<Longrightarrow> n \<in> range \<Longrightarrow> wf (add n s) \<and> elems (add n s) = insert n (elems s)"
    and elems_del: "wf s \<Longrightarrow> n \<in> range \<Longrightarrow> wf (del n s) \<and> elems (del n s) = elems s - {n}"
    and elems_has: "wf s \<Longrightarrow> n \<in> range \<Longrightarrow> has n s \<longleftrightarrow> n \<in> elems s"
begin

lemma has_add: "wf s \<Longrightarrow> n \<in> range \<Longrightarrow> m \<in> range \<Longrightarrow> has m (add n s) \<longleftrightarrow> m = n \<or> has m s"
  using elems_add [of s n] elems_has by auto

lemma has_del: "wf s \<Longrightarrow> n \<in> range \<Longrightarrow> m \<in> range \<Longrightarrow> has m (del n s) \<longleftrightarrow> m \<noteq> n \<and> has m s"
  using elems_del [of s n] elems_has by auto

lemma has_none: "n \<in> range \<Longrightarrow> \<not> has n none"
  using elems_none elems_has by auto

end

definition sig_elems :: "u64 \<Rightarrow> i32 set" where
  "sig_elems s = {sig. 1 \<le> sint sig \<and> sint sig \<le> 64 \<and> bit s (nat (sint sig - 1))}"

definition fd_elems :: "fd_set \<Rightarrow> nat set" where
  "fd_elems s = {fd. fd < 1024 \<and> bit (s ! (fd div 64)) (fd mod 64)}"

lemma bit_pow2_u64: "n < 64 \<Longrightarrow> bit (2 ^ n :: u64) j \<longleftrightarrow> j = n"
  by (auto simp: bit_exp_iff)

lemma and_pow2_nonzero: "n < 64 \<Longrightarrow> (s :: u64) AND push_bit n 1 \<noteq> 0 \<longleftrightarrow> bit s n"
proof -
  assume n: "n < 64"
  have "bit (s AND push_bit n 1) k \<longleftrightarrow> k = n \<and> bit s n" for k
    using n by (auto simp: bit_and_iff bit_pow2_u64)
  then show ?thesis by (metis bit_0_eq bit_eqI bot_apply bot_bool_def)
qed

lemma sig_index_inject:
  "1 \<le> sint a \<Longrightarrow> 1 \<le> sint b \<Longrightarrow> nat (sint a - 1) = nat (sint b - 1) \<longleftrightarrow> a = (b :: i32)"
proof -
  assume "1 \<le> sint a" "1 \<le> sint b"
  then have "nat (sint a - 1) = nat (sint b - 1) \<longleftrightarrow> sint a = sint b" by auto
  also have "\<dots> \<longleftrightarrow> a = b" using signed_word_eqI by blast
  finally show ?thesis .
qed

interpretation sigset: bit_set sig_elems "{sig. 1 \<le> sint sig \<and> sint sig \<le> 64}" "\<lambda>_. True"
    sigemptyset "\<lambda>n s. sigaddset s n" "\<lambda>n s. sigdelset s n" "\<lambda>n s. sigismember s n"
proof unfold_locales
  fix s :: u64 and n :: i32
  assume n: "n \<in> {sig. 1 \<le> sint sig \<and> sint sig \<le> 64}"
  then have i: "nat (sint n - 1) < 64" by auto
  have bit: "bit (sig_bit n) j \<longleftrightarrow> j = nat (sint n - 1)" for j
    using i by (simp add: bit_pow2_u64)
  show "True \<and> sig_elems (sigaddset s n) = insert n (sig_elems s)"
    using n sig_index_inject by (auto simp: sig_elems_def sigaddset_def bit_or_iff bit [simplified])
  show "True \<and> sig_elems (sigdelset s n) = sig_elems s - {n}"
    using n sig_index_inject i by (auto simp: sig_elems_def sigdelset_def bit_and_iff bit_not_iff bit [simplified])
  show "sigismember s n \<longleftrightarrow> n \<in> sig_elems s"
    using n and_pow2_nonzero [OF i] by (simp add: sigismember_def sig_elems_def)
qed (simp add: sig_elems_def sigemptyset_def)

lemma fd_index_inject: "a div 64 = b div 64 \<Longrightarrow> a mod 64 = b mod 64 \<longleftrightarrow> a = (b :: nat)"
  by (metis div_mult_mod_eq)

lemma fd_word_bits:
  assumes "length s = 16" and "n < 1024"
  shows "bit (FD_SET n s ! (m div 64)) (m mod 64) \<longleftrightarrow> m = n \<or> bit (s ! (m div 64)) (m mod 64)"
    and "bit (FD_CLR n s ! (m div 64)) (m mod 64) \<longleftrightarrow> m \<noteq> n \<and> bit (s ! (m div 64)) (m mod 64)"
proof -
  have "n div 64 < 16" using assms(2) by auto
  then show "bit (FD_SET n s ! (m div 64)) (m mod 64) \<longleftrightarrow> m = n \<or> bit (s ! (m div 64)) (m mod 64)"
    "bit (FD_CLR n s ! (m div 64)) (m mod 64) \<longleftrightarrow> m \<noteq> n \<and> bit (s ! (m div 64)) (m mod 64)"
    using assms(1) fd_index_inject [of m n]
    by (cases "m div 64 = n div 64",
        auto simp: FD_SET_def FD_CLR_def bit_or_iff bit_and_iff bit_not_iff bit_pow2_u64)+
qed

interpretation fdset: bit_set fd_elems "{..<1024}" "\<lambda>s. length s = 16" FD_ZERO FD_SET FD_CLR FD_ISSET
proof unfold_locales
  fix s :: fd_set and n :: nat
  assume len: "length s = 16" and n: "n \<in> {..<1024}"
  show "length (FD_SET n s) = 16 \<and> fd_elems (FD_SET n s) = insert n (fd_elems s)"
    using n len by (auto simp: fd_elems_def fd_word_bits(1)) (simp_all add: FD_SET_def)
  show "length (FD_CLR n s) = 16 \<and> fd_elems (FD_CLR n s) = fd_elems s - {n}"
    using n len by (auto simp: fd_elems_def fd_word_bits(2)) (simp_all add: FD_CLR_def)
  show "FD_ISSET n s \<longleftrightarrow> n \<in> fd_elems s"
    using n by (simp add: FD_ISSET_def fd_elems_def and_one_eq odd_iff_mod_2_eq_one bit_iff_odd_drop_bit)
qed (auto simp: fd_elems_def FD_ZERO_def)

section \<open>Properties\<close>

text \<open>
  C37. Signal sets and descriptor sets are sets: after adding a member exactly that member is new,
  after deleting one exactly it is gone, and the empty set has none; for all signals 1 to 64 and
  all descriptors below 1024.
\<close>

theorem bit_sets_are_sets:
  assumes "1 \<le> sint a \<and> sint a \<le> 64" and "1 \<le> sint b \<and> sint b \<le> 64"
    and "length fs = 16" and "m < 1024" and "n < 1024"
  shows "(sigismember (sigaddset s a) b \<longleftrightarrow> b = a \<or> sigismember s b) \<and>
         (sigismember (sigdelset s a) b \<longleftrightarrow> b \<noteq> a \<and> sigismember s b) \<and>
         \<not> sigismember sigemptyset a \<and> sigismember sigfillset a \<and>
         (FD_ISSET n (FD_SET m fs) \<longleftrightarrow> n = m \<or> FD_ISSET n fs) \<and>
         (FD_ISSET n (FD_CLR m fs) \<longleftrightarrow> n \<noteq> m \<and> FD_ISSET n fs) \<and> \<not> FD_ISSET n FD_ZERO"
proof (intro conjI)
  have "nat (sint a - 1) < 64" using assms(1) by auto
  from and_pow2_nonzero [OF this, of "NOT 0"] this show "sigismember sigfillset a"
    by (simp add: sigismember_def sigfillset_def bit_simps)
qed (use assms sigset.has_add [where s = s and n = a and m = b]
      sigset.has_del [where s = s and n = a and m = b] sigset.has_none [of a]
      fdset.has_add [of fs m n] fdset.has_del [of fs m n] fdset.has_none [of n] in auto)

theorem bit_sets_are_sets_witness:
  "sigismember (sigaddset sigemptyset 9) 9 \<and> \<not> sigismember (sigdelset sigfillset 9) 9 \<and>
   FD_ISSET 70 (FD_SET 70 FD_ZERO)"
  using bit_sets_are_sets [of 9 9 FD_ZERO 70 70] by (simp add: FD_ZERO_def)

text \<open>
  Wait statuses are classified: every status is exactly one of exited, killed by a signal and
  stopped; the status of an exit, of a kill and of a stop decode to the code that was encoded.
\<close>

lemma wait_status_classified:
  assumes "c < 0x100" and "0 < sig" and "sig < 0x7f"
  shows "(WIFEXITED s \<and> \<not> WIFSIGNALED s \<and> \<not> WIFSTOPPED s \<or> \<not> WIFEXITED s \<and> WIFSIGNALED s \<and> \<not> WIFSTOPPED s \<or>
          \<not> WIFEXITED s \<and> \<not> WIFSIGNALED s \<and> WIFSTOPPED s) \<and>
         WIFEXITED (push_bit 8 c) \<and> WEXITSTATUS (push_bit 8 c) = c \<and>
         WIFSIGNALED sig \<and> WTERMSIG sig = sig \<and>
         WIFSTOPPED (push_bit 8 c OR 0x7f) \<and> WSTOPSIG (push_bit 8 c OR 0x7f) = c"
proof -
  have m: "x AND 0x7f = take_bit 7 x" "x AND 0xff = take_bit 8 x" for x :: i32
    by (simp_all add: take_bit_eq_mask mask_eq_exp_minus_1)
  have "take_bit 7 (take_bit 8 x) = take_bit 7 x" for x :: i32 by simp
  moreover have "take_bit 7 (0x7f :: i32) = 0x7f" by (simp add: take_bit_eq_mod)
  ultimately have "take_bit 8 x = 0x7f \<Longrightarrow> take_bit 7 x = 0x7f" for x :: i32 by metis
  moreover have small: "take_bit 8 c = c" "take_bit 7 sig = sig" "take_bit 8 sig = sig"
  proof -
    have u: "uint c < 256" "uint sig < 127" using assms by (simp_all add: word_less_def)
    have "uint (take_bit 8 c) = uint c" "uint (take_bit 7 sig) = uint sig"
      "uint (take_bit 8 sig) = uint sig"
      using u by (simp_all add: unsigned_take_bit_eq take_bit_int_eq_self)
    then show "take_bit 8 c = c" "take_bit 7 sig = sig" "take_bit 8 sig = sig"
      by (simp_all add: word_uint_eqI)
  qed
  moreover have "take_bit 7 (push_bit 8 c) = 0" "take_bit 8 (drop_bit 8 (push_bit 8 c)) = take_bit 8 c"
    by (intro bit_word_eqI; auto simp: bit_simps)+
  moreover have "take_bit 8 (push_bit 8 c OR 0x7f) = 0x7f"
    "take_bit 8 (drop_bit 8 (push_bit 8 c OR 0x7f)) = take_bit 8 c"
  proof -
    have "(0x7f :: i32) = mask 7" by (simp add: mask_eq_exp_minus_1)
    moreover have "take_bit 8 (push_bit 8 c OR mask 7) = mask 7"
      "take_bit 8 (drop_bit 8 (push_bit 8 c OR mask 7)) = take_bit 8 c"
      by (intro bit_word_eqI; auto simp: bit_simps)+
    ultimately show "take_bit 8 (push_bit 8 c OR 0x7f) = 0x7f"
      "take_bit 8 (drop_bit 8 (push_bit 8 c OR 0x7f)) = take_bit 8 c" by simp_all
  qed
  moreover have "sig \<noteq> 0" "sig \<noteq> 0x7f" using assms(2,3) by auto
  ultimately show ?thesis
    unfolding WIFEXITED_def WIFSIGNALED_def WIFSTOPPED_def WEXITSTATUS_def WTERMSIG_def WSTOPSIG_def m
    by auto
qed

text \<open>A continued status is also reported as killed by a signal.\<close>

lemma wait_continued_is_signaled: "WIFCONTINUED 0xffff \<and> WIFSIGNALED 0xffff"
  by (simp add: WIFCONTINUED_def WIFSIGNALED_def)

text \<open>
  \<open>_IOC\<close> packs its four fields without overlap: each can be read back from the command
  number, so different commands have different numbers.
\<close>

lemma ioc_fields_recoverable:
  assumes "dir < 4" and "type < 256" and "nr < 256" and "sz < 16384"
  shows "drop_bit 30 (IOC dir type nr sz) = dir \<and> take_bit 8 (drop_bit 8 (IOC dir type nr sz)) = type \<and>
         take_bit 8 (IOC dir type nr sz) = nr \<and> take_bit 14 (drop_bit 16 (IOC dir type nr sz)) = sz"
proof -
  have d: "take_bit 2 dir = dir" "take_bit 8 type = type" "take_bit 8 nr = nr" "take_bit 14 sz = sz"
    using assms by (auto intro!: take_bit_small simp: word_less_def)
  have b: "bit dir n \<Longrightarrow> n < 2" "bit type n \<Longrightarrow> n < 8" "bit nr n \<Longrightarrow> n < 8" "bit sz n \<Longrightarrow> n < 14" for n
    using d by (metis bit_take_bit_iff)+
  show ?thesis
    unfolding IOC_def
    by (intro conjI; rule bit_word_eqI) (auto simp: bit_simps dest: b)
qed

text \<open>The action \<open>sigaction\<close> hands to the kernel at \<open>ka\<close> in memory \<open>m\<close>, and the one it reports at \<open>old\<close>.\<close>

definition hands_over :: "mem \<Rightarrow> addr \<Rightarrow> addr \<Rightarrow> mem \<Rightarrow> addr \<Rightarrow> bool" where
  "hands_over m act rt m' ka \<longleftrightarrow> get64 m' ka = get64 m act \<and> get64 m' (ka + 8) = get64 m (act + 8) OR SA_RESTORER \<and>
     get64 m' (ka + 16) = rt \<and> get64 m' (ka + 24) = get64 m (act + 16)"

definition reports :: "mem \<Rightarrow> addr \<Rightarrow> mem \<Rightarrow> addr \<Rightarrow> bool" where
  "reports m ko m' old \<longleftrightarrow> get64 m' old = get64 m ko \<and> get64 m' (old + 8) = get64 m (ko + 8) AND NOT SA_RESTORER \<and>
     get64 m' (old + 16) = get64 m (ko + 24)"

lemma action_written:
  "hands_over m act rt (put64 (put64 (put64 (put64 m ka (get64 m act)) (ka + 8) (get64 m (act + 8) OR SA_RESTORER))
     (ka + 16) rt) (ka + 24) (get64 m (act + 16))) ka"
  "reports m ko (put64 (put64 (put64 m old (get64 m ko)) (old + 8) (get64 m (ko + 8) AND NOT SA_RESTORER))
     (old + 16) (get64 m (ko + 24))) old"
  using field_simps64 [of 0] field_simps64 [of 1] field_simps64 [of 2] field_simps64 [of 3]
  by (simp_all add: hands_over_def reports_def)

text \<open>
  C36. \<open>sigaction\<close> installs what the caller asked for and reports what was there, for any two pointers,
  each null or not. It makes one \<open>rt_sigaction\<close> call. With an action given, the kernel gets a structure with its handler and
  mask, its flags with \<open>SA_RESTORER\<close> added, and the trampoline as the restorer; otherwise it gets a null pointer and memory as
  it was. When the kernel answers 0 and the caller asked for the old action, that action is reported with the
  kernel's handler and mask and with its flags without \<open>SA_RESTORER\<close>; otherwise nothing is written. The result is the
  kernel's.
\<close>

theorem sigaction_supplies_restorer:
  "\<exists>m rc k1 k2. sys_rt_sigaction K sig (if act \<noteq> 0 then ka else 0) (if old \<noteq> 0 then ko else 0) (k\<lparr>memory := m\<rparr>) = (rc, k1) \<and>
     (if act \<noteq> 0 then hands_over (memory k) act rt m ka else m = memory k) \<and>
     sigaction K rt ka ko sig act old k = (cast_int rc, k2) \<and> kstate k2 = kstate k1 \<and>
     (if rc = 0 \<and> old \<noteq> 0 then reports (memory k1) ko (memory k2) old else k2 = k1)"
proof -
  let ?m = "memory k"
  let ?m' = "if act \<noteq> 0 then put64 (put64 (put64 (put64 ?m ka (get64 ?m act)) (ka + 8) (get64 ?m (act + 8) OR SA_RESTORER))
      (ka + 16) rt) (ka + 24) (get64 ?m (act + 16)) else ?m"
  obtain rc k1 where r: "sys_rt_sigaction K sig (if act \<noteq> 0 then ka else 0) (if old \<noteq> 0 then ko else 0) (k\<lparr>memory := ?m'\<rparr>) = (rc, k1)"
    by (metis surj_pair)
  let ?k2 = "if rc = 0 \<and> old \<noteq> 0 then k1\<lparr>memory := put64 (put64 (put64 (memory k1) old (get64 (memory k1) ko))
      (old + 8) (get64 (memory k1) (ko + 8) AND NOT SA_RESTORER)) (old + 16) (get64 (memory k1) (ko + 24))\<rparr> else k1"
  have "sigaction K rt ka ko sig act old k = (cast_int rc, ?k2)"
    using r unfolding sigaction_def Let_def by simp
  with r action_written(1) [of ?m act rt ka] action_written(2) [of "memory k1" ko old] show ?thesis
    by (intro exI [of _ ?m'] exI [of _ rc] exI [of _ k1] exI [of _ ?k2]) auto
qed

text \<open>A kernel that keeps the action of every signal as \<open>SIG_IGN\<close> with \<open>SA_RESTORER\<close> set.\<close>

definition ignoring_kernel :: "unit kernel" where
  "ignoring_kernel f k = (0, case rdx f of None \<Rightarrow> k | Some a \<Rightarrow> k\<lparr>memory := put64 (put64 (memory k) a 1) (a + 8) SA_RESTORER\<rparr>)"

theorem sigaction_supplies_restorer_witness:
  "\<exists>k2. sigaction ignoring_kernel 0x4000 0x7000 0x7100 15 0x600 0x500 \<lparr>memory = (\<lambda>_. 0), kstate = ()\<rparr> = (0, k2) \<and>
     get64 (memory k2) 0x500 = 1 \<and> get64 (memory k2) 0x508 = 0"
proof -
  let ?k = "\<lparr>memory = (\<lambda>_. 0), kstate = ()\<rparr> :: unit machine"
  from sigaction_supplies_restorer [of ignoring_kernel 15 "0x600" "0x7000" "0x500" "0x7100" ?k "0x4000"]
  obtain m rc k1 k2 where r: "sys_rt_sigaction ignoring_kernel 15 0x7000 0x7100 (?k\<lparr>memory := m\<rparr>) = (rc, k1)"
    "sigaction ignoring_kernel 0x4000 0x7000 0x7100 15 0x600 0x500 ?k = (cast_int rc, k2)"
    "rc = 0 \<longrightarrow> reports (memory k1) 0x7100 (memory k2) 0x500" by auto
  from r(1) have "rc = 0" "memory k1 = put64 (put64 m 0x7100 1) (0x7100 + 8) SA_RESTORER"
    by (auto simp: sys_rt_sigaction_def wrapper_defs ignoring_kernel_def)
  moreover have "get64 (put64 (put64 m a 1) (a + 8) v) a = 1 \<and> get64 (put64 (put64 m a 1) (a + 8) v) (a + 8) = v" for a v
    using field_simps64 [of 0] field_simps64 [of 1] by simp
  from this [of "0x7100" SA_RESTORER] have "get64 (put64 (put64 m 0x7100 1) 0x7108 SA_RESTORER) 0x7100 = 1"
    "get64 (put64 (put64 m 0x7100 1) 0x7108 SA_RESTORER) 0x7108 = SA_RESTORER" by simp_all
  ultimately show ?thesis using r(2,3) by (auto simp: reports_def)
qed

end
