(* ===== verification/Neo_Layout.thy ===== *)
theory Neo_Layout
  imports Neo_Start Neo_Mpi Neo_Dirent Neo_Signal
begin

text \<open>
  The structures of the headers as the compiler lays them out: declarations as values, the size,
  alignment and field offsets the x86-64 ABI gives them, and the declarations of the library. The
  theories of the components that read structures from memory use byte offsets; here they are compared
  with the declarations.
\<close>

section \<open>Declarations\<close>

text \<open>
  A scalar has its size in bytes as its alignment; a field is a name and a type, in the order declared;
  \<open>Aligned\<close> is the \<open>aligned\<close> attribute.
\<close>

datatype ctype = Scalar nat | Array nat ctype | Struct "(string \<times> ctype) list" | Aligned nat ctype

abbreviation c_char :: ctype where "c_char \<equiv> Scalar 1"
abbreviation c_short :: ctype where "c_short \<equiv> Scalar 2"
abbreviation c_int :: ctype where "c_int \<equiv> Scalar 4"
abbreviation c_long :: ctype where "c_long \<equiv> Scalar 8"
abbreviation c_pointer :: ctype where "c_pointer \<equiv> Scalar 8"

definition round_up :: "nat \<Rightarrow> nat \<Rightarrow> nat" where
  "round_up off a = (off + a - 1) div a * a"

text \<open>Fields as pairs of size and alignment, placed one after the other from an offset.\<close>

fun field_offsets :: "nat \<Rightarrow> (nat \<times> nat) list \<Rightarrow> nat list" where
  "field_offsets off [] = []"
| "field_offsets off ((sz, al) # fs) = round_up off al # field_offsets (round_up off al + sz) fs"

fun fields_end :: "nat \<Rightarrow> (nat \<times> nat) list \<Rightarrow> nat" where
  "fields_end off [] = off"
| "fields_end off ((sz, al) # fs) = fields_end (round_up off al + sz) fs"

definition fields_align :: "(nat \<times> nat) list \<Rightarrow> nat" where
  "fields_align fs = foldr (\<lambda>f al. max (snd f) al) fs 1"

text \<open>Size and alignment of a type.\<close>

fun shape :: "ctype \<Rightarrow> nat \<times> nat" where
  "shape (Scalar n) = (n, n)"
| "shape (Array n t) = (n * fst (shape t), snd (shape t))"
| "shape (Aligned a t) = (fst (shape t), max a (snd (shape t)))"
| "shape (Struct fs) =
     (let ls = map (\<lambda>f. shape (snd f)) fs in
      (round_up (fields_end 0 ls) (fields_align ls), fields_align ls))"

definition sizeof :: "ctype \<Rightarrow> nat" where
  "sizeof t = fst (shape t)"

fun offsetof :: "ctype \<Rightarrow> string \<Rightarrow> nat option" where
  "offsetof (Struct fs) f = map_of (zip (map fst fs) (field_offsets 0 (map (\<lambda>f. shape (snd f)) fs))) f"
| "offsetof t f = None"

section \<open>The library's declarations\<close>

definition sockaddr_t :: ctype where
  "sockaddr_t = Struct [(''sa_family'', c_short), (''sa_data'', Array 14 c_char)]"

definition in_addr_t :: ctype where
  "in_addr_t = Struct [(''s_addr'', c_int)]"

definition sockaddr_in_t :: ctype where
  "sockaddr_in_t = Struct [(''sin_family'', c_short), (''sin_port'', c_short), (''sin_addr'', in_addr_t),
     (''sin_zero'', Array 8 c_char)]"

definition mpi_header_t :: ctype where
  "mpi_header_t = Struct [(''src'', c_int), (''tag'', c_int), (''count'', c_int), (''type'', c_int)]"

definition pending_t :: ctype where
  "pending_t = Struct [(''next'', c_pointer), (''hdr'', mpi_header_t), (''bytes'', c_int),
     (''data'', Array MPI_MAX_MESSAGE c_char)]"

definition MPI_Status_t :: ctype where
  "MPI_Status_t = Struct [(''MPI_SOURCE'', c_int), (''MPI_TAG'', c_int), (''MPI_ERROR'', c_int), (''count'', c_int)]"

definition Elf64_Phdr_t :: ctype where
  "Elf64_Phdr_t = Struct [(''p_type'', c_int), (''p_flags'', c_int), (''p_offset'', c_long), (''p_vaddr'', c_long),
     (''p_paddr'', c_long), (''p_filesz'', c_long), (''p_memsz'', c_long), (''p_align'', c_long)]"

definition dirent_t :: ctype where
  "dirent_t = Struct [(''d_ino'', c_long), (''d_off'', c_long), (''d_reclen'', c_short), (''d_type'', c_char),
     (''d_name'', Array 256 c_char)]"

definition sigaction_t :: ctype where
  "sigaction_t = Struct [(''sa_handler'', c_pointer), (''sa_flags'', c_long), (''sa_mask'', c_long)]"

definition k_sigaction_t :: ctype where
  "k_sigaction_t = Struct [(''handler'', c_pointer), (''flags'', c_long), (''restorer'', c_pointer), (''mask'', c_long)]"

definition stack_t_t :: ctype where
  "stack_t_t = Struct [(''ss_sp'', c_pointer), (''ss_flags'', c_int), (''_pad'', c_int), (''ss_size'', c_long)]"

definition stat_t :: ctype where
  "stat_t = Struct [(''st_dev'', c_long), (''st_ino'', c_long), (''st_nlink'', c_long), (''st_mode'', c_int),
     (''st_uid'', c_int), (''st_gid'', c_int), (''__pad0'', c_int), (''st_rdev'', c_long), (''st_size'', c_long),
     (''st_blksize'', c_long), (''st_blocks'', c_long), (''st_atime_sec'', c_long), (''st_atime_nsec'', c_long),
     (''st_mtime_sec'', c_long), (''st_mtime_nsec'', c_long), (''st_ctime_sec'', c_long), (''st_ctime_nsec'', c_long),
     (''__unused'', Array 3 c_long)]"

definition termios_t :: ctype where
  "termios_t = Struct [(''c_iflag'', c_int), (''c_oflag'', c_int), (''c_cflag'', c_int), (''c_lflag'', c_int),
     (''c_line'', c_char), (''c_cc'', Array 32 c_char), (''__c_ispeed'', c_int), (''__c_ospeed'', c_int)]"

definition winsize_t :: ctype where
  "winsize_t = Struct [(''ws_row'', c_short), (''ws_col'', c_short), (''ws_xpixel'', c_short), (''ws_ypixel'', c_short)]"

definition utsname_t :: ctype where
  "utsname_t = Struct [(''sysname'', Array 65 c_char), (''nodename'', Array 65 c_char), (''release'', Array 65 c_char),
     (''version'', Array 65 c_char), (''machine'', Array 65 c_char), (''domainname'', Array 65 c_char)]"

definition iovec_t :: ctype where
  "iovec_t = Struct [(''iov_base'', c_pointer), (''iov_len'', c_long)]"

definition timespec_t :: ctype where
  "timespec_t = Struct [(''tv_sec'', c_long), (''tv_nsec'', c_long)]"

definition timeval_t :: ctype where
  "timeval_t = Struct [(''tv_sec'', c_long), (''tv_usec'', c_long)]"

definition pollfd_t :: ctype where
  "pollfd_t = Struct [(''fd'', c_int), (''events'', c_short), (''revents'', c_short)]"

definition fd_set_t :: ctype where
  "fd_set_t = Struct [(''__bits'', Array 16 c_long)]"

definition input_event_t :: ctype where
  "input_event_t = Struct [(''tv_sec'', c_long), (''tv_usec'', c_long), (''type'', c_short), (''code'', c_short),
     (''value'', c_int)]"

definition input_id_t :: ctype where
  "input_id_t = Struct [(''bustype'', c_short), (''vendor'', c_short), (''product'', c_short), (''version'', c_short)]"

definition pthread_mutex_t_t :: ctype where
  "pthread_mutex_t_t = Struct [(''state'', c_int)]"

definition pthread_cond_t_t :: ctype where
  "pthread_cond_t_t = Struct [(''seq'', c_int)]"

definition sem_t_t :: ctype where
  "sem_t_t = Struct [(''value'', c_int), (''pshared'', c_int)]"

definition thread_start_t :: ctype where
  "thread_start_t = Struct [(''in_use'', c_int), (''fn'', c_pointer), (''arg'', c_pointer)]"

definition pthread_slot_t :: ctype where
  "pthread_slot_t = Struct [(''in_use'', c_int), (''tid'', c_int), (''finished'', c_int), (''start'', c_pointer),
     (''arg'', c_pointer), (''retval'', c_pointer)]"

definition DIR_t :: ctype where
  "DIR_t = Struct [(''in_use'', c_int), (''fd'', c_int), (''buf'', Aligned 8 (Array 512 c_char)), (''valid'', c_int),
     (''next'', c_int), (''at_end'', c_int)]"

lemmas declarations = DIR_t_def sockaddr_t_def in_addr_t_def sockaddr_in_t_def mpi_header_t_def pending_t_def MPI_Status_t_def
  Elf64_Phdr_t_def dirent_t_def sigaction_t_def k_sigaction_t_def stack_t_t_def stat_t_def termios_t_def winsize_t_def
  utsname_t_def iovec_t_def timespec_t_def timeval_t_def pollfd_t_def fd_set_t_def input_event_t_def input_id_t_def
  pthread_mutex_t_t_def pthread_cond_t_t_def sem_t_t_def thread_start_t_def pthread_slot_t_def

definition declared_structs :: "ctype list" where
  "declared_structs = [sockaddr_t, in_addr_t, sockaddr_in_t, mpi_header_t, pending_t, MPI_Status_t, Elf64_Phdr_t,
     dirent_t, sigaction_t, k_sigaction_t, stack_t_t, stat_t, termios_t, winsize_t, utsname_t, iovec_t, timespec_t,
     timeval_t, pollfd_t, fd_set_t, input_event_t, input_id_t, pthread_mutex_t_t, pthread_cond_t_t, sem_t_t,
     thread_start_t, pthread_slot_t, DIR_t]"

section \<open>Layouts are sound\<close>

fun wf_ctype :: "ctype \<Rightarrow> bool" where
  "wf_ctype (Scalar n) \<longleftrightarrow> n \<in> {1, 2, 4, 8}"
| "wf_ctype (Array n t) \<longleftrightarrow> 0 < n \<and> wf_ctype t"
| "wf_ctype (Aligned a t) \<longleftrightarrow> a \<in> {1, 2, 4, 8} \<and> wf_ctype t \<and> fst (shape t) mod a = 0"
| "wf_ctype (Struct fs) \<longleftrightarrow> fs \<noteq> [] \<and> distinct (map fst fs) \<and> (\<forall>f\<in>set fs. wf_ctype (snd f))"

text \<open>
  Every field is aligned whenever the structure is, ends inside it and before the next one begins, and
  the structures of an array are all aligned.
\<close>

definition well_laid :: "ctype \<Rightarrow> bool" where
  "well_laid t \<longleftrightarrow> fst (shape t) mod snd (shape t) = 0 \<and>
     (case t of
        Struct fs \<Rightarrow>
          let ls = map (\<lambda>f. shape (snd f)) fs; offs = field_offsets 0 ls in
          (\<forall>i<length fs. offs ! i mod snd (ls ! i) = 0 \<and> snd (shape t) mod snd (ls ! i) = 0 \<and>
             offs ! i + fst (ls ! i) \<le> fst (shape t)) \<and>
          (\<forall>j<length fs. \<forall>i<j. offs ! i + fst (ls ! i) \<le> offs ! j)
      | _ \<Rightarrow> True)"

lemma round_up: "0 < a \<Longrightarrow> off \<le> round_up off a" "round_up off a mod a = 0"
proof -
  assume "0 < a"
  then show "off \<le> round_up off a"
    unfolding round_up_def using div_mult_mod_eq [of "off + a - 1" a] mod_less_divisor [of a "off + a - 1"] by linarith
qed (simp add: round_up_def)

lemma round_up_scalar:
  "round_up off (Suc 0) = off" "round_up off 2 = (off + 1) div 2 * 2"
  "round_up off (Suc (Suc 0)) = (off + 1) div 2 * 2" "round_up off 4 = (off + 3) div 4 * 4"
  "round_up off 8 = (off + 7) div 8 * 8"
  by (simp_all add: round_up_def flip: numeral_2_eq_2)

lemma length_field_offsets [simp]: "length (field_offsets off ls) = length ls"
  by (induction off ls rule: field_offsets.induct) auto

lemma fields_end_mono: "\<forall>f\<in>set ls. 0 < snd f \<Longrightarrow> off \<le> fields_end off ls"
proof (induction off ls rule: fields_end.induct)
  case (2 off sz al fs)
  then show ?case using round_up(1) [of al off] by auto
qed simp

lemma fields_in_order:
  assumes "\<forall>f\<in>set ls. 0 < snd f" and "i < length ls"
  shows "off \<le> field_offsets off ls ! i" and "field_offsets off ls ! i mod snd (ls ! i) = 0"
    and "field_offsets off ls ! i + fst (ls ! i) \<le> fields_end off ls"
  using assms
proof (induction off ls arbitrary: i rule: field_offsets.induct)
  case (2 off sz al fs)
  { case 1 with 2 round_up(1) [of al off] show ?case by (cases i) (fastforce dest: add_leD1)+
  next case 2 with "2.IH"(2) round_up(2) [of off al] show ?case by (cases i) auto
  next case 3 with "2.IH"(3) fields_end_mono [of fs "round_up off al + sz"] show ?case by (cases i) auto }
qed simp_all

lemma fields_apart:
  "\<forall>f\<in>set ls. 0 < snd f \<Longrightarrow> j < length ls \<Longrightarrow> i < j \<Longrightarrow>
     field_offsets off ls ! i + fst (ls ! i) \<le> field_offsets off ls ! j"
proof (induction off ls arbitrary: i j rule: field_offsets.induct)
  case (2 off sz al fs)
  then obtain j' where j: "j = Suc j'" by (cases j) auto
  with 2 show ?case
    using fields_in_order(1) [of fs j' "round_up off al + sz"] by (cases i) auto
qed simp

lemma fields_align_cases:
  "\<forall>f\<in>set ls. snd f \<in> {1, 2, 4, 8} \<Longrightarrow> fields_align ls \<in> {1, 2, 4, 8 :: nat} \<and> (\<forall>f\<in>set ls. snd f \<le> fields_align ls)"
  unfolding fields_align_def by (induction ls) (auto simp: max_def)

lemma align_divides: "a \<in> {1, 2, 4, 8 :: nat} \<Longrightarrow> b \<in> {1, 2, 4, 8} \<Longrightarrow> a \<le> b \<Longrightarrow> b mod a = 0"
  by auto

lemma wf_shape: "wf_ctype t \<Longrightarrow> snd (shape t) \<in> {1, 2, 4, 8} \<and> fst (shape t) mod snd (shape t) = 0"
proof (induction t rule: wf_ctype.induct)
  case (3 a t)
  then show ?case by (auto simp: max_def)
next
  case (4 fs)
  then have "\<forall>f\<in>set (map (\<lambda>f. shape (snd f)) fs). snd f \<in> {1, 2, 4, 8}" by auto
  from fields_align_cases [OF this] show ?case by (simp add: Let_def round_up(2))
qed auto

lemma wf_well_laid:
  assumes wf: "wf_ctype t"
  shows "well_laid t"
proof (cases t)
  case (Struct fs)
  let ?ls = "map (\<lambda>f. shape (snd f)) fs"
  from wf Struct wf_shape have al: "\<forall>f\<in>set ?ls. snd f \<in> {1, 2, 4, 8}" by auto
  note cases = fields_align_cases [OF al]
  have pos: "\<forall>f\<in>set ?ls. 0 < snd f" using al by auto
  have "fields_align ?ls mod snd (?ls ! i) = 0" if "i < length fs" for i
    using cases al that nth_mem [of i ?ls] by (intro align_divides) auto
  moreover have "field_offsets 0 ?ls ! i + fst (?ls ! i) \<le> round_up (fields_end 0 ?ls) (fields_align ?ls)" if "i < length fs" for i
    using fields_in_order(3) [OF pos, of i 0] that cases round_up(1) [of "fields_align ?ls" "fields_end 0 ?ls"] by force
  ultimately show ?thesis
    using fields_in_order(2) [OF pos, of _ 0] fields_apart [OF pos, of _ _ 0] Struct
    by (simp add: well_laid_def Let_def round_up(2))
qed (use wf_shape [OF wf] in \<open>simp_all add: well_laid_def\<close>)

section \<open>The offsets the components use\<close>

definition field :: "ctype \<Rightarrow> string \<Rightarrow> nat" where
  "field t f = (case offsetof t f of Some n \<Rightarrow> n | None \<Rightarrow> 0)"

lemma declared_wf: "list_all wf_ctype declared_structs"
  by (simp add: declared_structs_def declarations)

lemma declared_sizes:
  "map sizeof declared_structs =
     [16, 4, 16, 16, 8224, 16, 56, 280, 24, 32, 24, 144, 60, 8, 390, 16, 16, 16, 8, 128, 24, 8, 4, 4, 8, 24, 40, 536]"
  by (simp add: declared_structs_def declarations sizeof_def fields_align_def round_up_scalar)

lemma used_fields:
  "field Elf64_Phdr_t ''p_type'' = 0" "field Elf64_Phdr_t ''p_vaddr'' = 16" "field Elf64_Phdr_t ''p_filesz'' = 32"
  "field Elf64_Phdr_t ''p_memsz'' = 40" "field Elf64_Phdr_t ''p_align'' = 48"
  "field mpi_header_t ''src'' = 0" "field mpi_header_t ''tag'' = 4" "field mpi_header_t ''count'' = 8"
  "field mpi_header_t ''type'' = 12" "field dirent_t ''d_reclen'' = 16"
  "field sigaction_t ''sa_handler'' = 0" "field sigaction_t ''sa_flags'' = 8" "field sigaction_t ''sa_mask'' = 16"
  "field k_sigaction_t ''handler'' = 0" "field k_sigaction_t ''flags'' = 8" "field k_sigaction_t ''restorer'' = 16"
  "field k_sigaction_t ''mask'' = 24"
  by (simp_all add: field_def declarations fields_align_def round_up_scalar)

section \<open>The layouts agree\<close>

text \<open>
  Structure layouts. In each of the 28 structures the library declares, the fields are aligned,
  do not overlap and lie inside the structure, and an array of them keeps them aligned. The sizes and
  offsets are those the comments promise: a socket address has 16 bytes with the family at 0, the port at 2
  and the address at 4; an input event has 24 bytes; the part of \<open>struct termios\<close> the kernel fills has 36; \<open>d_name\<close>
  follows \<open>d_type\<close> without padding; the buffer of a directory stream is aligned for the records in it. The start-up
  code, the MPI receiver and \<open>readdir\<close> read every field at the offset declared for it, and the fields \<open>sigaction\<close> copies
  are those of \<open>hands_over\<close> and \<open>reports\<close>.
\<close>

lemma declared_layouts:
  "list_all well_laid declared_structs"
  "sizeof sockaddr_in_t = 16" "sizeof sockaddr_t = sizeof sockaddr_in_t" "field sockaddr_in_t ''sin_family'' = 0"
  "field sockaddr_in_t ''sin_port'' = 2" "field sockaddr_in_t ''sin_addr'' = 4"
  "sizeof input_event_t = 24" "field termios_t ''c_cc'' + 19 = 36" "field dirent_t ''d_name'' = 19"
  "sizeof mpi_header_t = HEADER_SIZE" "field DIR_t ''buf'' mod 8 = 0"
proof -
  show "list_all well_laid declared_structs" using declared_wf wf_well_laid by (auto simp: list_all_iff)
  show "sizeof sockaddr_in_t = 16" "sizeof sockaddr_t = sizeof sockaddr_in_t" "sizeof input_event_t = 24"
    "sizeof mpi_header_t = HEADER_SIZE" using declared_sizes by (simp_all add: declared_structs_def)
qed (simp_all add: field_def declarations fields_align_def round_up_scalar)

lemma accesses_as_declared:
  "read_phdr m a = (let at = \<lambda>f. a + of_nat (field Elf64_Phdr_t f) in
     \<lparr>p_type = get32 m (at ''p_type''), p_vaddr = get64 m (at ''p_vaddr''), p_filesz = get64 m (at ''p_filesz''),
      p_memsz = get64 m (at ''p_memsz''), p_align = get64 m (at ''p_align'')\<rparr>)"
  "read_header fr = (let at = \<lambda>f. drop (field mpi_header_t f) fr in
     \<lparr>h_src = un_le32 (at ''src''), h_tag = un_le32 (at ''tag''), h_count = un_le32 (at ''count''),
      h_type = un_le32 (at ''type'')\<rparr>)"
  "d_reclen m a = (let at = a + of_nat (field dirent_t ''d_reclen'') in ucast (m at) OR push_bit 8 (ucast (m (at + 1))))"
  "hands_over m act rt m' ka = (let u = \<lambda>f. act + of_nat (field sigaction_t f); v = \<lambda>f. ka + of_nat (field k_sigaction_t f) in
     get64 m' (v ''handler'') = get64 m (u ''sa_handler'') \<and> get64 m' (v ''flags'') = get64 m (u ''sa_flags'') OR SA_RESTORER \<and>
     get64 m' (v ''restorer'') = rt \<and> get64 m' (v ''mask'') = get64 m (u ''sa_mask''))"
  "reports m ko m' old = (let u = \<lambda>f. old + of_nat (field sigaction_t f); v = \<lambda>f. ko + of_nat (field k_sigaction_t f) in
     get64 m' (u ''sa_handler'') = get64 m (v ''handler'') \<and> get64 m' (u ''sa_flags'') = get64 m (v ''flags'') AND NOT SA_RESTORER \<and>
     get64 m' (u ''sa_mask'') = get64 m (v ''mask''))"
  by (simp_all add: used_fields read_phdr_def read_header_def d_reclen_def hands_over_def reports_def Let_def add.assoc)

end
