(* ===== verification/Neo_Codes.thy ===== *)
theory Neo_Codes
  imports Neo_Layout
begin

unbundle bit_operations_syntax

text \<open>
  The numbers the headers give out, table by table: error codes, signals, flag words, file types, input
  events, the evdev commands and the arguments of system calls. A program combines flags with \<open>|\<close>, tests them with \<open>&\<close> and tells codes
  apart by comparison, so flags of one word must not share bits and codes of one table must differ.
\<close>

section \<open>Tables\<close>

subsection \<open>Errors, signals and flag words\<close>

definition errno_codes :: "(string \<times> nat) list" where
  "errno_codes =
    [(''EPERM'', 1), (''ENXIO'', 6), (''E2BIG'', 7), (''EINTR'', 4), (''ESRCH'', 3), (''EAGAIN'', 11),
     (''EDEADLK'', 35), (''ENAMETOOLONG'', 36), (''ERANGE'', 34), (''ENOMEM'', 12), (''ECHILD'', 10),
     (''ETIMEDOUT'', 110), (''ENOSYS'', 38), (''ENOENT'', 2), (''EBADF'', 9), (''EBUSY'', 16),
     (''EEXIST'', 17), (''ENODEV'', 19), (''ENOTDIR'', 20), (''EISDIR'', 21), (''EINVAL'', 22),
     (''ENFILE'', 23), (''EMFILE'', 24), (''ENOSPC'', 28), (''EIO'', 5), (''ENOTTY'', 25), (''EFAULT'', 14),
     (''EPIPE'', 32), (''ENOBUFS'', 105), (''EAFNOSUPPORT'', 97), (''EPROTONOSUPPORT'', 93),
     (''EADDRINUSE'', 98), (''ECONNREFUSED'', 111), (''ENOTCONN'', 107), (''EISCONN'', 106),
     (''EMSGSIZE'', 90), (''EOVERFLOW'', 75), (''ESPIPE'', 29), (''ENETUNREACH'', 101),
     (''EADDRNOTAVAIL'', 99), (''EDESTADDRREQ'', 89), (''ENOTSOCK'', 88), (''ENOPROTOOPT'', 92),
     (''EOPNOTSUPP'', 95), (''ECONNABORTED'', 103), (''ECONNRESET'', 104), (''EHOSTUNREACH'', 113),
     (''EALREADY'', 114), (''EINPROGRESS'', 115)]"

definition signal_numbers :: "(string \<times> nat) list" where
  "signal_numbers =
    [(''SIGHUP'', 1), (''SIGINT'', 2), (''SIGQUIT'', 3), (''SIGILL'', 4), (''SIGTRAP'', 5), (''SIGABRT'', 6),
     (''SIGBUS'', 7), (''SIGFPE'', 8), (''SIGKILL'', 9), (''SIGUSR1'', 10), (''SIGSEGV'', 11),
     (''SIGUSR2'', 12), (''SIGPIPE'', 13), (''SIGALRM'', 14), (''SIGTERM'', 15), (''SIGCHLD'', 17),
     (''SIGCONT'', 18), (''SIGSTOP'', 19), (''SIGTSTP'', 20), (''SIGTTIN'', 21), (''SIGTTOU'', 22),
     (''SIGSYS'', 31)]"

definition sa_flags :: "(string \<times> nat) list" where
  "sa_flags =
    [(''SA_NOCLDSTOP'', 1), (''SA_NOCLDWAIT'', 2), (''SA_SIGINFO'', 4), (''SA_ONSTACK'', 134217728),
     (''SA_RESTART'', 268435456), (''SA_NODEFER'', 1073741824), (''SA_RESETHAND'', 2147483648)]"

definition open_flags :: "(string \<times> nat) list" where
  "open_flags =
    [(''O_RDONLY'', 0), (''O_WRONLY'', 1), (''O_RDWR'', 2), (''O_CREAT'', 64), (''O_EXCL'', 128),
     (''O_TRUNC'', 512), (''O_APPEND'', 1024), (''O_NONBLOCK'', 2048), (''O_DIRECTORY'', 65536),
     (''O_CLOEXEC'', 524288)]"

definition socket_flags :: "(string \<times> nat) list" where
  "socket_flags =
    [(''SOCK_NONBLOCK'', 2048), (''SOCK_CLOEXEC'', 524288)]"

definition poll_events :: "(string \<times> nat) list" where
  "poll_events =
    [(''POLLIN'', 1), (''POLLOUT'', 4), (''POLLERR'', 8), (''POLLHUP'', 16), (''POLLNVAL'', 32)]"

definition prot_flags :: "(string \<times> nat) list" where
  "prot_flags =
    [(''PROT_NONE'', 0), (''PROT_READ'', 1), (''PROT_WRITE'', 2), (''PROT_EXEC'', 4)]"

definition map_flags :: "(string \<times> nat) list" where
  "map_flags =
    [(''MAP_SHARED'', 1), (''MAP_PRIVATE'', 2), (''MAP_FIXED'', 16), (''MAP_ANONYMOUS'', 32)]"

subsection \<open>Terminal\<close>

definition cc_index :: "(string \<times> nat) list" where
  "cc_index =
    [(''VINTR'', 0), (''VQUIT'', 1), (''VERASE'', 2), (''VKILL'', 3), (''VEOF'', 4), (''VTIME'', 5),
     (''VMIN'', 6), (''VSTART'', 8), (''VSTOP'', 9), (''VSUSP'', 10)]"

definition iflags :: "(string \<times> nat) list" where
  "iflags =
    [(''ICRNL'', 256), (''INLCR'', 64), (''IGNCR'', 128), (''IXON'', 1024)]"

definition oflags :: "(string \<times> nat) list" where
  "oflags =
    [(''OPOST'', 1), (''ONLCR'', 4)]"

definition cflags :: "(string \<times> nat) list" where
  "cflags =
    [(''B38400'', 15), (''CS8'', 48), (''CREAD'', 128), (''CLOCAL'', 2048)]"

definition lflags :: "(string \<times> nat) list" where
  "lflags =
    [(''ISIG'', 1), (''ICANON'', 2), (''ECHO'', 8), (''ECHOE'', 16), (''ECHOK'', 32), (''ECHONL'', 64),
     (''NOFLSH'', 128), (''TOSTOP'', 256), (''IEXTEN'', 32768)]"

subsection \<open>File types\<close>

definition file_types :: "(string \<times> nat) list" where
  "file_types =
    [(''S_IFREG'', 32768), (''S_IFDIR'', 16384), (''S_IFCHR'', 8192)]"

definition dirent_types :: "(string \<times> nat) list" where
  "dirent_types =
    [(''DT_UNKNOWN'', 0), (''DT_FIFO'', 1), (''DT_CHR'', 2), (''DT_DIR'', 4), (''DT_BLK'', 6), (''DT_REG'', 8),
     (''DT_LNK'', 10), (''DT_SOCK'', 12)]"

definition S_IFMT :: u32 where "S_IFMT = 0xF000"
definition S_IFREG :: u32 where "S_IFREG = 0x8000"
definition S_IFDIR :: u32 where "S_IFDIR = 0x4000"
definition S_IFCHR :: u32 where "S_IFCHR = 0x2000"

definition S_ISREG :: "u32 \<Rightarrow> bool" where "S_ISREG m \<longleftrightarrow> m AND S_IFMT = S_IFREG"
definition S_ISDIR :: "u32 \<Rightarrow> bool" where "S_ISDIR m \<longleftrightarrow> m AND S_IFMT = S_IFDIR"
definition S_ISCHR :: "u32 \<Rightarrow> bool" where "S_ISCHR m \<longleftrightarrow> m AND S_IFMT = S_IFCHR"

subsection \<open>Input events\<close>

definition ev_types :: "(string \<times> nat) list" where
  "ev_types =
    [(''EV_SYN'', 0), (''EV_KEY'', 1), (''EV_REL'', 2), (''EV_ABS'', 3), (''EV_MSC'', 4), (''EV_SW'', 5),
     (''EV_LED'', 17), (''EV_SND'', 18), (''EV_REP'', 20), (''EV_FF'', 21), (''EV_PWR'', 22),
     (''EV_FF_STATUS'', 23), (''EV_MAX'', 31)]"

definition syn_codes :: "(string \<times> nat) list" where
  "syn_codes =
    [(''SYN_REPORT'', 0), (''SYN_CONFIG'', 1), (''SYN_MT_REPORT'', 2), (''SYN_DROPPED'', 3)]"

definition msc_codes :: "(string \<times> nat) list" where
  "msc_codes =
    [(''MSC_SERIAL'', 0), (''MSC_PULSELED'', 1), (''MSC_GESTURE'', 2), (''MSC_RAW'', 3), (''MSC_SCAN'', 4),
     (''MSC_TIMESTAMP'', 5), (''MSC_MAX'', 7)]"

definition bus_types :: "(string \<times> nat) list" where
  "bus_types =
    [(''BUS_PCI'', 1), (''BUS_ISAPNP'', 2), (''BUS_USB'', 3), (''BUS_HIL'', 4), (''BUS_BLUETOOTH'', 5),
     (''BUS_VIRTUAL'', 6), (''BUS_ISA'', 16), (''BUS_I8042'', 17), (''BUS_XTKBD'', 18), (''BUS_RS232'', 19),
     (''BUS_GAMEPORT'', 20), (''BUS_PARPORT'', 21), (''BUS_AMIGA'', 22), (''BUS_ADB'', 23), (''BUS_I2C'', 24),
     (''BUS_HOST'', 25), (''BUS_GSC'', 26), (''BUS_ATARI'', 27), (''BUS_SPI'', 28), (''BUS_RMI'', 29),
     (''BUS_CEC'', 30), (''BUS_INTEL_ISHTP'', 31)]"

definition key_codes :: "(string \<times> nat) list" where
  "key_codes =
    [(''KEY_RESERVED'', 0), (''KEY_ESC'', 1), (''KEY_1'', 2), (''KEY_2'', 3), (''KEY_3'', 4), (''KEY_4'', 5),
     (''KEY_5'', 6), (''KEY_6'', 7), (''KEY_7'', 8), (''KEY_8'', 9), (''KEY_9'', 10), (''KEY_0'', 11),
     (''KEY_MINUS'', 12), (''KEY_EQUAL'', 13), (''KEY_BACKSPACE'', 14), (''KEY_TAB'', 15), (''KEY_Q'', 16),
     (''KEY_W'', 17), (''KEY_E'', 18), (''KEY_R'', 19), (''KEY_T'', 20), (''KEY_Y'', 21), (''KEY_U'', 22),
     (''KEY_I'', 23), (''KEY_O'', 24), (''KEY_P'', 25), (''KEY_LEFTBRACE'', 26), (''KEY_RIGHTBRACE'', 27),
     (''KEY_ENTER'', 28), (''KEY_LCTRL'', 29), (''KEY_A'', 30), (''KEY_S'', 31), (''KEY_D'', 32),
     (''KEY_F'', 33), (''KEY_G'', 34), (''KEY_H'', 35), (''KEY_J'', 36), (''KEY_K'', 37), (''KEY_L'', 38),
     (''KEY_SEMICOLON'', 39), (''KEY_APOSTROPHE'', 40), (''KEY_GRAVE'', 41), (''KEY_LSHIFT'', 42),
     (''KEY_BACKSLASH'', 43), (''KEY_Z'', 44), (''KEY_X'', 45), (''KEY_C'', 46), (''KEY_V'', 47),
     (''KEY_B'', 48), (''KEY_N'', 49), (''KEY_M'', 50), (''KEY_COMMA'', 51), (''KEY_DOT'', 52),
     (''KEY_SLASH'', 53), (''KEY_RSHIFT'', 54), (''KEY_KPASTERISK'', 55), (''KEY_LALT'', 56),
     (''KEY_SPACE'', 57), (''KEY_CAPSLOCK'', 58), (''KEY_F1'', 59), (''KEY_F2'', 60), (''KEY_F3'', 61),
     (''KEY_F4'', 62), (''KEY_F5'', 63), (''KEY_F6'', 64), (''KEY_F7'', 65), (''KEY_F8'', 66),
     (''KEY_F9'', 67), (''KEY_F10'', 68), (''KEY_NUMLOCK'', 69), (''KEY_SCROLLLOCK'', 70), (''KEY_KP7'', 71),
     (''KEY_KP8'', 72), (''KEY_KP9'', 73), (''KEY_KPMINUS'', 74), (''KEY_KP4'', 75), (''KEY_KP5'', 76),
     (''KEY_KP6'', 77), (''KEY_KPPLUS'', 78), (''KEY_KP1'', 79), (''KEY_KP2'', 80), (''KEY_KP3'', 81),
     (''KEY_KP0'', 82), (''KEY_KPDOT'', 83), (''KEY_F11'', 87), (''KEY_F12'', 88), (''KEY_KPENTER'', 96),
     (''KEY_RCTRL'', 97), (''KEY_KPSLASH'', 98), (''KEY_SYSRQ'', 99), (''KEY_RALT'', 100), (''KEY_HOME'', 102),
     (''KEY_UP'', 103), (''KEY_PAGEUP'', 104), (''KEY_LEFT'', 105), (''KEY_RIGHT'', 106), (''KEY_END'', 107),
     (''KEY_DOWN'', 108), (''KEY_PAGEDOWN'', 109), (''KEY_INSERT'', 110), (''KEY_DELETE'', 111)]"

text \<open>
  The evdev commands whose payload is declared (\<open>struct input_absinfo\<close>, \<open>input_keymap_entry\<close>, \<open>ff_effect\<close>
  and \<open>input_mask\<close> are not, so the seven commands that name them have no value). 69 is \<open>'E'\<close>.
\<close>

definition IOR :: "u32 \<Rightarrow> u32 \<Rightarrow> ctype \<Rightarrow> u32" where "IOR type nr t = IOC 2 type nr (of_nat (sizeof t))"
definition IOW :: "u32 \<Rightarrow> u32 \<Rightarrow> ctype \<Rightarrow> u32" where "IOW type nr t = IOC 1 type nr (of_nat (sizeof t))"
definition IOWR :: "u32 \<Rightarrow> u32 \<Rightarrow> ctype \<Rightarrow> u32" where "IOWR type nr t = IOC (2 OR 1) type nr (of_nat (sizeof t))"

definition EVIOCGVERSION :: u32 where "EVIOCGVERSION = IOR 69 0x01 c_int"
definition EVIOCGID :: u32 where "EVIOCGID = IOR 69 0x02 input_id_t"
definition EVIOCGREP :: u32 where "EVIOCGREP = IOR 69 0x03 (Array 2 c_int)"
definition EVIOCSREP :: u32 where "EVIOCSREP = IOW 69 0x03 (Array 2 c_int)"
definition EVIOCGKEYCODE :: u32 where "EVIOCGKEYCODE = IOR 69 0x04 (Array 2 c_int)"
definition EVIOCSKEYCODE :: u32 where "EVIOCSKEYCODE = IOW 69 0x04 (Array 2 c_int)"
definition EVIOCGNAME :: "u32 \<Rightarrow> u32" where "EVIOCGNAME len = IOC 2 69 0x06 len"
definition EVIOCGPHYS :: "u32 \<Rightarrow> u32" where "EVIOCGPHYS len = IOC 2 69 0x07 len"
definition EVIOCGUNIQ :: "u32 \<Rightarrow> u32" where "EVIOCGUNIQ len = IOC 2 69 0x08 len"
definition EVIOCGPROP :: "u32 \<Rightarrow> u32" where "EVIOCGPROP len = IOC 2 69 0x09 len"
definition EVIOCGMTSLOTS :: "u32 \<Rightarrow> u32" where "EVIOCGMTSLOTS len = IOC 2 69 0x0a len"
definition EVIOCGKEY :: "u32 \<Rightarrow> u32" where "EVIOCGKEY len = IOC 2 69 0x18 len"
definition EVIOCGALL :: "u32 \<Rightarrow> u32" where "EVIOCGALL len = IOC 2 69 0x19 len"
definition EVIOCGBIT :: "u32 \<Rightarrow> u32 \<Rightarrow> u32" where "EVIOCGBIT ev len = IOC 2 69 (0x20 + ev) len"
definition EVIOCGSND :: "u32 \<Rightarrow> u32" where "EVIOCGSND len = IOC 2 69 0x30 len"
definition EVIOCGSW :: "u32 \<Rightarrow> u32" where "EVIOCGSW len = IOC 2 69 0x1b len"
definition EVIOCRMFF :: u32 where "EVIOCRMFF = IOW 69 0x81 c_int"
definition EVIOCGEFFECTS :: u32 where "EVIOCGEFFECTS = IOR 69 0x84 c_int"
definition EVIOCGRAB :: u32 where "EVIOCGRAB = IOW 69 0x90 c_int"
definition EVIOCREVOKE :: u32 where "EVIOCREVOKE = IOW 69 0x91 c_int"
definition EVIOCSCLOCKID :: u32 where "EVIOCSCLOCKID = IOW 69 0xa0 c_int"

subsection \<open>Arguments of system calls\<close>

definition aux_types :: "(string \<times> nat) list" where
  "aux_types =
    [(''AT_NULL'', 0), (''AT_PHDR'', 3), (''AT_PHENT'', 4), (''AT_PHNUM'', 5), (''AT_PAGESZ'', 6),
     (''AT_BASE'', 7), (''AT_ENTRY'', 9), (''AT_RANDOM'', 25)]"

definition segment_types :: "(string \<times> nat) list" where
  "segment_types =
    [(''PT_LOAD'', 1), (''PT_DYNAMIC'', 2), (''PT_INTERP'', 3), (''PT_NOTE'', 4), (''PT_PHDR'', 6),
     (''PT_TLS'', 7)]"

definition fcntl_commands :: "(string \<times> nat) list" where
  "fcntl_commands =
    [(''F_DUPFD'', 0), (''F_DUPFD_CLOEXEC'', 1030), (''F_GETFD'', 1), (''F_SETFD'', 2), (''F_GETFL'', 3),
     (''F_SETFL'', 4)]"

definition address_families :: "(string \<times> nat) list" where
  "address_families =
    [(''AF_UNSPEC'', 0), (''AF_INET'', 2)]"

definition socket_types :: "(string \<times> nat) list" where
  "socket_types =
    [(''SOCK_STREAM'', 1), (''SOCK_DGRAM'', 2)]"

definition shutdown_modes :: "(string \<times> nat) list" where
  "shutdown_modes =
    [(''SHUT_RD'', 0), (''SHUT_WR'', 1), (''SHUT_RDWR'', 2)]"

definition socket_options :: "(string \<times> nat) list" where
  "socket_options =
    [(''SO_REUSEADDR'', 2), (''SO_TYPE'', 3), (''SO_ERROR'', 4), (''SO_SNDBUF'', 7), (''SO_RCVBUF'', 8)]"

definition ip_protocols :: "(string \<times> nat) list" where
  "ip_protocols =
    [(''IPPROTO_IP'', 0), (''IPPROTO_ICMP'', 1), (''IPPROTO_UDP'', 17), (''IPPROTO_TCP'', 6)]"

definition tty_commands :: "(string \<times> nat) list" where
  "tty_commands =
    [(''TCGETS'', 21505), (''TCSETS'', 21506), (''TCSETSW'', 21507), (''TCSETSF'', 21508),
     (''TIOCGWINSZ'', 21523), (''TIOCSWINSZ'', 21524), (''TIOCGPGRP'', 21519), (''TIOCSPGRP'', 21520)]"

definition tcsetattr_actions :: "(string \<times> nat) list" where
  "tcsetattr_actions =
    [(''TCSANOW'', 0), (''TCSADRAIN'', 1), (''TCSAFLUSH'', 2)]"

definition wait_options :: "(string \<times> nat) list" where
  "wait_options =
    [(''WNOHANG'', 1), (''WUNTRACED'', 2), (''WCONTINUED'', 8)]"

definition clock_ids :: "(string \<times> nat) list" where
  "clock_ids =
    [(''CLOCK_REALTIME'', 0), (''CLOCK_MONOTONIC'', 1), (''CLOCK_PROCESS_CPUTIME_ID'', 2),
     (''CLOCK_THREAD_CPUTIME_ID'', 3), (''CLOCK_MONOTONIC_RAW'', 4)]"

definition sigmask_modes :: "(string \<times> nat) list" where
  "sigmask_modes =
    [(''SIG_BLOCK'', 0), (''SIG_UNBLOCK'', 1), (''SIG_SETMASK'', 2)]"

definition altstack_flags :: "(string \<times> nat) list" where
  "altstack_flags =
    [(''SS_ONSTACK'', 1), (''SS_DISABLE'', 2)]"

definition reboot_commands :: "(string \<times> nat) list" where
  "reboot_commands =
    [(''LINUX_REBOOT_CMD_RESTART'', 19088743), (''LINUX_REBOOT_CMD_HALT'', 3454992675),
     (''LINUX_REBOOT_CMD_POWER_OFF'', 1126301404)]"

definition standard_files :: "(string \<times> nat) list" where
  "standard_files =
    [(''STDIN_FILENO'', 0), (''STDOUT_FILENO'', 1), (''STDERR_FILENO'', 2)]"

definition seek_origins :: "(string \<times> nat) list" where
  "seek_origins =
    [(''SEEK_SET'', 0), (''SEEK_CUR'', 1), (''SEEK_END'', 2)]"

definition sysconf_names :: "(string \<times> nat) list" where
  "sysconf_names =
    [(''_SC_NPROCESSORS_CONF'', 83), (''_SC_NPROCESSORS_ONLN'', 84)]"

definition stat_flags :: "(string \<times> nat) list" where
  "stat_flags =
    [(''AT_SYMLINK_NOFOLLOW'', 256), (''AT_EMPTY_PATH'', 4096)]"

definition arch_commands :: "(string \<times> nat) list" where
  "arch_commands =
    [(''ARCH_SET_FS'', 4098), (''ARCH_GET_FS'', 4099)]"

section \<open>Codes differ, flags are disjoint\<close>

definition codes_differ :: "(string \<times> nat) list \<Rightarrow> bool" where
  "codes_differ tab \<longleftrightarrow> distinct (map snd tab)"

definition flags_disjoint :: "(string \<times> nat) list \<Rightarrow> bool" where
  "flags_disjoint tab \<longleftrightarrow> sorted_wrt (\<lambda>a b. a AND b = 0) (map snd tab)"

text \<open>For a table in increasing order it is enough to compare neighbours.\<close>

lemma increasing_differ: "successively (<) (map snd tab) \<Longrightarrow> codes_differ tab"
  by (simp add: codes_differ_def successively_conv_sorted_wrt strict_sorted_iff)

lemma code_tables:
  "codes_differ errno_codes" "codes_differ signal_numbers" "codes_differ cc_index" "codes_differ file_types"
  "codes_differ dirent_types" "codes_differ ev_types" "codes_differ syn_codes" "codes_differ msc_codes"
  "codes_differ bus_types" "codes_differ key_codes"
proof -
  show "codes_differ errno_codes" "codes_differ file_types"
    by (simp_all add: codes_differ_def errno_codes_def file_types_def)
qed (rule increasing_differ; simp add: signal_numbers_def cc_index_def dirent_types_def ev_types_def syn_codes_def
    msc_codes_def bus_types_def key_codes_def)+

lemma flag_tables:
  "flags_disjoint sa_flags" "flags_disjoint open_flags" "flags_disjoint poll_events" "flags_disjoint prot_flags"
  "flags_disjoint map_flags" "flags_disjoint iflags" "flags_disjoint oflags" "flags_disjoint cflags" "flags_disjoint lflags"
  by (simp_all add: flags_disjoint_def sa_flags_def open_flags_def poll_events_def prot_flags_def map_flags_def iflags_def
      oflags_def cflags_def lflags_def)

lemma argument_tables:
  "codes_differ aux_types" "codes_differ segment_types" "codes_differ fcntl_commands"
  "codes_differ address_families" "codes_differ socket_types" "codes_differ shutdown_modes"
  "codes_differ socket_options" "codes_differ ip_protocols" "codes_differ tty_commands"
  "codes_differ tcsetattr_actions" "codes_differ clock_ids" "codes_differ sigmask_modes"
  "codes_differ reboot_commands" "codes_differ standard_files" "codes_differ seek_origins"
  "codes_differ sysconf_names" "codes_differ arch_commands"
  "flags_disjoint altstack_flags" "flags_disjoint stat_flags" "flags_disjoint wait_options"
  by (simp_all add: codes_differ_def flags_disjoint_def aux_types_def segment_types_def fcntl_commands_def address_families_def socket_types_def
       shutdown_modes_def socket_options_def ip_protocols_def tty_commands_def tcsetattr_actions_def
       wait_options_def clock_ids_def sigmask_modes_def altstack_flags_def reboot_commands_def
       standard_files_def seek_origins_def sysconf_names_def stat_flags_def arch_commands_def)

text \<open>
  The other theories use these values: the auxiliary types and the segment type of the start-up code, the commands
  of \<open>tcgetattr\<close> and \<open>tcsetattr\<close> (each action selects the command of the same rank).
\<close>

lemma argument_values:
  "map_option of_nat (map_of aux_types ''AT_PHDR'') = Some AT_PHDR" "map_option of_nat (map_of aux_types ''AT_PHENT'') = Some AT_PHENT"
  "map_option of_nat (map_of aux_types ''AT_PHNUM'') = Some AT_PHNUM" "map_option of_nat (map_of segment_types ''PT_TLS'') = Some PT_TLS"
  "map_option of_nat (map_of tty_commands ''TCGETS'') = Some TCGETS" "map_option of_nat (map_of tty_commands ''TCSETS'') = Some TCSETS"
  "map_option of_nat (map_of tty_commands ''TCSETSW'') = Some TCSETSW" "map_option of_nat (map_of tty_commands ''TCSETSF'') = Some TCSETSF"
  "map_option (\<lambda>a. TCSETS + of_nat a) (map_of tcsetattr_actions ''TCSADRAIN'') = Some TCSETSW"
  "map_option (\<lambda>a. TCSETS + of_nat a) (map_of tcsetattr_actions ''TCSAFLUSH'') = Some TCSETSF"
  by (simp_all add: aux_types_def segment_types_def tty_commands_def tcsetattr_actions_def)

text \<open>
  The restorer flag \<open>sigaction\<close> adds and removes is none of the public flags; negated error codes lie in the
  range the kernel reserves for them; every signal has a bit in \<open>sigset_t\<close>; every control
  character has a place among the 19 the kernel moves; the socket flags are the open flags of the same
  meaning; key codes fit the \<open>code\<close> field and event types the \<open>type\<close> field of an input event.
\<close>

lemma code_ranges:
  "list_all (\<lambda>(_, f). of_nat f AND SA_RESTORER = 0) sa_flags"
  "list_all (\<lambda>(_, e). 0 < e \<and> e < 4096) errno_codes"
  "list_all (\<lambda>(_, n). 1 \<le> n \<and> n \<le> 64) signal_numbers"
  "list_all (\<lambda>(_, i). i < 19) cc_index"
  "map_of socket_flags ''SOCK_NONBLOCK'' = map_of open_flags ''O_NONBLOCK''"
  "map_of socket_flags ''SOCK_CLOEXEC'' = map_of open_flags ''O_CLOEXEC''"
  "list_all (\<lambda>(_, c). c < 2 ^ 16) key_codes" "list_all (\<lambda>(_, c). c \<le> 0x1f) ev_types"
  by (simp_all add: sa_flags_def errno_codes_def signal_numbers_def cc_index_def socket_flags_def open_flags_def
      key_codes_def ev_types_def)

section \<open>File types\<close>

text \<open>A mode made of one of the file types and permission bits is recognised as that type and as no other.\<close>

lemma file_type_tests:
  fixes perm :: u32
  assumes "perm < 0x1000"
  shows "S_ISREG (S_IFREG OR perm)" "S_ISDIR (S_IFDIR OR perm)" "S_ISCHR (S_IFCHR OR perm)"
    and "\<not> (S_ISREG m \<and> S_ISDIR m)" "\<not> (S_ISREG m \<and> S_ISCHR m)" "\<not> (S_ISDIR m \<and> S_ISCHR m)"
proof -
  have "take_bit 12 perm = perm" using assms by (intro take_bit_small) (simp add: word_less_def)
  moreover have "take_bit 12 perm AND push_bit 12 c = 0" for perm c :: u32
    by (rule bit_word_eqI) (auto simp: bit_take_bit_iff bit_push_bit_iff bit_and_iff)
  from this [of _ 15] have "take_bit 12 perm AND 0xF000 = 0" by simp
  ultimately have "perm AND 0xF000 = 0" by metis
  then show "S_ISREG (S_IFREG OR perm)" "S_ISDIR (S_IFDIR OR perm)" "S_ISCHR (S_IFCHR OR perm)"
    by (simp_all add: S_ISREG_def S_ISDIR_def S_ISCHR_def S_IFMT_def S_IFREG_def S_IFDIR_def S_IFCHR_def
        bit.conj_disj_distrib2)
qed (auto simp: S_ISREG_def S_ISDIR_def S_ISCHR_def S_IFREG_def S_IFDIR_def S_IFCHR_def)

section \<open>The evdev commands\<close>

lemma evdev_fixed_commands:
  "distinct [EVIOCGVERSION, EVIOCGID, EVIOCGREP, EVIOCSREP, EVIOCGKEYCODE, EVIOCSKEYCODE, EVIOCRMFF, EVIOCGEFFECTS,
     EVIOCGRAB, EVIOCREVOKE, EVIOCSCLOCKID]"
  "take_bit 14 (drop_bit 16 EVIOCGID) = of_nat (sizeof input_id_t)"
  by (simp_all add: EVIOCGVERSION_def EVIOCGID_def EVIOCGREP_def EVIOCSREP_def EVIOCGKEYCODE_def EVIOCSKEYCODE_def
      EVIOCRMFF_def EVIOCGEFFECTS_def EVIOCGRAB_def EVIOCREVOKE_def EVIOCSCLOCKID_def IOR_def IOW_def IOC_def sizeof_def
      input_id_t_def fields_align_def round_up_scalar)

text \<open>\<open>EVIOCGBIT\<close> takes event types up to \<open>EV_MAX\<close>, 31, and for type 16 it is the command \<open>EVIOCGSND\<close>.\<close>

lemma evdev_snd_is_a_bit_command: "EVIOCGBIT 16 len = EVIOCGSND len"
  by (simp add: EVIOCGBIT_def EVIOCGSND_def)

end
