(* ===== verification/Spec2Isabelle.thy ===== *)
theory Spec2Isabelle
  imports Neo_Socket Neo_Mutex Neo_Monitor Neo_Semaphore Neo_Process Neo_Mpi_Start Neo_Mpi_Cast Neo_Stdio
    Neo_Start Neo_Crt0 Neo_Dirent Neo_Signal Neo_Codes
begin

text \<open>
  Verification of libneoos, the C library of NeoOS. Paths are those of the repository; the C sources
  are in \<open>src/\<close>, the headers in \<open>include/\<close>.

  \<^bold>\<open>The program.\<close> User programs enter at \<open>_start\<close> (\<open>crt0.asm\<close>), which hands the stack the kernel built
  to \<open>__libc_start\<close> (\<open>start.c\<close>). All services reach the kernel through the register-level wrappers of
  \<open>syscall.c\<close>; \<open>socket.c\<close>, \<open>dirent.c\<close>, \<open>signal.c\<close> and \<open>stdio.c\<close> are built on them. \<open>thread.c\<close> starts threads,
  \<open>pthread.c\<close> and \<open>semaphore.c\<close> add POSIX synchronisation over the futex, and \<open>mpi.c\<close> is a message-passing
  library over UDP datagrams. There is no allocator: every table is a static array with in-use flags.

  \<^bold>\<open>Theories and what they model.\<close>
  \<^item> \<open>Neo_Prelude\<close>: C's integer types as words, reachability and the locale \<open>invariant_system\<close>, the locale
    \<open>slot_table\<close> for tables of in-use flags, exclusive ownership of slots, lemmas on lists and words.
    \<open>Neo_Digits\<close>: positional numerals and the locale \<open>decimal_printer\<close>. \<open>Neo_Bytes\<close>: little-endian
    integers in memory and the locale \<open>element_codec\<close>. These three model no code of their own.
  \<^item> \<open>Neo_String\<close>: \<open>string.c\<close>, over a memory \<open>u64 \<Rightarrow> u8\<close>. Shown: the copying, filling, measuring and
    comparing functions meet list-level specifications, \<open>memmove\<close> for every overlap.
  \<^item> \<open>Neo_Kernel\<close>, \<open>Neo_Syscall\<close>: \<open>errno.h\<close>, the \<open>syscall0\<close> .. \<open>__neoos_syscall6\<close> helpers and every wrapper of
    \<open>syscall.c\<close>. The kernel is a parameter, a function of the register frame and the machine (memory and
    the kernel's own state). Shown: which frame each wrapper issues, and what it makes of the answer.
  \<^item> \<open>Neo_Socket\<close>: \<open>socket.c\<close>. Shown: \<open>inet_addr\<close> gives the address of every dotted quad and fails on every other string, and reads back what
    \<open>inet_ntoa_r\<close> writes; byte-order conversions are involutions.
  \<^item> \<open>Neo_Futex\<close>: what \<open>futex.h\<close> documents of the futex, as the hypothesis \<open>futex_documented\<close> on a parameter
    (when a wait may sleep, whom a wake wakes), with an instance that satisfies it.
  \<^item> \<open>Neo_Mutex\<close>, \<open>Neo_Cond\<close>, \<open>Neo_Monitor\<close>, \<open>Neo_Semaphore\<close>: the mutex and the condition variable of \<open>pthread.c\<close>
    and \<open>semaphore.c\<close>. Threads are interleaved at every atomic instruction and every futex call; a program
    counter per thread says where it is. Shown: mutual exclusion, absence of lost wake-ups, refinement
    of an abstract lock; no missed signal, a broadcast wakes all, the mutex is held on return from a
    wait; the semaphore count is exact. Spurious wake-ups, time-outs and failing weak
    compare-exchanges are steps too. \<open>Neo_Cond\<close> has the condition variable over an abstract lock; \<open>Neo_Monitor\<close>
    puts the mutex itself in its place, instruction by instruction, and shows that its runs are runs
    of both, so what is proved of either holds of the pair.
  \<^item> \<open>Neo_Thread\<close>: \<open>thread.c\<close>, interleaved at every access to its slot table. \<open>Neo_Pthread\<close>: the thread
    functions of \<open>pthread.c\<close> over their table of results; a critical section of \<open>pt_lock\<close> is one step
    (justified by mutual exclusion), every store outside it is a step of its own. The kernel
    chooses thread numbers; where a statement needs it, the hypothesis \<open>tids_last\<close> says that the number of a
    thread whose join has not returned is not given to another, so a number may come back after the join (without
    it \<open>pthread_join\<close> may find another thread's slot, which is shown too). Shown:
    a thread runs what its creator asked for, a slot belongs to one thread at a time and is given back,
    and a join delivers the joined thread's value. \<open>Neo_Process\<close> puts the two together: \<open>pthread_create\<close> runs
    the code of \<open>thread_create\<close>, beside programs that call it directly. Shown: its runs are runs of both.
  \<^item> \<open>Neo_Mpi_Queue\<close>: the pool and linked list of unexpected messages in \<open>mpi.c\<close>, with the interface
    \<open>mailbox\<close> it provides. \<open>Neo_Mpi\<close>: wire format, \<open>MPI_Send\<close>, \<open>recv_match\<close>, \<open>MPI_Recv\<close>. \<open>Neo_Mpi_Coll\<close>,
    \<open>Neo_Mpi_Barrier\<close>: the collectives. \<open>Neo_Mpi_Start\<close>: \<open>MPI_Launch\<close>, argument parsing, \<open>MPI_Init\<close> with its
    rendezvous, \<open>MPI_Finalize\<close>. The datagram service, the other system calls and double arithmetic are
    parameters (records \<open>net\<close>, \<open>os\<close>, \<open>fpu\<close>). Shown: \<open>recv_match\<close> refines an abstract mailbox and takes the
    first matching message in arrival order; sends are received byte for byte; reductions,
    broadcasts, all-reduces and barriers do what they promise under any arrival order within
    the queue's sixteen slots; tags keep collectives apart; launched ranks read their arguments back.
  \<^item> \<open>Neo_Mpi_World\<close>: all ranks of a program at once over one network, interleaved at every \<open>MPI_Send\<close>,
    \<open>MPI_Recv\<close> and \<open>recv_match\<close> of the collectives and with sends, receives and computation of the application
    between them. A lemma says that the calls taken one by one are \<open>MPI_Barrier\<close>, \<open>MPI_Bcast\<close>, \<open>MPI_Reduce\<close> and
    \<open>MPI_Allreduce\<close>. Fields of the cluster record what was asked (\<open>args\<close>: the send buffer and the memory of the caller as
    it enters a reduction, before any library code runs) and what was done; what the ranks do does not depend on them. The ranks begin after
    \<open>MPI_Init\<close>, perhaps with repeated hellos of the start-up still waiting. \<open>Neo_Mpi_Sync\<close>: under the hypothesis \<open>datagrams_conserved\<close>, that the network does not invent
    or duplicate datagrams (it may lose, delay and reorder them), a rank leaves a barrier that is its
    \<open>k\<close>-th collective only when every rank has begun its \<open>k\<close>-th. \<open>Neo_Mpi_Fold\<close>: under the same hypothesis a
    reduction that is the root's \<open>k\<close>-th collective combines one contribution of every other rank, the
    one of its \<open>k\<close>-th collective, and each holds that rank's send buffer at the call; for integers the result is the
    reduction of the send buffers of all ranks. \<open>Neo_Mpi_Cast\<close>: a
    broadcast delivers what its root sent in the same collective, and an all-reduce leaves the reduction of
    the send buffers of all ranks at every rank.
  \<^item> \<open>Neo_Stdio\<close>: \<open>stdio.c\<close>. Shown: \<open>printf\<close> writes the first 511 bytes of the text its format denotes, to
    \<open>/dev/kmsg\<close>, which it opens when it has not yet, or else to standard output.
  \<^item> \<open>Neo_Start\<close>, \<open>Neo_Crt0\<close>: \<open>start.c\<close> and \<open>crt0.asm\<close>. Shown: the thread-local block lies inside its mapping,
    aligned, with its self-pointer; the entry stub finds all four parts of the initial stack.
  \<^item> \<open>Neo_Dirent\<close>: \<open>dirent.c\<close>. Shown: a directory is listed completely and in order, and closing the stream gives back its
    slot and its descriptor.
  \<^item> \<open>Neo_Signal\<close>: \<open>signal.c\<close>, the inline set functions of \<open>signal.h\<close> and \<open>poll.h\<close>, the status macros of
    \<open>sys/wait.h\<close>, the command encoding of \<open>linux/input.h\<close>, with the locale \<open>bit_set\<close>. Shown: for any pair of
    pointers \<open>sigaction\<close> hands the kernel the action with the library's restorer and reports the old one without it.
  \<^item> \<open>Neo_Layout\<close>: the structures of the headers and sources as declared, and the layout the x86-64 ABI gives
    them. Lemmas: layouts are sound, and the byte offsets the other theories use are the declared ones.
    \<open>Neo_Codes\<close>: error codes, signals, flag words, file types, input events, the commands of
    \<open>linux/input.h\<close> and the arguments of system calls. Shown: codes differ, flags of one word are disjoint, ranges fit where they are stored.
  \<^item> This theory: the properties that span components.

  \<^bold>\<open>Conventions.\<close> C \<open>int\<close> is \<open>32 word\<close> read with \<open>sint\<close>, \<open>long\<close> and pointers are \<open>64 word\<close>; signed overflow
  wraps. Error codes are returned as in C. A loop that may run forever, or an access the source does
  not bound, is \<open>partial_function (option)\<close> or returns \<open>None\<close>; the theorems then state that the call
  returns. There is no fuel and no bound other than the source's own table sizes. Hypotheses on the
  number of threads or of operations (\<open>2 ^ 31\<close>, \<open>2 ^ 32\<close>) are the ranges of the counters.
  Memory is sequentially consistent at the atomic operations; the sources' acquire and
  release orders are not distinguished further. Fields that record history for a statement are
  marked as such where the record is declared.

  \<^bold>\<open>Not modelled.\<close> Headers that hold only prototypes (\<open>string.h\<close>, \<open>stdio.h\<close>, \<open>thread.h\<close>, \<open>neoos_test.h\<close> and
  others) have no behaviour; the functions they declare are modelled where they are defined. The signal
  return trampoline is one system call in assembly, present as an address. The build files, the
  documentation and the tests are not code of the library.
\<close>

section \<open>Properties across components\<close>

text \<open>The stride of \<open>pt_slots\<close> in \<open>Neo_Process\<close> is the size of the structure \<open>Neo_Layout\<close> computes.\<close>

lemma slot_addr_stride: "slot_addr B i = B + of_nat (sizeof pthread_slot_t * i)"
  by (simp add: slot_addr_def sizeof_def pthread_slot_t_def fields_align_def round_up_scalar)

text \<open>
  C32. One decimal notation. The library prints numbers in decimal in three places, each with a loop
  of its own: \<open>append_int\<close> and \<open>append_uint\<close> of \<open>printf\<close>, \<open>int_to_str\<close> of \<open>MPI_Launch\<close>, and the octets
  of \<open>inet_ntoa_r\<close>. On every \<open>int\<close> that is not negative they write the same text.
\<close>

theorem decimal_printers_agree:
  assumes "0 \<le> sint v"
  shows "append_int [] (sext v) @ [0] = int_to_str v \<and> append_uint [] (ucast v) 10 False @ [0] = int_to_str v \<and>
         (v < 256 \<longrightarrow> put_octet v st = fold put (butlast (int_to_str v)) st)"
proof -
  define n where "n = nat (sint v)"
  have n: "n < 2 ^ 64" and v: "int n = sint v" using assms sint_i32_bounds(2) [of v] by (simp_all add: n_def)
  have s: "sext v = of_nat n" unfolding scast_eq v [symmetric] by simp
  have u: "uint v = int n" using uint_sint_nonneg [OF assms] v by simp
  then have w: "unat v = n" by (metis nat_int unat_eq_nat_uint)
  have c: "ucast v = (of_nat n :: u64)" using u by (metis of_int_of_nat_eq ucast_eq)
  have str: "int_to_str v = dec_text n @ [0]" using int_to_str_dec [OF assms] by (simp add: n_def)
  have "sint (of_nat n :: i64) = int n" using s v sint_up_scast [of v, where ?'b = 64] by (simp add: is_up)
  then have "append_int [] (sext v) = append_uint [] (of_nat n) 10 False"
    unfolding s append_int_def by simp
  moreover have "v < 256 \<Longrightarrow> put_octet v st = fold put (dec_text n) st"
    using put_octet_text [of v st] w by (simp add: word_less_nat_alt)
  ultimately show ?thesis by (simp add: str c printf_dec.print_dec [OF n])
qed

theorem decimal_printers_agree_witness:
  "append_int [] (sext (200 :: i32)) @ [0] = int_to_str 200 \<and>
   put_octet 200 (\<lambda>a. 0, 64) = fold put (butlast (int_to_str 200)) (\<lambda>a. 0, 64)"
  using decimal_printers_agree [of 200 "(\<lambda>a. 0, 64)"] by simp

end
